(* ===== verification/Cash_Prelude.thy ===== *)
theory Cash_Prelude
  imports Main "HOL-Library.Word" "HOL-Library.Monad_Syntax"
begin

text \<open>
  Shared vocabulary of the cashware development: the machine types of the C sources, checked
  array accesses, bounded loops, and C strings.

  A C function is translated to a HOL function into the option type. The value None means that
  the C code has left defined behaviour at that point (an array index out of range, a shift by a
  negative amount, an uninitialised variable that is used); the theorems of the development say
  on which inputs this cannot happen. A loop with a constant number of rounds is forM over the
  list of its indices.
\<close>

unbundle bit_operations_syntax

type_synonym u8 = "8 word"
type_synonym u16 = "16 word"
type_synonym u32 = "32 word"

named_theorems cash_mem \<open>rules for checked memory accesses\<close>
named_theorems cash_eval \<open>equations that evaluate the model on concrete data\<close>

section \<open>Checked array accesses\<close>

definition rd :: "'a list \<Rightarrow> nat \<Rightarrow> 'a option" where
  "rd xs i = (if i < length xs then Some (xs ! i) else None)"

definition wr :: "'a list \<Rightarrow> nat \<Rightarrow> 'a \<Rightarrow> 'a list option" where
  "wr xs i v = (if i < length xs then Some (xs[i := v]) else None)"

lemma rd_in [simp, cash_mem]: "i < length xs \<Longrightarrow> rd xs i = Some (xs ! i)"
  by (simp add: rd_def)

lemma rd_out [simp]: "length xs \<le> i \<Longrightarrow> rd xs i = None"
  by (simp add: rd_def)

lemma wr_in [simp, cash_mem]: "i < length xs \<Longrightarrow> wr xs i v = Some (xs[i := v])"
  by (simp add: wr_def)

lemma wr_out [simp]: "length xs \<le> i \<Longrightarrow> wr xs i v = None"
  by (simp add: wr_def)

lemma rd_Some_iff: "rd xs i = Some v \<longleftrightarrow> i < length xs \<and> v = xs ! i"
  by (auto simp: rd_def)

lemma wr_Some_iff: "wr xs i v = Some ys \<longleftrightarrow> i < length xs \<and> ys = xs[i := v]"
  by (auto simp: wr_def)

lemma rd_None_iff: "rd xs i = None \<longleftrightarrow> length xs \<le> i"
  by (auto simp: rd_def)

text \<open>at buf i xs: the bytes xs stand in buf from position i on.\<close>

definition at :: "'a list \<Rightarrow> nat \<Rightarrow> 'a list \<Rightarrow> bool" where
  "at buf i xs \<longleftrightarrow> (\<forall>j < length xs. rd buf (i + j) = Some (xs ! j))"

lemma at_Cons [simp]: "at buf i (x # xs) \<longleftrightarrow> rd buf i = Some x \<and> at buf (Suc i) xs"
  by (auto simp: at_def All_less_Suc2)

lemma at_Nil [simp]: "at buf i []"
  by (simp add: at_def)

lemma at_append [simp]: "at buf i (xs @ ys) \<longleftrightarrow> at buf i xs \<and> at buf (i + length xs) ys"
  by (induction xs arbitrary: i) auto

lemma at_extend: "at p i xs \<Longrightarrow> at (p @ q) i xs"
  by (auto simp: at_def rd_def nth_append split: if_splits)

lemma at_self: "at xs 0 xs"
  by (simp add: at_def)

lemma at_length: "at p a v \<Longrightarrow> v \<noteq> [] \<Longrightarrow> a + length v \<le> length p"
proof -
  assume "at p a v" "v \<noteq> []"
  then have "rd p (a + (length v - 1)) = Some (v ! (length v - 1))" by (simp add: at_def)
  moreover have "0 < length v" using \<open>v \<noteq> []\<close> by simp
  ultimately show ?thesis by (simp add: rd_def split: if_splits)
qed

lemma at_take: "at p a v \<Longrightarrow> take (length v) (drop a p) = v"
proof (cases "v = []")
  case False
  assume at: "at p a v"
  then have "a + length v \<le> length p" using at_length [OF _ False] by blast
  with at show ?thesis
    by (intro nth_equalityI) (auto simp: at_def rd_def split: if_splits)
qed simp

section \<open>Bounded loops\<close>

text \<open>forM is f s is the C loop that runs the body f once per index of is, threading s.\<close>

primrec forM :: "'i list \<Rightarrow> ('i \<Rightarrow> 's \<Rightarrow> 's option) \<Rightarrow> 's \<Rightarrow> 's option" where
  "forM [] f s = Some s"
| "forM (i # is) f s = Option.bind (f i s) (forM is f)"

lemma forM_append: "forM (xs @ ys) f s = Option.bind (forM xs f s) (forM ys f)"
  by (induction xs arbitrary: s) (simp_all split: Option.bind_splits)

lemma forM_Nil_fun [simp]: "forM [] f = Some"
  by (rule ext) simp

lemma forM_upt_first: "i < j \<Longrightarrow> forM [i..<j] f s = Option.bind (f i s) (forM [Suc i..<j] f)"
  by (simp only: upt_conv_Cons forM.simps)

lemma forM_upt_split: "i \<le> k \<Longrightarrow> k \<le> j \<Longrightarrow> forM [i..<j] f s = Option.bind (forM [i..<k] f s) (forM [k..<j] f)"
  by (metis forM_append le_Suc_ex upt_add_eq_append)

lemma forM_skip: "forM [i..<k] f s = Some t \<Longrightarrow> i \<le> k \<Longrightarrow> k \<le> j \<Longrightarrow> forM [i..<j] f s = forM [k..<j] f t"
  by (simp add: forM_upt_split [of i k j])

lemma forM_cong:
  "(\<And>i t. i \<in> set is \<Longrightarrow> f i t = g i t) \<Longrightarrow> forM is f s = forM is g s"
proof (induction "is" arbitrary: s)
  case (Cons i "is")
  then have "f i s = g i s" and "forM is f = forM is g" by auto
  then show ?case by simp
qed simp

lemma forM_total: "(\<And>i s. i \<in> set is \<Longrightarrow> f i s = Some (g i s)) \<Longrightarrow> forM is f s = Some (fold g is s)"
  by (induction "is" arbitrary: s) simp_all

text \<open>The invariant rule: what every round keeps holds at the end, and no round faults.\<close>

lemma forM_invariant:
  assumes "P s"
    and "\<And>i s. i \<in> set is \<Longrightarrow> P s \<Longrightarrow> \<exists>t. f i s = Some t \<and> P t"
  shows "\<exists>t. forM is f s = Some t \<and> P t"
  using assms
proof (induction "is" arbitrary: s)
  case Nil
  then show ?case by simp
next
  case (Cons i "is")
  then obtain t where "f i s = Some t" "P t" by (meson list.set_intros(1))
  moreover have "\<exists>u. forM is f t = Some u \<and> P u"
    using \<open>P t\<close> Cons.prems(2) by (intro Cons.IH) auto
  ultimately show ?case by simp
qed

text \<open>The same with an invariant that may depend on the index.\<close>

lemma forM_upt_invariant:
  assumes "P a s" "a \<le> b"
    and "\<And>i s. a \<le> i \<Longrightarrow> i < b \<Longrightarrow> P i s \<Longrightarrow> \<exists>t. f i s = Some t \<and> P (Suc i) t"
  shows "\<exists>t. forM [a..<b] f s = Some t \<and> P b t"
  using assms(2,3)
proof (induction b rule: dec_induct)
  case base
  then show ?case using assms(1) by simp
next
  case (step n)
  then obtain t where "forM [a..<n] f s = Some t" "P n t" by (metis less_SucI)
  with step.prems [of n t] step.hyps show ?case by (auto simp: forM_append)
qed

section \<open>memcpy\<close>

text \<open>The effect of memcpy (dst + off, src, length src), which must stay inside dst.\<close>

definition overlay :: "'a list \<Rightarrow> nat \<Rightarrow> 'a list \<Rightarrow> 'a list" where
  "overlay dst off src = take off dst @ src @ drop (off + length src) dst"

definition memcpy_at :: "'a list \<Rightarrow> nat \<Rightarrow> 'a list \<Rightarrow> 'a list option" where
  "memcpy_at dst off src = (if off + length src \<le> length dst then Some (overlay dst off src) else None)"

lemma overlay_length [simp]: "off + length src \<le> length dst \<Longrightarrow> length (overlay dst off src) = length dst"
  by (simp add: overlay_def)

lemma overlay_take [simp]: "off + length src \<le> length dst \<Longrightarrow> take (length src) (drop off (overlay dst off src)) = src"
  by (simp add: overlay_def)

lemma overlay_full: "length src = length dst \<Longrightarrow> overlay dst 0 src = src"
  by (simp add: overlay_def)

lemma overlay_Nil [simp]: "overlay dst off [] = dst"
  by (simp add: overlay_def)

lemma overlay_nth:
  assumes "off + length src \<le> length dst" "i < length dst"
  shows "overlay dst off src ! i
    = (if off \<le> i \<and> i < off + length src then src ! (i - off) else dst ! i)"
proof (cases "i < off")
  case True
  with assms show ?thesis by (simp add: overlay_def nth_append)
next
  case False
  with assms show ?thesis by (auto simp: overlay_def nth_append)
qed

text \<open>Filling an array index by index is one overlay.\<close>

lemma forM_fill:
  "off + length src \<le> length dst \<Longrightarrow>
   forM [0..<length src] (\<lambda>i b. wr b (off + i) (src ! i)) dst = Some (overlay dst off src)"
proof (induction src rule: rev_induct)
  case Nil
  then show ?case by simp
next
  case (snoc x xs)
  then have IH: "forM [0..<length xs] (\<lambda>i b. wr b (off + i) (xs ! i)) dst = Some (overlay dst off xs)"
    by simp
  have eq: "forM [0..<length xs] (\<lambda>i b. wr b (off + i) ((xs @ [x]) ! i)) dst
      = forM [0..<length xs] (\<lambda>i b. wr b (off + i) (xs ! i)) dst"
    by (rule forM_cong) (simp add: nth_append)
  have "(overlay dst off xs)[off + length xs := x] = overlay dst off (xs @ [x])"
    using snoc.prems by (intro nth_equalityI) (auto simp: overlay_nth nth_list_update nth_append)
  with IH eq snoc.prems show ?case by (simp add: forM_append)
qed

lemma copy_into_buffer:
  assumes "n \<le> length buf" "off + n \<le> length b"
  shows "forM [0..<n] (\<lambda>i b. do { v \<leftarrow> rd buf i; wr b (off + i) v }) b = Some (overlay b off (take n buf))"
proof -
  have "forM [0..<n] (\<lambda>i b. do { v \<leftarrow> rd buf i; wr b (off + i) v }) b
      = forM [0..<length (take n buf)] (\<lambda>i b. wr b (off + i) (take n buf ! i)) b"
    unfolding length_take min_absorb2 [OF assms(1)] by (rule forM_cong) (use assms(1) in simp)
  also have "\<dots> = Some (overlay b off (take n buf))" by (rule forM_fill) (use assms in simp)
  finally show ?thesis .
qed

text \<open>A fill that is longer than the array leaves it.\<close>

lemma forM_fill_overrun: "length b < n \<Longrightarrow> forM [0..<n] (\<lambda>i b. wr b i (f i)) b = None"
proof -
  assume n: "length b < n"
  have "\<exists>t. forM [0..<length b] (\<lambda>i b. wr b i (f i)) b = Some t \<and> length t = length b"
    by (rule forM_upt_invariant [where P = "\<lambda>i t. length t = length b"]) auto
  then obtain t where t: "forM [0..<length b] (\<lambda>i b. wr b i (f i)) b = Some t" "length t = length b" by blast
  have "forM [0..<n] (\<lambda>i b. wr b i (f i)) b = forM [length b..<n] (\<lambda>i b. wr b i (f i)) t"
    using n by (intro forM_skip [OF t(1)]) simp_all
  then show ?thesis using n t(2) by (simp add: forM_upt_first)
qed

text \<open>
  Compacting an array in place: the elements that are kept are moved to the front, each changed by
  low. This is the first pass of both script readers.
\<close>

lemma overlay_snoc: "length xs < length dst \<Longrightarrow> (overlay dst 0 xs)[length xs := x] = overlay dst 0 (xs @ [x])"
  by (simp add: overlay_def list_update_append Cons_nth_drop_Suc [symmetric])

lemma strip_pass:
  assumes "n \<le> length buf"
  shows "forM [0..<n] (\<lambda>i (b, w). do { c \<leftarrow> rd b i;
      (if keep c then do { b' \<leftarrow> wr b w (low c); Some (b', w + 1) } else Some (b, w)) }) (buf, 0)
    = Some (overlay buf 0 (map low (filter keep (take n buf))), length (filter keep (take n buf)))"
proof -
  let ?f = "\<lambda>i (b, w). do { c \<leftarrow> rd b i;
     (if keep c then do { b' \<leftarrow> wr b w (low c); Some (b', w + 1) } else Some (b, w)) }"
  let ?s = "\<lambda>i. map low (filter keep (take i buf))"
  let ?P = "\<lambda>i s. s = (overlay buf 0 (?s i), length (?s i))"
  have "\<exists>t. forM [0..<n] ?f (buf, 0) = Some t \<and> ?P n t"
  proof (rule forM_upt_invariant)
    fix i and s :: "'a list \<times> nat" assume i: "i < n" and P: "?P i s"
    have l: "length (?s i) \<le> i" using length_filter_le [of keep "take i buf"] i assms by simp
    then have "rd (overlay buf 0 (?s i)) i = Some (buf ! i)" using i assms by (simp add: overlay_nth)
    moreover have "take (Suc i) buf = take i buf @ [buf ! i]" using i assms by (simp add: take_Suc_conv_app_nth)
    ultimately show "\<exists>t. ?f i s = Some t \<and> ?P (Suc i) t"
      using P l i assms overlay_snoc [of "?s i" buf "low (buf ! i)"] by simp
  qed simp_all
  then show ?thesis by simp
qed

section \<open>Characters and C strings\<close>

text \<open>The bytes of a literal; a C string literal also ends with a zero byte.\<close>

definition bytes :: "string \<Rightarrow> u8 list" where
  "bytes s = map of_char s"

definition cstring :: "string \<Rightarrow> u8 list" where
  "cstring s = bytes s @ [0]"

lemma bytes_simps [simp, cash_eval]: "bytes [] = []" "bytes (c # cs) = of_char c # bytes cs"
  by (simp_all add: bytes_def)

lemma bytes_append [simp]: "bytes (s @ t) = bytes s @ bytes t"
  by (simp add: bytes_def)

lemma length_bytes [simp]: "length (bytes s) = length s"
  by (simp add: bytes_def)

lemma unat_of_char: "unat (of_char c :: u8) = of_char c"
proof -
  have "(of_char c :: u8) = of_nat (of_char c)" by (simp only: of_nat_of_char)
  moreover have "(of_char c :: nat) < 256" by (metis of_char_mod_256 mod_less_divisor zero_less_numeral)
  ultimately show ?thesis by (simp only: unat_of_nat) simp
qed

lemma of_char_u8_inj [simp]: "(of_char c :: u8) = of_char d \<longleftrightarrow> c = d"
  by (metis of_char_eq_iff unat_of_char)

lemma bytes_inj: "bytes s = bytes t \<longleftrightarrow> s = t"
  by (simp add: bytes_def inj_map_eq_map inj_def)

text \<open>
  strcmp (a, b) == 0. The comparison stops at the first difference or at the common terminator;
  running off either array before that is undefined.
\<close>

fun strcmp_eq :: "u8 list \<Rightarrow> u8 list \<Rightarrow> bool option" where
  "strcmp_eq (a # as) (b # bs) =
     (if a \<noteq> b then Some False else if a = 0 then Some True else strcmp_eq as bs)"
| "strcmp_eq _ _ = None"

lemma strcmp_eq_terminated:
  "0 \<notin> set s \<Longrightarrow> 0 \<notin> set t \<Longrightarrow> strcmp_eq (s @ 0 # x) (t @ 0 # y) = Some (s = t)"
proof (induction s arbitrary: t)
  case Nil
  then show ?case by (cases t) auto
next
  case (Cons a s)
  then show ?case by (cases t) auto
qed

text \<open>strncmp (a, b, n) == 0: at most n bytes are compared.\<close>

fun strncmp_eq :: "u8 list \<Rightarrow> u8 list \<Rightarrow> nat \<Rightarrow> bool option" where
  "strncmp_eq _ _ 0 = Some True"
| "strncmp_eq (a # as) (b # bs) (Suc n) =
     (if a \<noteq> b then Some False else if a = 0 then Some True else strncmp_eq as bs n)"
| "strncmp_eq _ _ (Suc n) = None"

lemma strncmp_eq_prefix:
  "0 \<notin> set s \<Longrightarrow> n \<le> length s \<Longrightarrow> n \<le> length t \<Longrightarrow> strncmp_eq s t n = Some (take n s = take n t)"
  by (induction s t n rule: strncmp_eq.induct) auto

section \<open>Words\<close>

lemma unat_u8_less [simp]: "unat (x :: u8) < 256"
  using unsigned_less [of x] by simp

lemma unat_u16_less [simp]: "unat (x :: u16) < 65536"
  using unsigned_less [of x] by simp

lemma unat_ucast_u8_u32 [simp]: "unat (ucast (x :: u8) :: u32) = unat x"
proof -
  have "unat x < 2 ^ 32" using unat_u8_less [of x] by (rule less_trans) simp
  then have "take_bit 32 (unat x) = unat x" by (rule take_bit_nat_eq_self)
  then show ?thesis by (simp add: unsigned_ucast_eq)
qed

lemma unat_ucast_u16_u32 [simp]: "unat (ucast (x :: u16) :: u32) = unat x"
proof -
  have "unat x < 2 ^ 32" by (rule less_trans [OF unat_u16_less]) simp
  then have "take_bit 32 (unat x) = unat x" by (rule take_bit_nat_eq_self)
  then show ?thesis by (simp add: unsigned_ucast_eq)
qed

lemma unat_ucast_u32_u16: "unat x < 65536 \<Longrightarrow> unat (ucast (x :: u32) :: u16) = unat x"
proof -
  assume "unat x < 65536"
  then have "take_bit 16 (unat x) = unat x" by (intro take_bit_nat_eq_self) simp
  then show ?thesis by (simp add: unsigned_ucast_eq)
qed

lemma mod_complement: "0 < (m :: nat) \<Longrightarrow> (x + (m - x mod m)) mod m = 0"
proof -
  assume "0 < m"
  then have "x mod m + (m - x mod m) = m" by (simp add: less_imp_le)
  moreover have "(x + (m - x mod m)) mod m = (x mod m + (m - x mod m)) mod m" by (rule mod_add_left_eq [symmetric])
  ultimately show ?thesis by simp
qed

definition hi8 :: "nat \<Rightarrow> u8" where
  "hi8 n = of_nat (n div 256)"

definition lo8 :: "nat \<Rightarrow> u8" where
  "lo8 n = of_nat (n mod 256)"

lemma unat_hi8 [simp]: "n < 65536 \<Longrightarrow> unat (hi8 n) = n div 256"
  by (simp add: hi8_def unat_of_nat)

lemma unat_lo8 [simp]: "unat (lo8 n) = n mod 256"
  by (simp add: lo8_def unat_of_nat)

lemma hi_lo_nat: "n < 65536 \<Longrightarrow> unat (hi8 n) * 256 + unat (lo8 n) = n"
  by simp

section \<open>Ring buffers\<close>

lemma wrap_step: "(i::nat) < n \<Longrightarrow> (if n \<le> Suc i then 0 else Suc i) = Suc i mod n"
  by (metis Suc_lessI le_refl mod_less mod_self not_less)

lemma ring_index_inj:
  assumes "a < n" "b < n" "(k + a) mod n = (k + b) mod n"
  shows "a = (b::nat)"
  using assms
proof (induction a b rule: linorder_wlog)
  case (le a b)
  then have "n dvd b - a" using mod_eq_dvd_iff_nat [of "k + a" "k + b" n] by simp
  with le have "b - a = 0" by (meson dvd_imp_le less_imp_diff_less not_gr_zero not_less)
  with le show ?case by simp
next
  case (sym a b)
  then show ?case by metis
qed

end
