(* ===== verification/Rt_Lib.thy ===== *)
theory Rt_Lib
  imports Cash_Prelude
begin

text \<open>
  The kernel's own C library (src/src/kservice.c): memory and string functions and the search for the lowest set bit.

  The memory is a function from addresses to bytes; a char is unsigned, as on the ARM. A pointer
  that walks over memory is a number that is passed along; that it wraps at the end of the
  address space is left out. A word of memory is its four bytes, the lowest one first. The loops that
  run to the terminator of a string are partial functions: None is a loop that does not end.
\<close>

type_synonym mem = "nat \<Rightarrow> u8"

section \<open>Filling and copying\<close>

definition ld32 :: "mem \<Rightarrow> nat \<Rightarrow> u32" where
  "ld32 m a = ucast (m a) OR push_bit 8 (ucast (m (a + 1))) OR push_bit 16 (ucast (m (a + 2)))
     OR push_bit 24 (ucast (m (a + 3)))"

definition st32 :: "nat \<Rightarrow> u32 \<Rightarrow> mem \<Rightarrow> mem" where
  "st32 a w m = m(a := ucast w, a + 1 := ucast (drop_bit 8 w), a + 2 := ucast (drop_bit 16 w),
     a + 3 := ucast (drop_bit 24 w))"

text \<open>The bytewise loops: *m++ = d, and *dst++ = *src++.\<close>

primrec fill_bytes :: "nat \<Rightarrow> u8 \<Rightarrow> nat \<Rightarrow> mem \<Rightarrow> mem" where
  "fill_bytes a d 0 m = m"
| "fill_bytes a d (Suc n) m = fill_bytes (a + 1) d n (m(a := d))"

primrec copy_bytes :: "nat \<Rightarrow> nat \<Rightarrow> nat \<Rightarrow> mem \<Rightarrow> mem" where
  "copy_bytes d s 0 m = m"
| "copy_bytes d s (Suc n) m = copy_bytes (d + 1) (s + 1) n (m(d := m s))"

text \<open>
  The loops over words, four at a time and one at a time. Each returns the pointers and the number
  of bytes that are left.
\<close>

definition cpy32 :: "nat \<Rightarrow> nat \<Rightarrow> mem \<Rightarrow> mem" where
  "cpy32 d s m = st32 d (ld32 m s) m"

fun fill_blocks :: "nat \<Rightarrow> u32 \<Rightarrow> nat \<Rightarrow> mem \<Rightarrow> nat \<times> nat \<times> mem" where
  "fill_blocks a w n m = (if 16 \<le> n
     then fill_blocks (a + 16) w (n - 16) (st32 (a + 12) w (st32 (a + 8) w (st32 (a + 4) w (st32 a w m))))
     else (a, n, m))"

fun fill_words :: "nat \<Rightarrow> u32 \<Rightarrow> nat \<Rightarrow> mem \<Rightarrow> nat \<times> nat \<times> mem" where
  "fill_words a w n m = (if 4 \<le> n then fill_words (a + 4) w (n - 4) (st32 a w m) else (a, n, m))"

fun copy_blocks :: "nat \<Rightarrow> nat \<Rightarrow> nat \<Rightarrow> mem \<Rightarrow> nat \<times> nat \<times> nat \<times> mem" where
  "copy_blocks d s n m = (if 16 \<le> n
     then copy_blocks (d + 16) (s + 16) (n - 16)
       (cpy32 (d + 12) (s + 12) (cpy32 (d + 8) (s + 8) (cpy32 (d + 4) (s + 4) (cpy32 d s m))))
     else (d, s, n, m))"

fun copy_words :: "nat \<Rightarrow> nat \<Rightarrow> nat \<Rightarrow> mem \<Rightarrow> nat \<times> nat \<times> nat \<times> mem" where
  "copy_words d s n m = (if 4 \<le> n then copy_words (d + 4) (s + 4) (n - 4) (cpy32 d s m) else (d, s, n, m))"

declare fill_blocks.simps [simp del] fill_words.simps [simp del]
declare copy_blocks.simps [simp del] copy_words.simps [simp del]

definition rt_memset :: "nat \<Rightarrow> u32 \<Rightarrow> nat \<Rightarrow> mem \<Rightarrow> mem" where
  "rt_memset s c count m = (let d = c AND 0xFF in
     if 4 \<le> count \<and> s mod 4 = 0 then
       (let b1 = push_bit 8 d OR d; buffer = b1 OR push_bit 16 b1;
            (a1, n1, m1) = fill_blocks s buffer count m;
            (a2, n2, m2) = fill_words a1 buffer n1 m1
        in fill_bytes a2 (ucast d) n2 m2)
     else fill_bytes s (ucast d) count m)"

definition rt_memcpy :: "nat \<Rightarrow> nat \<Rightarrow> nat \<Rightarrow> mem \<Rightarrow> mem" where
  "rt_memcpy dst src count m =
     (if 16 \<le> count \<and> src mod 4 = 0 \<and> dst mod 4 = 0 then
       (let (d1, s1, n1, m1) = copy_blocks dst src count m;
            (d2, s2, n2, m2) = copy_words d1 s1 n1 m1
        in copy_bytes d2 s2 n2 m2)
      else copy_bytes dst src count m)"

text \<open>memmove copies from the end where the destination lies inside the source.\<close>

primrec copy_down :: "nat \<Rightarrow> nat \<Rightarrow> nat \<Rightarrow> mem \<Rightarrow> mem" where
  "copy_down d s 0 m = m"
| "copy_down d s (Suc n) m = copy_down d s n (m(d + n := m (s + n)))"

definition rt_memmove :: "nat \<Rightarrow> nat \<Rightarrow> nat \<Rightarrow> mem \<Rightarrow> mem" where
  "rt_memmove dst src n m =
     (if src < dst \<and> dst < src + n then copy_down dst src n m else copy_bytes dst src n m)"

primrec rt_memcmp :: "mem \<Rightarrow> nat \<Rightarrow> nat \<Rightarrow> nat \<Rightarrow> int" where
  "rt_memcmp m a b 0 = 0"
| "rt_memcmp m a b (Suc n) =
     (let res = int (unat (m a)) - int (unat (m b)) in
      if res \<noteq> 0 then res else rt_memcmp m (a + 1) (b + 1) n)"

section \<open>Strings\<close>

partial_function (option) str_end :: "mem \<Rightarrow> nat \<Rightarrow> nat option" where
  "str_end m sc = (if m sc \<noteq> 0 then str_end m (sc + 1) else Some sc)"

definition rt_strlen :: "mem \<Rightarrow> nat \<Rightarrow> nat option" where
  "rt_strlen m s = map_option (\<lambda>sc. sc - s) (str_end m s)"

fun strstr_loop :: "mem \<Rightarrow> nat \<Rightarrow> nat \<Rightarrow> nat \<Rightarrow> nat \<Rightarrow> nat option" where
  "strstr_loop m s1 s2 l1 l2 =
     (if l2 \<le> l1 \<and> 0 < l1 then if rt_memcmp m s1 s2 l2 = 0 then Some s1 else strstr_loop m (s1 + 1) s2 (l1 - 1) l2
      else None)"

declare strstr_loop.simps [simp del]

text \<open>The outer option is the loop of rt_strlen, the inner one RT_NULL.\<close>

definition rt_strstr :: "mem \<Rightarrow> nat \<Rightarrow> nat \<Rightarrow> nat option option" where
  "rt_strstr m s1 s2 = do {
     l2 \<leftarrow> rt_strlen m s2;
     (if l2 = 0 then Some (Some s1)
      else do { l1 \<leftarrow> rt_strlen m s1; Some (strstr_loop m s1 s2 l1 l2) }) }"

definition rt_lower :: "u8 \<Rightarrow> u8" where
  "rt_lower c = (if 65 \<le> c \<and> c \<le> 90 then c + 32 else c)"

partial_function (option) rt_strcasecmp :: "mem \<Rightarrow> nat \<Rightarrow> nat \<Rightarrow> u32 option" where
  "rt_strcasecmp m a b =
     (let ca = rt_lower (m a); cb = rt_lower (m b) in
      if ca = cb \<and> ca \<noteq> 0 then rt_strcasecmp m (a + 1) (b + 1) else Some (ucast ca - ucast cb))"

primrec rt_strncpy :: "nat \<Rightarrow> nat \<Rightarrow> nat \<Rightarrow> mem \<Rightarrow> mem" where
  "rt_strncpy d s 0 m = m"
| "rt_strncpy d s (Suc n) m =
     (if m s = 0 then fill_bytes (d + 1) 0 n (m(d := 0)) else rt_strncpy (d + 1) (s + 1) n (m(d := m s)))"

text \<open>The difference is kept in a signed char, and returned as an unsigned long.\<close>

primrec strncmp_loop :: "mem \<Rightarrow> nat \<Rightarrow> nat \<Rightarrow> nat \<Rightarrow> u8 \<Rightarrow> u8" where
  "strncmp_loop m cs ct 0 res = res"
| "strncmp_loop m cs ct (Suc n) res =
     (let r = m cs - m ct in if r \<noteq> 0 \<or> m cs = 0 then r else strncmp_loop m (cs + 1) (ct + 1) n r)"

definition rt_strncmp :: "mem \<Rightarrow> nat \<Rightarrow> nat \<Rightarrow> nat \<Rightarrow> u32" where
  "rt_strncmp m cs ct count = scast (strncmp_loop m cs ct count 0)"

partial_function (option) rt_strcmp :: "mem \<Rightarrow> nat \<Rightarrow> nat \<Rightarrow> u32 option" where
  "rt_strcmp m cs ct =
     (if m cs \<noteq> 0 \<and> m cs = m ct then rt_strcmp m (cs + 1) (ct + 1)
      else Some (ucast (m cs) - ucast (m ct)))"

section \<open>The lowest set bit\<close>

text \<open>The table __lowest_bit_bitmap as it stands in the code, sixteen entries a row.\<close>

definition bitmap_row :: "nat \<Rightarrow> nat list" where
  "bitmap_row x = [x, 0, 1, 0, 2, 0, 1, 0, 3, 0, 1, 0, 2, 0, 1, 0]"

definition lowest_bit_bitmap :: "nat list" where
  "lowest_bit_bitmap = concat (map bitmap_row [0, 4, 5, 4, 6, 4, 5, 4, 7, 4, 5, 4, 6, 4, 5, 4])"

definition rt_ffs :: "u32 \<Rightarrow> nat option" where
  "rt_ffs v =
     (if v = 0 then Some 0
      else if v AND 0xFF \<noteq> 0 then map_option (\<lambda>b. b + 1) (rd lowest_bit_bitmap (unat (v AND 0xFF)))
      else if v AND 0xFF00 \<noteq> 0 then map_option (\<lambda>b. b + 9) (rd lowest_bit_bitmap (unat (drop_bit 8 (v AND 0xFF00))))
      else if v AND 0xFF0000 \<noteq> 0
        then map_option (\<lambda>b. b + 17) (rd lowest_bit_bitmap (unat (drop_bit 16 (v AND 0xFF0000))))
      else map_option (\<lambda>b. b + 25) (rd lowest_bit_bitmap (unat (drop_bit 24 (v AND 0xFF000000)))))"

section \<open>Filling and copying: lemmas\<close>


lemma ld32_bytes [simp]:
  "ucast (ld32 m a) = m a" "ucast (drop_bit 8 (ld32 m a)) = m (a + 1)"
  "ucast (drop_bit 16 (ld32 m a)) = m (a + 2)" "ucast (drop_bit 24 (ld32 m a)) = m (a + 3)"
  by (rule bit_word_eqI, auto simp: ld32_def bit_simps dest: bit_imp_le_length)+

lemma copy_bytes_add: "copy_bytes d s (a + b) m = copy_bytes (d + a) (s + a) b (copy_bytes d s a m)"
  by (induction a arbitrary: d s m) simp_all

lemma copy_bytes_4: "copy_bytes d s 4 m = copy_bytes (d + 1 + 1 + 1) (s + 1 + 1 + 1) 1 (copy_bytes (d + 1 + 1) (s + 1 + 1) 1
    (copy_bytes (d + 1) (s + 1) 1 (m(d := m s))))"
  by (simp add: numeral_eq_Suc)

lemma fill_bytes_4: "fill_bytes a d 4 m = m(a := d, a + 1 := d, a + 2 := d, a + 3 := d)"
  by (simp add: numeral_eq_Suc)

lemma cpy32_bytes:
  assumes "d mod 4 = 0" "s mod 4 = 0"
  shows "cpy32 d s m = copy_bytes d s 4 m"
proof -
  have "s + 1 \<noteq> d" "s + 2 \<noteq> d" "s + 3 \<noteq> d" "s + 2 \<noteq> d + 1" "s + 3 \<noteq> d + 1" "s + 3 \<noteq> d + 2"
    using assms by presburger+
  then show ?thesis by (simp add: cpy32_def st32_def copy_bytes_4 numeral_3_eq_3)
qed

lemma copy_words_bytes:
  "d mod 4 = 0 \<Longrightarrow> s mod 4 = 0 \<Longrightarrow> copy_words d s n m = (d', s', k, m') \<Longrightarrow> copy_bytes d' s' k m' = copy_bytes d s n m"
proof (induction d s n m rule: copy_words.induct)
  case (1 d s n m)
  show ?case
  proof (cases "4 \<le> n")
    case True
    have "copy_words (d + 4) (s + 4) (n - 4) (cpy32 d s m) = (d', s', k, m')"
      using "1.prems" True by (simp add: copy_words.simps [of d])
    from "1.IH" [OF True _ _ this] "1.prems" show ?thesis
      using copy_bytes_add [of d s 4 "n - 4" m] True by (simp add: cpy32_bytes mod_add_left_eq)
  qed (use "1.prems" in \<open>simp add: copy_words.simps\<close>)
qed

lemma copy_blocks_bytes:
  "d mod 4 = 0 \<Longrightarrow> s mod 4 = 0 \<Longrightarrow> copy_blocks d s n m = (d', s', k, m') \<Longrightarrow>
   d' mod 4 = 0 \<and> s' mod 4 = 0 \<and> copy_bytes d' s' k m' = copy_bytes d s n m"
proof (induction d s n m rule: copy_blocks.induct)
  case (1 d s n m)
  show ?case
  proof (cases "16 \<le> n")
    case True
    have al: "(d + i) mod 4 = 0" "(s + i) mod 4 = 0" if "i mod 4 = 0" for i using "1.prems"(1,2) that by presburger+
    have "copy_blocks (d + 16) (s + 16) (n - 16)
       (cpy32 (d + 12) (s + 12) (cpy32 (d + 8) (s + 8) (cpy32 (d + 4) (s + 4) (cpy32 d s m)))) = (d', s', k, m')"
      using "1.prems"(3) True by (simp add: copy_blocks.simps [of d])
    from "1.IH" [OF True _ _ this] al have A: "d' mod 4 = 0" "s' mod 4 = 0"
      "copy_bytes d' s' k m' = copy_bytes (d + 16) (s + 16) (n - 16)
       (cpy32 (d + 12) (s + 12) (cpy32 (d + 8) (s + 8) (cpy32 (d + 4) (s + 4) (cpy32 d s m))))" by simp_all
    have "copy_bytes d s (4 + (4 + (4 + (4 + (n - 16))))) m = copy_bytes d' s' k m'"
      unfolding copy_bytes_add A using al "1.prems"(1,2) by (simp add: cpy32_bytes add.assoc)
    with A True show ?thesis by simp
  qed (use "1.prems" in \<open>simp add: copy_blocks.simps\<close>)
qed

lemma memcpy_copy_bytes: "rt_memcpy dst src count m = copy_bytes dst src count m"
proof (cases "16 \<le> count \<and> src mod 4 = 0 \<and> dst mod 4 = 0")
  case True
  obtain d1 s1 n1 m1 where b: "copy_blocks dst src count m = (d1, s1, n1, m1)" by (metis prod_cases4)
  obtain d2 s2 n2 m2 where w: "copy_words d1 s1 n1 m1 = (d2, s2, n2, m2)" by (metis prod_cases4)
  show ?thesis using True b w copy_blocks_bytes [OF _ _ b] copy_words_bytes [OF _ _ w] by (simp add: rt_memcpy_def)
qed (simp only: rt_memcpy_def if_False)

lemma copy_bytes_at:
  "d \<le> s \<or> s + n \<le> d \<Longrightarrow> copy_bytes d s n m x = (if d \<le> x \<and> x < d + n then m (s + (x - d)) else m x)"
proof (induction n arbitrary: d s m)
  case (Suc n)
  have "d + 1 \<le> s + 1 \<or> s + 1 + n \<le> d + 1" using Suc.prems by linarith
  then have IH: "copy_bytes (d + 1) (s + 1) n (m(d := m s)) x =
      (if d + 1 \<le> x \<and> x < d + 1 + n then (m(d := m s)) (s + 1 + (x - (d + 1))) else (m(d := m s)) x)"
    by (rule Suc.IH)
  have "s + 1 + (x - (d + 1)) = s + (x - d) \<and> s + (x - d) \<noteq> d" if "d + 1 \<le> x" "x < d + 1 + n"
    using that Suc.prems by linarith
  then show ?case unfolding copy_bytes.simps IH by auto
qed auto

lemma copy_down_at:
  "s \<le> d \<Longrightarrow> copy_down d s n m x = (if d \<le> x \<and> x < d + n then m (s + (x - d)) else m x)"
proof (induction n arbitrary: m)
  case (Suc n)
  have "x = d + n \<or> x < d \<or> (d \<le> x \<and> x < d + n) \<or> d + n < x" by linarith
  then show ?case using Suc by auto
qed auto

lemma memmove_moves: "rt_memmove dst src n m x = (if dst \<le> x \<and> x < dst + n then m (src + (x - dst)) else m x)"
  unfolding rt_memmove_def by (auto simp: copy_bytes_at copy_down_at)

lemma fill_bytes_at: "fill_bytes a d n m x = (if a \<le> x \<and> x < a + n then d else m x)"
  by (induction n arbitrary: a m) auto

lemma fill_bytes_add: "fill_bytes a d (i + j) m = fill_bytes (a + i) d j (fill_bytes a d i m)"
  by (induction i arbitrary: a m) simp_all

definition rep4 :: "u8 \<Rightarrow> u32" where
  "rep4 d = (let b1 = push_bit 8 (ucast d) OR ucast d in b1 OR push_bit 16 b1)"

lemma st32_rep4: "st32 a (rep4 d) m = fill_bytes a d 4 m"
proof -
  have "ucast (rep4 d) = d" "ucast (drop_bit 8 (rep4 d)) = d" "ucast (drop_bit 16 (rep4 d)) = d" "ucast (drop_bit 24 (rep4 d)) = d"
    by (rule bit_word_eqI, auto simp: rep4_def Let_def bit_simps dest: bit_imp_le_length)+
  then show ?thesis by (simp add: st32_def fill_bytes_4)
qed

lemma fill_words_bytes: "fill_words a (rep4 d) n m = (a', k, m') \<Longrightarrow> fill_bytes a' d k m' = fill_bytes a d n m"
proof (induction a "rep4 d" n m rule: fill_words.induct)
  case (1 a n m)
  show ?case
  proof (cases "4 \<le> n")
    case True
    have "fill_words (a + 4) (rep4 d) (n - 4) (st32 a (rep4 d) m) = (a', k, m')"
      using "1.prems" True by (simp add: fill_words.simps [of a])
    from "1.hyps" [OF True this] show ?thesis
      using fill_bytes_add [of a d 4 "n - 4" m] True by (simp add: st32_rep4)
  qed (use "1.prems" in \<open>simp add: fill_words.simps\<close>)
qed

lemma fill_blocks_bytes: "fill_blocks a (rep4 d) n m = (a', k, m') \<Longrightarrow> fill_bytes a' d k m' = fill_bytes a d n m"
proof (induction a "rep4 d" n m rule: fill_blocks.induct)
  case (1 a n m)
  show ?case
  proof (cases "16 \<le> n")
    case True
    have "fill_blocks (a + 16) (rep4 d) (n - 16) (st32 (a + 12) (rep4 d) (st32 (a + 8) (rep4 d) (st32 (a + 4) (rep4 d) (st32 a (rep4 d) m)))) = (a', k, m')"
      using "1.prems" True by (simp add: fill_blocks.simps [of a])
    from "1.hyps" [OF True this]
    have "fill_bytes a d (4 + (4 + (4 + (4 + (n - 16))))) m = fill_bytes a' d k m'"
      unfolding fill_bytes_add by (simp add: st32_rep4 add.assoc)
    with True show ?thesis by simp
  qed (use "1.prems" in \<open>simp add: fill_blocks.simps\<close>)
qed

lemma ucast_u8_u32 [simp]: "ucast (ucast (d :: u8) :: u32) = d"
  by (rule bit_word_eqI) (auto simp: bit_simps)

lemma and_ff: "(c AND 0xFF :: u32) = ucast (ucast c :: u8)"
proof -
  have m: "(0xFF :: u32) = mask 8" by (simp add: mask_eq_exp_minus_1)
  show ?thesis unfolding m by (rule bit_word_eqI) (auto simp: bit_simps dest: bit_imp_le_length)
qed

lemma memset_fill_bytes: "rt_memset s c n m = fill_bytes s (ucast c) n m"
proof (cases "4 \<le> n \<and> s mod 4 = 0")
  case True
  obtain a1 n1 m1 where b: "fill_blocks s (rep4 (ucast c)) n m = (a1, n1, m1)" by (metis prod_cases3)
  obtain a2 n2 m2 where w: "fill_words a1 (rep4 (ucast c)) n1 m1 = (a2, n2, m2)" by (metis prod_cases3)
  have r: "(push_bit 8 (ucast d :: u32) OR ucast d) OR push_bit 16 (push_bit 8 (ucast d) OR ucast d) = rep4 d" for d
    by (simp only: rep4_def Let_def)
  have "rt_memset s c n m = fill_bytes a2 (ucast c) n2 m2"
    using True by (simp only: rt_memset_def and_ff Let_def r b w prod.case if_True simp_thms ucast_u8_u32)
  also have "\<dots> = fill_bytes s (ucast c) n m" using fill_blocks_bytes [OF b] fill_words_bytes [OF w] by simp
  finally show ?thesis .
next
  case False
  then show ?thesis by (simp only: rt_memset_def and_ff Let_def if_False ucast_u8_u32)
qed

lemma memcpy_at:
  "d \<le> s \<or> s + n \<le> d \<Longrightarrow> rt_memcpy d s n m x = (if d \<le> x \<and> x < d + n then m (s + (x - d)) else m x)"
  by (simp only: memcpy_copy_bytes copy_bytes_at)

section \<open>Strings: lemmas\<close>

definition region :: "mem \<Rightarrow> nat \<Rightarrow> nat \<Rightarrow> u8 list" where
  "region m a n = map (\<lambda>i. m (a + i)) [0..<n]"

lemma region_0 [simp]: "region m a 0 = []"
  by (simp add: region_def)

lemma region_Suc [simp]: "region m a (Suc n) = m a # region m (a + 1) n"
  by (simp add: region_def upt_conv_Cons map_Suc_upt [symmetric] del: upt_Suc)

lemma length_region [simp]: "length (region m a n) = n"
  by (simp add: region_def)

lemma memcmp_equal: "rt_memcmp m a b n = 0 \<longleftrightarrow> region m a n = region m b n"
  by (induction n arbitrary: a b) (auto simp: Let_def intro: word_uint_eqI)

text \<open>cstr m a xs: the string xs stands at address a.\<close>

definition cstr :: "mem \<Rightarrow> nat \<Rightarrow> u8 list \<Rightarrow> bool" where
  "cstr m a xs \<longleftrightarrow> 0 \<notin> set xs \<and> region m a (length xs + 1) = xs @ [0]"

lemma cstr_Nil [simp]: "cstr m a [] \<longleftrightarrow> m a = 0"
  by (simp add: cstr_def)

lemma cstr_Cons [simp]: "cstr m a (x # xs) \<longleftrightarrow> x \<noteq> 0 \<and> m a = x \<and> cstr m (a + 1) xs"
  by (auto simp: cstr_def)

lemma str_end_cstr: "cstr m a xs \<Longrightarrow> str_end m a = Some (a + length xs)"
  by (induction xs arbitrary: a) (simp_all add: str_end.simps)

lemma strlen_cstr: "cstr m a xs \<Longrightarrow> rt_strlen m a = Some (length xs)"
  by (simp add: rt_strlen_def str_end_cstr)

lemma ucast_inj [simp]: "(ucast (a :: u8) :: u32) = ucast b \<longleftrightarrow> a = b"
  by (metis ucast_u8_u32)

lemma ucast_eq_0 [simp]: "(ucast (a :: u8) :: u32) = 0 \<longleftrightarrow> a = 0"
  by (metis ucast_u8_u32 unsigned_0)

lemma strcmp_cstr:
  "cstr m a xs \<Longrightarrow> cstr m b ys \<Longrightarrow> \<exists>r. rt_strcmp m a b = Some r \<and> (r = 0 \<longleftrightarrow> xs = ys)"
proof (induction xs arbitrary: a b ys)
  case Nil
  then show ?case by (cases ys) (auto simp: rt_strcmp.simps [of m a])
next
  case (Cons x xs)
  then show ?case by (cases ys) (auto simp: rt_strcmp.simps [of m a])
qed


lemma strncmp_loop_cstr:
  "cstr m a xs \<Longrightarrow> cstr m b ys \<Longrightarrow> strncmp_loop m a b n 0 = 0 \<longleftrightarrow> take n xs = take n ys"
proof (induction xs arbitrary: a b ys n)
  case Nil
  then show ?case by (cases ys; cases n) (auto simp: Let_def)
next
  case (Cons x xs)
  then show ?case by (cases ys; cases n) (auto simp: Let_def)
qed

lemma strncmp_cstr:
  "cstr m a xs \<Longrightarrow> cstr m b ys \<Longrightarrow> rt_strncmp m a b n = 0 \<longleftrightarrow> take n xs = take n ys"
proof -
  assume "cstr m a xs" "cstr m b ys"
  moreover have "(scast (w :: u8) :: u32) = 0 \<longleftrightarrow> w = 0" for w
  proof -
    have "ucast (scast w :: u32) = w" by (rule bit_word_eqI) (auto simp: bit_simps)
    then show ?thesis by (metis signed_0 unsigned_0)
  qed
  ultimately show ?thesis using strncmp_loop_cstr by (simp add: rt_strncmp_def)
qed

text \<open>occurs xs ys k: the string ys stands in xs from position k on.\<close>

definition occurs :: "u8 list \<Rightarrow> u8 list \<Rightarrow> nat \<Rightarrow> bool" where
  "occurs xs ys k \<longleftrightarrow> take (length ys) (drop k xs) = ys"

lemma occurs_Suc [simp]: "occurs (x # xs) ys (Suc k) = occurs xs ys k"
  by (simp add: occurs_def)

lemma occurs_0: "occurs xs ys 0 \<longleftrightarrow> take (length ys) xs = ys"
  by (simp add: occurs_def)

lemma occurs_short: "length xs < length ys \<Longrightarrow> \<not> occurs xs ys k"
  unfolding occurs_def by (metis length_drop length_take min_less_iff_conj diff_le_self leD min.cobounded2 order.strict_trans2)

definition first_occurrence :: "u8 list \<Rightarrow> u8 list \<Rightarrow> nat option \<Rightarrow> bool" where
  "first_occurrence xs ys r \<longleftrightarrow> (case r of None \<Rightarrow> \<forall>k. \<not> occurs xs ys k
     | Some k \<Rightarrow> occurs xs ys k \<and> (\<forall>j < k. \<not> occurs xs ys j))"

lemma region_take: "cstr m a xs \<Longrightarrow> n \<le> length xs \<Longrightarrow> region m a n = take n xs"
proof (induction xs arbitrary: a n)
  case (Cons x xs)
  then show ?case by (cases n) auto
qed simp

lemma strstr_loop_first:
  "cstr m s1 xs \<Longrightarrow> cstr m s2 ys \<Longrightarrow> ys \<noteq> [] \<Longrightarrow>
   \<exists>r. strstr_loop m s1 s2 (length xs) (length ys) = map_option (\<lambda>k. s1 + k) r \<and> first_occurrence xs ys r"
proof (induction xs arbitrary: s1)
  case Nil
  then have "strstr_loop m s1 s2 (length ([] :: u8 list)) (length ys) = map_option (\<lambda>k. s1 + k) None"
    by (simp add: strstr_loop.simps)
  moreover have "first_occurrence [] ys None" using Nil.prems(3) by (simp add: first_occurrence_def occurs_def)
  ultimately show ?case by blast
next
  case (Cons x xs)
  let ?l = "strstr_loop m s1 s2 (length (x # xs)) (length ys)"
  show ?case
  proof (cases "length ys \<le> length (x # xs)")
    case False
    then have "?l = map_option (\<lambda>k. s1 + k) None" by (simp add: strstr_loop.simps)
    moreover have "first_occurrence (x # xs) ys None" using False by (simp add: first_occurrence_def occurs_short)
    ultimately show ?thesis by blast
  next
    case True
    have "rt_memcmp m s1 s2 (length ys) = 0 \<longleftrightarrow> occurs (x # xs) ys 0"
      unfolding memcmp_equal occurs_0 region_take [OF Cons.prems(1) True] region_take [OF Cons.prems(2) order.refl] by simp
    with True have l: "?l = (if occurs (x # xs) ys 0 then Some s1 else strstr_loop m (s1 + 1) s2 (length xs) (length ys))"
      by (simp add: strstr_loop.simps [of m s1])
    show ?thesis
    proof (cases "occurs (x # xs) ys 0")
      case True
      then have "first_occurrence (x # xs) ys (Some 0)" by (simp add: first_occurrence_def)
      moreover have "?l = map_option (\<lambda>k. s1 + k) (Some 0)" using l True by simp
      ultimately show ?thesis by blast
    next
      case no: False
      have "cstr m (s1 + 1) xs" using Cons.prems(1) by simp
      then obtain r where r: "strstr_loop m (s1 + 1) s2 (length xs) (length ys) = map_option (\<lambda>k. s1 + 1 + k) r"
        "first_occurrence xs ys r" using Cons.IH [OF _ Cons.prems(2,3)] by blast
      have "first_occurrence (x # xs) ys (map_option Suc r)"
        using r(2) no by (auto simp: first_occurrence_def All_less_Suc2 split: option.splits) (metis occurs_Suc not0_implies_Suc)
      moreover have "?l = map_option (\<lambda>k. s1 + k) (map_option Suc r)"
        using l no r(1) by (simp add: option.map_comp comp_def)
      ultimately show ?thesis by blast
    qed
  qed
qed



theorem strstr_cstr:
  assumes "cstr m s1 xs" "cstr m s2 ys"
  shows "\<exists>r. rt_strstr m s1 s2 = Some (map_option (\<lambda>k. s1 + k) r) \<and> first_occurrence xs ys r"
proof (cases "ys = []")
  case True
  then have "first_occurrence xs ys (Some 0)" by (simp add: first_occurrence_def occurs_def)
  moreover have "rt_strstr m s1 s2 = Some (map_option (\<lambda>k. s1 + k) (Some 0))"
    using True strlen_cstr [OF assms(2)] by (simp add: rt_strstr_def)
  ultimately show ?thesis by blast
next
  case False
  have "rt_strstr m s1 s2 = Some (strstr_loop m s1 s2 (length xs) (length ys))"
    using False strlen_cstr [OF assms(1)] strlen_cstr [OF assms(2)] by (simp add: rt_strstr_def)
  with strstr_loop_first [OF assms False] show ?thesis by simp
qed

lemma rt_lower_0 [simp]: "rt_lower 0 = 0" "rt_lower c = 0 \<longleftrightarrow> c = 0"
proof -
  have "c + 32 \<noteq> 0" if "c \<le> 90" for c :: u8
  proof
    assume "c + 32 = 0"
    then have "c = - 32" by (rule eq_neg_iff_add_eq_0 [THEN iffD2])
    with that show False by simp
  qed
  then show "rt_lower 0 = 0" "rt_lower c = 0 \<longleftrightarrow> c = 0" by (auto simp: rt_lower_def)
qed

lemma strcasecmp_cstr:
  "cstr m a xs \<Longrightarrow> cstr m b ys \<Longrightarrow> \<exists>r. rt_strcasecmp m a b = Some r \<and> (r = 0 \<longleftrightarrow> map rt_lower xs = map rt_lower ys)"
proof (induction xs arbitrary: a b ys)
  case Nil
  then show ?case by (cases ys) (auto simp: rt_strcasecmp.simps [of m a] Let_def)
next
  case (Cons x xs)
  then show ?case by (cases ys) (auto simp: rt_strcasecmp.simps [of m a] Let_def)
qed

text \<open>strncpy fills exactly n bytes: the string, then zeros; without a terminator if it is too long.\<close>

lemma strncpy_at:
  "d + n \<le> s \<or> s + length xs < d \<Longrightarrow> cstr m s xs \<Longrightarrow>
   rt_strncpy d s n m x = (if d \<le> x \<and> x < d + n then (if x - d < length xs then xs ! (x - d) else 0) else m x)"
proof (induction n arbitrary: d s xs m)
  case (Suc n)
  show ?case
  proof (cases xs)
    case Nil
    with Suc.prems show ?thesis by (auto simp: fill_bytes_at)
  next
    case (Cons c cs)
    have keep: "cstr (m(d := v)) (s + 1) cs" for v
    proof -
      have "region (m(d := v)) (s + 1) (length cs + 1) = region m (s + 1) (length cs + 1)"
        using Suc.prems(1) Cons by (auto simp: region_def)
      then show ?thesis using Suc.prems(2) Cons by (simp add: cstr_def)
    qed
    have "d + 1 + n \<le> s + 1 \<or> s + 1 + length cs < d + 1" using Suc.prems(1) Cons by auto
    from Suc.IH [OF this keep]
    have IH: "rt_strncpy (d + 1) (s + 1) n (m(d := c)) x = (if d + 1 \<le> x \<and> x < d + 1 + n
        then (if x - (d + 1) < length cs then cs ! (x - (d + 1)) else 0) else (m(d := c)) x)" .
    have "rt_strncpy d s (Suc n) m x = rt_strncpy (d + 1) (s + 1) n (m(d := c)) x"
      using Suc.prems(2) Cons by auto
    also have "\<dots> = (if d \<le> x \<and> x < d + Suc n then (if x - d < length xs then xs ! (x - d) else 0) else m x)"
      unfolding IH Cons by (auto simp: nth_Cons' Suc_diff_le)
    finally show ?thesis .
  qed
qed auto

section \<open>The lowest set bit: lemmas\<close>

definition low_ok :: "nat \<Rightarrow> bool" where
  "low_ok i \<longleftrightarrow> (let b = lowest_bit_bitmap ! i; w = word_of_nat i :: u8 in bit w b \<and> take_bit b w = 0)"

lemma bitmap_length [simp]: "length lowest_bit_bitmap = 256"
  by (simp add: lowest_bit_bitmap_def bitmap_row_def)

lemma bitmap_ok: "list_all low_ok [1..<256]"
  by code_simp


abbreviation byte_of :: "u32 \<Rightarrow> nat \<Rightarrow> u8" where
  "byte_of v k \<equiv> ucast (drop_bit k v)"

lemma byte_mask:
  fixes v :: u32
  assumes "k \<le> 24"
  shows "v AND push_bit k (mask 8) = 0 \<longleftrightarrow> byte_of v k = 0" "unat (drop_bit k (v AND push_bit k (mask 8))) = unat (byte_of v k)"
proof -
  have e: "drop_bit k (v AND push_bit k (mask 8)) = ucast (byte_of v k)"
    by (rule bit_word_eqI) (use assms in \<open>auto simp: bit_simps dest: bit_imp_le_length\<close>)
  then show "unat (drop_bit k (v AND push_bit k (mask 8))) = unat (byte_of v k)" by simp
  have "v AND push_bit k (mask 8) = push_bit k (ucast (byte_of v k))"
    by (rule bit_word_eqI) (use assms in \<open>auto simp: bit_simps dest: bit_imp_le_length\<close>)
  then show "v AND push_bit k (mask 8) = 0 \<longleftrightarrow> byte_of v k = 0" by (metis e drop_bit_of_0 push_bit_of_0 ucast_u8_u32 unsigned_0)
qed

definition lowest_bit :: "u32 \<Rightarrow> nat \<Rightarrow> bool" where
  "lowest_bit v b \<longleftrightarrow> bit v b \<and> (\<forall>j < b. \<not> bit v j)"

lemma byte_lowest:
  assumes "byte_of v k \<noteq> 0" "k \<le> 24" "\<And>j. j < k \<Longrightarrow> \<not> bit v j"
  shows "\<exists>b. rd lowest_bit_bitmap (unat (byte_of v k)) = Some b \<and> lowest_bit v (b + k)"
proof -
  let ?w = "byte_of v k" let ?b = "lowest_bit_bitmap ! unat (byte_of v k)"
  have "unat ?w \<in> set [1..<256]" using assms(1) unat_u8_less [of ?w] by (simp add: unat_gt_0 Suc_leI del: unat_u8_less)
  then have "low_ok (unat ?w)" using bitmap_ok by (simp only: list_all_iff)
  then have b: "bit ?w ?b" "take_bit ?b ?w = 0" by (simp_all add: low_ok_def Let_def)
  have "\<not> bit v j" if "j < ?b + k" for j
  proof (cases "j < k")
    case False
    then have "\<not> bit ?w (j - k)" using b(2) that by (metis bit_0_eq bit_take_bit_iff bot_apply bot_bool_def less_diff_conv2 not_less)
    moreover have "j - k < 8" using that b(1) False by (auto dest!: bit_imp_le_length)
    ultimately show ?thesis using False by (simp add: bit_simps)
  qed (use assms(3) in simp)
  moreover have "bit v (?b + k)" using b(1) by (simp add: bit_simps add.commute)
  ultimately show ?thesis by (simp add: lowest_bit_def)
qed

lemma bits_below: "\<lbrakk>byte_of v k = 0; \<And>j. j < k \<Longrightarrow> \<not> bit v j; j < k + 8\<rbrakk> \<Longrightarrow> \<not> bit v j"
proof (cases "j < k")
  case False
  assume "byte_of v k = 0" "j < k + 8"
  then have "\<not> bit (byte_of v k) (j - k)" by simp
  with False \<open>j < k + 8\<close> show ?thesis by (simp add: bit_simps)
qed simp

lemma rt_ffs_lowest:
  "rt_ffs 0 = Some 0" "v \<noteq> 0 \<Longrightarrow> \<exists>b. rt_ffs v = Some (b + 1) \<and> lowest_bit v b"
proof -
  show "rt_ffs 0 = Some 0" by (simp add: rt_ffs_def)
  assume v: "v \<noteq> 0"
  have m: "(0xFF :: u32) = push_bit 0 (mask 8)" "(0xFF00 :: u32) = push_bit 8 (mask 8)"
    "(0xFF0000 :: u32) = push_bit 16 (mask 8)" "(0xFF000000 :: u32) = push_bit 24 (mask 8)"
    by (simp_all add: mask_eq_exp_minus_1)
  have f: "rt_ffs v = (if byte_of v 0 \<noteq> 0 then map_option (\<lambda>b. b + 1) (rd lowest_bit_bitmap (unat (byte_of v 0)))
      else if byte_of v 8 \<noteq> 0 then map_option (\<lambda>b. b + 9) (rd lowest_bit_bitmap (unat (byte_of v 8)))
      else if byte_of v 16 \<noteq> 0 then map_option (\<lambda>b. b + 17) (rd lowest_bit_bitmap (unat (byte_of v 16)))
      else map_option (\<lambda>b. b + 25) (rd lowest_bit_bitmap (unat (byte_of v 24))))"
    unfolding rt_ffs_def m using v byte_mask [where v = v and k = 0] byte_mask [where v = v and k = 8] byte_mask [where v = v and k = 16] byte_mask [where v = v and k = 24] by simp
  have step: "\<exists>b. map_option (\<lambda>b. b + (k + 1)) (rd lowest_bit_bitmap (unat (byte_of v k))) = Some (b + 1) \<and> lowest_bit v b"
    if k: "byte_of v k \<noteq> 0" "k \<le> 24" "\<And>j. j < k \<Longrightarrow> \<not> bit v j" for k
  proof -
    obtain b where "rd lowest_bit_bitmap (unat (byte_of v k)) = Some b" "lowest_bit v (b + k)"
      using byte_lowest [OF k] by blast
    then show ?thesis by (intro exI [of _ "b + k"]) simp
  qed
  show "\<exists>b. rt_ffs v = Some (b + 1) \<and> lowest_bit v b"
  proof (cases "byte_of v 0 = 0")
    case False
    then show ?thesis using f step [of 0] by simp
  next
    case z0: True
    then have l0: "\<not> bit v j" if "j < 8" for j using bits_below [where v = v and k = 0 and j = j] that by simp
    show ?thesis
    proof (cases "byte_of v 8 = 0")
      case False
      then show ?thesis using f step [of 8] l0 z0 by simp
    next
      case z8: True
      then have l8: "\<not> bit v j" if "j < 16" for j using bits_below [where v = v and k = 8 and j = j] l0 that by simp
      show ?thesis
      proof (cases "byte_of v 16 = 0")
        case False
        then show ?thesis using f step [of 16] l8 z0 z8 by simp
      next
        case z16: True
        then have l16: "\<not> bit v j" if "j < 24" for j using bits_below [where v = v and k = 16 and j = j] l8 that by simp
        have "byte_of v 24 \<noteq> 0"
        proof
          assume "byte_of v 24 = 0"
          then have "\<not> bit v j" if "j < 32" for j using bits_below [where v = v and k = 24 and j = j] l16 that by simp
          then have "v = 0" by (intro bit_word_eqI) simp
          with v show False ..
        qed
        then show ?thesis using f step [of 24] l16 z0 z8 z16 by simp
      qed
    qed
  qed
qed

section \<open>Properties\<close>

text \<open>
  Property C28 (mem_functions_spec): The optimised memory functions compute what the plain loops compute.
  rt_memcpy and rt_memset, which move four words, one word and then one byte at a time where the
  addresses are aligned, end in the memory that the bytewise loops end in, for all addresses and lengths,
  overlapping ones included. rt_memmove leaves at the destination the bytes the source had before, and nothing
  else changes, however the two regions overlap.
\<close>

theorem mem_functions_spec:
  "rt_memcpy dst src count m = copy_bytes dst src count m
   \<and> rt_memset dst c count m = fill_bytes dst (ucast c) count m
   \<and> rt_memmove dst src count m x = (if dst \<le> x \<and> x < dst + count then m (src + (x - dst)) else m x)"
  by (simp only: memcpy_copy_bytes memset_fill_bytes memmove_moves simp_thms)

end
