(* ===== verification/Rt_Heap.thy ===== *)
theory Rt_Heap
  imports Rt_Lib
begin

text \<open>
  The heap of the kernel: src/src/mem.c, with RT_ALIGN_SIZE 8 and the statistics switched on, as in
  include/rtconfig.h.

  A struct heap_mem is 12 bytes long and takes 16 (SIZEOF_STRUCT_MEM). The headers are kept in a map
  from offsets (counted from heap_ptr) to their fields: None is a place where no header has been
  written, so that a theorem that says Some also says that the code reads headers only where there
  are some. The pointers lfree and heap_end are kept as offsets too; rt_malloc returns addresses. The
  bytes that clients own are the memory of Rt_Lib. Sizes are nat; where rt_size_t can wrap,
  add32 and sub32 write it out. Every critical section of the heap's semaphore is one function; the
  hooks and the debug output are left out.
\<close>

definition add32 :: "nat \<Rightarrow> nat \<Rightarrow> nat" where
  "add32 a b = (a + b) mod 4294967296"

definition sub32 :: "nat \<Rightarrow> nat \<Rightarrow> nat" where
  "sub32 a b = (a + 4294967296 - b) mod 4294967296"

text \<open>RT_ALIGN and RT_ALIGN_DOWN for the size 8: adding 7 may wrap.\<close>

definition RT_ALIGN :: "nat \<Rightarrow> nat" where
  "RT_ALIGN n = add32 n 7 div 8 * 8"

definition RT_ALIGN_DOWN :: "nat \<Rightarrow> nat" where
  "RT_ALIGN_DOWN n = n div 8 * 8"

abbreviation HEAP_MAGIC :: u16 where "HEAP_MAGIC \<equiv> 0x1ea0"
abbreviation HDR :: nat where "HDR \<equiv> 16"  \<comment> \<open>SIZEOF_STRUCT_MEM\<close>
abbreviation MIN_SIZE :: nat where "MIN_SIZE \<equiv> 12"
abbreviation MIN_SIZE_ALIGNED :: nat where "MIN_SIZE_ALIGNED \<equiv> 16"

record heap_mem =
  hm_magic :: u16
  hm_used :: u16
  hm_next :: nat
  hm_prev :: nat

record heap =
  heap_ptr :: nat
  heap_end :: nat
  lfree :: nat
  mem_size :: nat
  used_mem :: nat
  max_mem :: nat
  hdr :: "nat \<Rightarrow> heap_mem option"
  cells :: mem

text \<open>An update of the header at an offset.\<close>

definition hm_upd :: "nat \<Rightarrow> (heap_mem \<Rightarrow> heap_mem) \<Rightarrow> heap \<Rightarrow> heap option" where
  "hm_upd o1 f s = map_option (\<lambda>h. s\<lparr>hdr := (hdr s)(o1 \<mapsto> f h)\<rparr>) (hdr s o1)"

text \<open>
  A new header: used, next and prev are written, the magic is what the place held (0 stands for it
  where no header has been).
\<close>

definition hm_new :: "nat \<Rightarrow> u16 \<Rightarrow> nat \<Rightarrow> nat \<Rightarrow> heap \<Rightarrow> heap" where
  "hm_new o1 u n p s = s\<lparr>hdr := (hdr s)(o1 \<mapsto>
     \<lparr>hm_magic = (case hdr s o1 of None \<Rightarrow> 0 | Some h \<Rightarrow> hm_magic h), hm_used = u, hm_next = n, hm_prev = p\<rparr>)\<rparr>"

text \<open>
  plug_holes merges the free block at offset m with its free neighbours. merge_blocks is the body of
  both merges: the block n behind a becomes part of a.
\<close>

definition merge_blocks :: "nat \<Rightarrow> nat \<Rightarrow> nat \<Rightarrow> heap \<Rightarrow> heap option" where
  "merge_blocks a n next s = do {
     let s1 = (if lfree s = n then s\<lparr>lfree := a\<rparr> else s);
     s2 \<leftarrow> hm_upd a (\<lambda>g. g\<lparr>hm_next := next\<rparr>) s1;
     hm_upd next (\<lambda>g. g\<lparr>hm_prev := a\<rparr>) s2 }"

definition plug_forward :: "nat \<Rightarrow> heap \<Rightarrow> heap option" where
  "plug_forward m s = do {
     h \<leftarrow> hdr s m;
     let n = hm_next h;
     (if m = n then Some s else do {
       nh \<leftarrow> hdr s n;
       (if hm_used nh = 0 \<and> n \<noteq> heap_end s then merge_blocks m n (hm_next nh) s else Some s) }) }"

definition plug_backward :: "nat \<Rightarrow> heap \<Rightarrow> heap option" where
  "plug_backward m s = do {
     h \<leftarrow> hdr s m;
     let p = hm_prev h;
     (if p = m then Some s else do {
       ph \<leftarrow> hdr s p;
       (if hm_used ph = 0 then merge_blocks p m (hm_next h) s else Some s) }) }"

definition plug_holes :: "nat \<Rightarrow> heap \<Rightarrow> heap option" where
  "plug_holes m s = do {
     h \<leftarrow> hdr s m;
     (if m < heap_end s \<and> hm_used h = 0 then do { s1 \<leftarrow> plug_forward m s; plug_backward m s1 } else None) }"

text \<open>Where the two addresses leave no room the code prints an error and leaves the heap as it is.\<close>

definition rt_system_heap_init :: "nat \<Rightarrow> nat \<Rightarrow> heap \<Rightarrow> heap" where
  "rt_system_heap_init begin_addr end_addr s0 =
     (let b = RT_ALIGN begin_addr; e = RT_ALIGN_DOWN end_addr in
      if 2 * HDR < e \<and> b \<le> sub32 e (2 * HDR) then
        (let sz = sub32 (sub32 e b) (2 * HDR); n = add32 sz HDR in
         (s0\<lparr>heap_ptr := b, mem_size := sz, heap_end := n, lfree := 0,
           hdr := [0 \<mapsto> \<lparr>hm_magic = HEAP_MAGIC, hm_used = 0, hm_next = n, hm_prev = 0\<rparr>,
                   n \<mapsto> \<lparr>hm_magic = HEAP_MAGIC, hm_used = 1, hm_next = n, hm_prev = n\<rparr>]\<rparr>))
      else s0)"

text \<open>The search loop of rt_malloc: the offset of the block, or None when the loop ends without one.\<close>

definition hm_fits :: "nat \<Rightarrow> nat \<Rightarrow> heap_mem \<Rightarrow> bool" where
  "hm_fits sz p h \<longleftrightarrow> hm_used h = 0 \<and> sz \<le> sub32 (hm_next h) (add32 p HDR)"

partial_function (option) malloc_find :: "heap \<Rightarrow> nat \<Rightarrow> nat \<Rightarrow> nat option option" where
  "malloc_find s sz p =
     (if p < sub32 (mem_size s) sz then
        Option.bind (hdr s p) (\<lambda>h. if hm_fits sz p h then Some (Some p) else malloc_find s sz (hm_next h))
      else Some None)"

definition malloc_stats :: "nat \<Rightarrow> heap \<Rightarrow> heap" where
  "malloc_stats n s = (let u = add32 (used_mem s) n in
     s\<lparr>used_mem := u, max_mem := (if max_mem s < u then u else max_mem s)\<rparr>)"

text \<open>Taking the block at offset p: splitting it where the rest can hold a block of its own.\<close>

definition malloc_take :: "nat \<Rightarrow> nat \<Rightarrow> heap \<Rightarrow> heap option" where
  "malloc_take sz p s = do {
     h \<leftarrow> hdr s p;
     s1 \<leftarrow> (if add32 (add32 sz HDR) MIN_SIZE_ALIGNED \<le> sub32 (hm_next h) (add32 p HDR) then do {
         let p2 = add32 (add32 p HDR) sz;
         let s1 = hm_new p2 0 (hm_next h) p s;
         s2 \<leftarrow> hm_upd p (\<lambda>h. h\<lparr>hm_next := p2, hm_used := 1\<rparr>) s1;
         s3 \<leftarrow> (if hm_next h \<noteq> add32 (mem_size s) HDR then hm_upd (hm_next h) (\<lambda>h. h\<lparr>hm_prev := p2\<rparr>) s2 else Some s2);
         Some (malloc_stats (add32 sz HDR) s3) }
       else do {
         s1 \<leftarrow> hm_upd p (\<lambda>h. h\<lparr>hm_used := 1\<rparr>) s;
         Some (malloc_stats (sub32 (hm_next h) p) s1) });
     hm_upd p (\<lambda>h. h\<lparr>hm_magic := HEAP_MAGIC\<rparr>) s1 }"

text \<open>The loop that moves lfree to the next free block.\<close>

partial_function (option) lfree_scan :: "heap \<Rightarrow> heap option" where
  "lfree_scan s = Option.bind (hdr s (lfree s)) (\<lambda>h.
     if hm_used h \<noteq> 0 \<and> lfree s \<noteq> heap_end s then lfree_scan (s\<lparr>lfree := hm_next h\<rparr>) else Some s)"

text \<open>rt_malloc returns an address, 0 being RT_NULL. A failed RT_ASSERT is None.\<close>

definition rt_malloc :: "nat \<Rightarrow> heap \<Rightarrow> (nat \<times> heap) option" where
  "rt_malloc size0 s =
     (if size0 = 0 then Some (0, s)
      else let size1 = RT_ALIGN size0 in
      if mem_size s < size1 then Some (0, s)
      else let sz = (if size1 < MIN_SIZE_ALIGNED then MIN_SIZE_ALIGNED else size1) in do {
        r \<leftarrow> malloc_find s sz (lfree s);
        (case r of
           None \<Rightarrow> Some (0, s)
         | Some p \<Rightarrow> do {
             s1 \<leftarrow> malloc_take sz p s;
             s2 \<leftarrow> (if p = lfree s1 then do {
                 s2 \<leftarrow> lfree_scan s1;
                 h \<leftarrow> hdr s2 (lfree s2);
                 (if lfree s2 = heap_end s2 \<or> hm_used h = 0 then Some s2 else None) }
               else Some s1);
             let a = heap_ptr s2 + p;
             (if a + HDR + sz \<le> heap_ptr s2 + heap_end s2 \<and> (a + HDR) mod 8 = 0 \<and> a mod 8 = 0
              then Some (a + HDR, s2) else None) }) })"

text \<open>The header of the block a client names by its address.\<close>

definition mem_off :: "heap \<Rightarrow> nat \<Rightarrow> nat option" where
  "mem_off s rmem = (if heap_ptr s + HDR \<le> rmem then Some (rmem - HDR - heap_ptr s) else None)"

definition rt_free :: "nat \<Rightarrow> heap \<Rightarrow> heap option" where
  "rt_free rmem s =
     (if rmem = 0 then Some s
      else if \<not> (rmem mod 8 = 0 \<and> heap_ptr s \<le> rmem \<and> rmem < heap_ptr s + heap_end s) then None
      else do {
        m \<leftarrow> mem_off s rmem;
        h \<leftarrow> hdr s m;
        (if hm_used h \<noteq> 0 \<and> hm_magic h = HEAP_MAGIC then do {
           s1 \<leftarrow> hm_upd m (\<lambda>h. h\<lparr>hm_used := 0, hm_magic := 0\<rparr>) s;
           let s2 = (if m < lfree s1 then s1\<lparr>lfree := m\<rparr> else s1);
           let s3 = s2\<lparr>used_mem := sub32 (used_mem s2) (sub32 (hm_next h) m)\<rparr>;
           plug_holes m s3 }
         else None) })"

text \<open>The split of rt_realloc that gives the end of the block back.\<close>

definition realloc_split :: "nat \<Rightarrow> nat \<Rightarrow> nat \<Rightarrow> heap \<Rightarrow> heap option" where
  "realloc_split newsize sz p s = do {
     let s0 = s\<lparr>used_mem := sub32 (used_mem s) (sub32 sz newsize)\<rparr>;
     let p2 = add32 (add32 p HDR) newsize;
     h \<leftarrow> hdr s0 p;
     let s1 = s0\<lparr>hdr := (hdr s0)(p2 \<mapsto> \<lparr>hm_magic = HEAP_MAGIC, hm_used = 0, hm_next = hm_next h, hm_prev = p\<rparr>)\<rparr>;
     s2 \<leftarrow> hm_upd p (\<lambda>h. h\<lparr>hm_next := p2\<rparr>) s1;
     s3 \<leftarrow> (if hm_next h \<noteq> add32 (mem_size s) HDR then hm_upd (hm_next h) (\<lambda>h. h\<lparr>hm_prev := p2\<rparr>) s2 else Some s2);
     plug_holes p2 s3 }"

definition rt_realloc :: "nat \<Rightarrow> nat \<Rightarrow> heap \<Rightarrow> (nat \<times> heap) option" where
  "rt_realloc rmem newsize0 s = (let newsize = RT_ALIGN newsize0 in
     if mem_size s < newsize then Some (0, s)
     else if rmem = 0 then rt_malloc newsize s
     else if rmem < heap_ptr s \<or> heap_ptr s + heap_end s \<le> rmem then Some (rmem, s)
     else do {
       p \<leftarrow> mem_off s rmem;
       h \<leftarrow> hdr s p;
       let sz = sub32 (sub32 (hm_next h) p) HDR;
       (if sz = newsize then Some (rmem, s)
        else if add32 (add32 newsize HDR) MIN_SIZE < sz then do {
          s1 \<leftarrow> realloc_split newsize sz p s; Some (rmem, s1) }
        else do {
          (nmem, s1) \<leftarrow> rt_malloc newsize s;
          (if nmem \<noteq> 0 then do {
             let s2 = s1\<lparr>cells := rt_memcpy nmem rmem (if sz < newsize then sz else newsize) (cells s1)\<rparr>;
             s3 \<leftarrow> rt_free rmem s2;
             Some (nmem, s3) }
           else Some (nmem, s1)) }) })"

definition rt_calloc :: "nat \<Rightarrow> nat \<Rightarrow> heap \<Rightarrow> (nat \<times> heap) option" where
  "rt_calloc count sz s = (let n = (count * sz) mod 4294967296 in do {
     (p, s1) \<leftarrow> rt_malloc n s;
     Some (p, if p \<noteq> 0 then s1\<lparr>cells := rt_memset p 0 n (cells s1)\<rparr> else s1) })"

definition rt_memory_info :: "heap \<Rightarrow> nat \<times> nat \<times> nat" where
  "rt_memory_info s = (mem_size s, used_mem s, max_mem s)"

section \<open>The chain of blocks\<close>

text \<open>
  B is the set of the offsets of the blocks, e the offset of the end marker among them. Each block
  but the last links to the next one in B, which links back; used blocks carry the magic number.
\<close>

definition blink :: "nat set \<Rightarrow> nat \<Rightarrow> (nat \<Rightarrow> heap_mem option) \<Rightarrow> nat \<Rightarrow> heap_mem \<Rightarrow> bool" where
  "blink B e H b h \<longleftrightarrow> H b = Some h \<and> hm_next h \<in> B \<and> b + 16 \<le> hm_next h
     \<and> (\<forall>c\<in>B. c \<le> b \<or> hm_next h \<le> c) \<and> (hm_used h \<noteq> 0 \<longrightarrow> hm_magic h = HEAP_MAGIC)
     \<and> (hm_next h < e \<longrightarrow> (\<exists>g. H (hm_next h) = Some g \<and> hm_prev g = b))
     \<and> (hm_next h = e \<longrightarrow> b + 32 \<le> e)"

definition chain :: "nat set \<Rightarrow> nat \<Rightarrow> (nat \<Rightarrow> heap_mem option) \<Rightarrow> bool" where
  "chain B e H \<longleftrightarrow> finite B \<and> 0 \<in> B \<and> e \<in> B \<and> 16 \<le> e \<and> (\<forall>b\<in>B. b \<le> e \<and> 8 dvd b)
     \<and> (\<exists>h. H e = Some h \<and> hm_used h \<noteq> 0) \<and> (\<exists>h. H 0 = Some h \<and> hm_prev h = 0)
     \<and> (\<forall>b\<in>B. b < e \<longrightarrow> (\<exists>h. blink B e H b h))"

definition is_free :: "(nat \<Rightarrow> heap_mem option) \<Rightarrow> nat \<Rightarrow> bool" where
  "is_free H b \<longleftrightarrow> (\<exists>h. H b = Some h \<and> hm_used h = 0)"

definition nxt :: "(nat \<Rightarrow> heap_mem option) \<Rightarrow> nat \<Rightarrow> nat" where
  "nxt H b = (case H b of None \<Rightarrow> 0 | Some h \<Rightarrow> hm_next h)"

text \<open>No two free blocks in a row, but for those next to a block in X.\<close>

definition coalesced :: "nat set \<Rightarrow> nat \<Rightarrow> (nat \<Rightarrow> heap_mem option) \<Rightarrow> nat set \<Rightarrow> bool" where
  "coalesced B e H X \<longleftrightarrow> (\<forall>b\<in>B. b < e \<longrightarrow> is_free H b \<longrightarrow> is_free H (nxt H b) \<longrightarrow> b \<in> X \<or> nxt H b \<in> X)"

definition live :: "nat set \<Rightarrow> nat \<Rightarrow> (nat \<Rightarrow> heap_mem option) \<Rightarrow> (nat \<times> nat) set" where
  "live B e H = {(b, n). b \<in> B \<and> b < e \<and> \<not> is_free H b \<and> n = nxt H b}"

lemma chainD:
  assumes "chain B e H" "b \<in> B" "b < e"
  obtains h where "H b = Some h" "blink B e H b h"
  using assms unfolding chain_def blink_def by blast

lemma chain_hdr:
  assumes "chain B e H" "b \<in> B"
  obtains h where "H b = Some h"
proof (cases "b = e")
  case False
  then have "b < e" using assms by (metis chain_def le_neq_implies_less)
  then show ?thesis using that chainD [OF assms] by blast
qed (use assms that in \<open>auto simp: chain_def\<close>)

lemma chain_next:
  assumes "chain B e H" "b \<in> B" "b < e"
  shows "nxt H b \<in> B" "b + 16 \<le> nxt H b" "nxt H b \<le> e" "\<And>c. c \<in> B \<Longrightarrow> b < c \<Longrightarrow> nxt H b \<le> c"
proof -
  obtain h where h: "H b = Some h" "blink B e H b h" using chainD [OF assms] .
  then have "nxt H b = hm_next h" by (simp add: nxt_def)
  with h show "nxt H b \<in> B" "b + 16 \<le> nxt H b" "\<And>c. c \<in> B \<Longrightarrow> b < c \<Longrightarrow> nxt H b \<le> c"
    by (auto simp: blink_def dest: leD)
  then show "nxt H b \<le> e" using assms(1) by (simp add: chain_def)
qed

lemma chain_last:
  assumes "chain B e H" "b \<in> B" "b < e"
  shows "b + 16 < e"
proof -
  obtain h where h: "H b = Some h" "blink B e H b h" using chainD [OF assms] .
  moreover have "hm_next h \<le> e" using h(2) assms(1) by (auto simp: blink_def chain_def)
  ultimately show ?thesis by (cases "hm_next h = e") (auto simp: blink_def)
qed

lemma chain_pred:
  assumes "chain B e H" "m \<in> B" "0 < m"
  obtains p where "p \<in> B" "p < m" "nxt H p = m"
proof -
  let ?S = "{c \<in> B. c < m}" let ?p = "Max ?S"
  have f: "finite ?S" "?S \<noteq> {}" using assms by (auto simp: chain_def)
  then have p: "?p \<in> B" "?p < m" using Max_in [OF f] by auto
  have "?p < e" using p(2) assms(1,2) by (auto simp: chain_def)
  note n = chain_next [OF assms(1) p(1) this]
  have "nxt H ?p \<le> m" using n(4) assms(2) p(2) by blast
  moreover have "\<not> nxt H ?p < m" using n(1,2) Max_ge [OF f(1), of "nxt H ?p"] by fastforce
  ultimately show ?thesis using that p by simp
qed

lemma chain_prev:
  assumes "chain B e H" "m \<in> B" "m < e" "H m = Some h"
  shows "hm_prev h = m \<and> m = 0 \<or> hm_prev h \<in> B \<and> hm_prev h < m \<and> nxt H (hm_prev h) = m"
proof (cases "m = 0")
  case False
  then obtain p where p: "p \<in> B" "p < m" "nxt H p = m" using chain_pred [OF assms(1,2)] by blast
  then have "p < e" using assms(3) by simp
  obtain g where g: "H p = Some g" "blink B e H p g" using chainD [OF assms(1) p(1) \<open>p < e\<close>] .
  then have "hm_prev h = p" using p(3) assms(3,4) by (auto simp: blink_def nxt_def)
  with p show ?thesis by simp
qed (use assms in \<open>auto simp: chain_def\<close>)

lemma end_not_free: "chain B e H \<Longrightarrow> \<not> is_free H e"
  by (auto simp: chain_def is_free_def)

text \<open>Merging the free block n behind a into a.\<close>

definition merged :: "nat \<Rightarrow> nat \<Rightarrow> (nat \<Rightarrow> heap_mem option) \<Rightarrow> nat \<Rightarrow> heap_mem option" where
  "merged a k H = (let H1 = H(a := map_option (\<lambda>g. g\<lparr>hm_next := k\<rparr>) (H a))
     in H1(k := map_option (\<lambda>g. g\<lparr>hm_prev := a\<rparr>) (H1 k)))"

lemma merged_free [simp]: "is_free (merged a k H) b = is_free H b"
  by (auto simp: is_free_def merged_def Let_def)

lemma merged_next: "H a \<noteq> None \<Longrightarrow> nxt (merged a k H) b = (if b = a then k else nxt H b)"
  by (auto simp: nxt_def merged_def Let_def split: option.splits)

lemma chain_merge:
  assumes c: "chain B e H" and a: "a \<in> B" "a < e" and n: "n = nxt H a" "n < e" and k: "k = nxt H n"
    and fr: "is_free H a"
  shows "chain (B - {n}) e (merged a k H)"
proof -
  have nB: "n \<in> B" "a + 16 \<le> n" using chain_next [OF c a] n by auto
  have kB: "k \<in> B" "n + 16 \<le> k" "k \<le> e" using chain_next [OF c nB(1) n(2)] k by auto
  obtain ha where ha: "H a = Some ha" "blink B e H a ha" using chainD [OF c a] .
  obtain hn where hn: "H n = Some hn" "blink B e H n hn" using chainD [OF c nB(1) n(2)] .
  have na: "hm_next ha = n" "hm_next hn = k" using ha hn n k by (auto simp: nxt_def)
  have gap: "x \<le> a \<or> k \<le> x" if "x \<in> B - {n}" for x
    using that chain_next(4) [OF c a, of x] chain_next(4) [OF c nB(1) n(2), of x] n(1) k by fastforce
  have "\<exists>h. blink (B - {n}) e (merged a k H) b h" if b: "b \<in> B - {n}" "b < e" for b
  proof -
    obtain hb where hb: "H b = Some hb" "blink B e H b hb" using chainD [OF c] b by blast
    have nb: "hm_next hb = n \<Longrightarrow> b = a" 
      using ha hb na n(2) by (auto simp: blink_def)
    have kb: "hm_next hb = k \<Longrightarrow> k < e \<Longrightarrow> b = n"
      using hn hb na by (auto simp: blink_def)
    show ?thesis
    proof (cases "b = a")
      case True
      then show ?thesis using ha hn nB kB na b gap
        by (intro exI [of _ "ha\<lparr>hm_next := k\<rparr>"]) (auto simp: blink_def merged_def Let_def)
    next
      case False
      then show ?thesis using hb nb kb b nB kB
        by (intro exI [of _ "if b = k then hb\<lparr>hm_prev := a\<rparr> else hb"]) (auto simp: blink_def merged_def Let_def)
    qed
  qed
  moreover have "\<exists>h. merged a k H e = Some h \<and> hm_used h \<noteq> 0"
    using c a by (auto simp: chain_def merged_def Let_def)
  moreover have "\<exists>h. merged a k H 0 = Some h \<and> hm_prev h = 0"
    using c a kB by (auto simp: chain_def merged_def Let_def)
  ultimately show ?thesis using c nB n(2) by (auto simp: chain_def)
qed


text \<open>Cutting the block at p in two, the second one, free, at p2.\<close>

definition split_at :: "nat \<Rightarrow> heap_mem \<Rightarrow> nat \<Rightarrow> heap_mem \<Rightarrow> nat \<Rightarrow> (nat \<Rightarrow> heap_mem option) \<Rightarrow> nat \<Rightarrow> heap_mem option" where
  "split_at p h' p2 h2 e H = (let H1 = H(p2 \<mapsto> h2, p \<mapsto> h'); k = hm_next h2
     in if k = e then H1 else H1(k := map_option (\<lambda>g. g\<lparr>hm_prev := p2\<rparr>) (H1 k)))"

lemma chain_split:
  assumes c: "chain B e H" and p: "p \<in> B" "p < e" "H p = Some h"
    and p2: "p + 16 \<le> p2" "p2 + 32 \<le> hm_next h" "8 dvd p2"
    and h': "hm_next h' = p2" "hm_prev h' = hm_prev h" "hm_used h' \<noteq> 0 \<longrightarrow> hm_magic h' = HEAP_MAGIC"
    and h2: "hm_used h2 = 0" "hm_next h2 = hm_next h" "hm_prev h2 = p"
  shows "chain (insert p2 B) e (split_at p h' p2 h2 e H)"
proof -
  let ?H = "split_at p h' p2 h2 e H" let ?k = "hm_next h"
  have hp: "blink B e H p h" using chainD [OF c p(1,2)] p(3) by auto
  then have k: "?k \<in> B" "?k \<le> e" "p < ?k" using c p2 by (auto simp: blink_def chain_def)
  have new: "p2 \<notin> B" using hp p2 by (force simp: blink_def)
  have gap: "c \<le> p \<or> ?k \<le> c" if "c \<in> B" for c using hp that by (auto simp: blink_def)
  have gap2: "x \<le> p \<or> p2 \<le> x" if "x \<in> B" for x using gap [OF that] p2(2) by linarith
  have gap3: "x \<le> p2 \<or> ?k \<le> x" if "x \<in> B" for x using gap [OF that] p2(1) by linarith
  have "\<exists>h. blink (insert p2 B) e ?H b h" if b: "b \<in> insert p2 B" "b < e" for b
  proof -
    consider "b = p" | "b = p2" | "b \<in> B" "b \<noteq> p" "b \<noteq> p2" using b by blast
    then show ?thesis
    proof cases
      case 1
      then show ?thesis using h' h2 p2 k gap2
        by (intro exI [of _ h']) (auto simp: blink_def split_at_def Let_def)
    next
      case 2
      obtain g where "?k < e \<Longrightarrow> H ?k = Some g" using hp by (auto simp: blink_def)
      then show ?thesis using 2 h2 p2 k gap3
        by (intro exI [of _ h2]) (auto simp: blink_def split_at_def Let_def)
    next
      case 3
      obtain hb where hb: "H b = Some hb" "blink B e H b hb" using chainD [OF c 3(1) b(2)] .
      have kb: "hm_next hb = ?k \<Longrightarrow> ?k < e \<Longrightarrow> b = p" using hp hb by (auto simp: blink_def)
      have fit: "p2 \<le> b \<or> hm_next hb \<le> p2"
      proof (cases "b < p")
        case True
        then have "hm_next hb \<le> p" using hb(2) p(1) unfolding blink_def by (meson leD)
        then show ?thesis using p2(1) by simp
      qed (use gap2 [OF 3(1)] 3(2) in simp)
      let ?g = "if b = ?k \<and> ?k \<noteq> e then hb\<lparr>hm_prev := p2\<rparr> else hb"
      have H: "?H b = Some ?g" using 3 hb(1) by (auto simp: split_at_def Let_def h2(2))
      have bk: "\<exists>g. ?H (hm_next hb) = Some g \<and> hm_prev g = b" if e: "hm_next hb < e"
      proof -
        obtain g where g: "H (hm_next hb) = Some g" "hm_prev g = b" using hb(2) e by (auto simp: blink_def)
        have "hm_next hb \<noteq> ?k" "hm_next hb \<noteq> p2" using kb e 3(2) new hb(2) by (auto simp: blink_def)
        then show ?thesis using g h'(2) p(3) by (auto simp: split_at_def Let_def h2(2))
      qed
      have g: "hm_next ?g = hm_next hb" "hm_used ?g = hm_used hb" "hm_magic ?g = hm_magic hb" by simp_all
      have "blink (insert p2 B) e ?H b ?g"
        using hb(2) fit bk unfolding blink_def g H by blast
      then show ?thesis ..
    qed
  qed
  moreover have "\<exists>h. ?H e = Some h \<and> hm_used h \<noteq> 0"
    using c p p2 k h2 by (auto simp: chain_def split_at_def Let_def)
  moreover have "\<exists>h. ?H 0 = Some h \<and> hm_prev h = 0"
    using c p p2 k h' h2 by (auto simp: chain_def split_at_def Let_def)
  ultimately show ?thesis using c p2 k new by (auto simp: chain_def)
qed

lemma chain_mark:
  assumes "chain B e H" "p \<in> B" "p < e" "H p = Some h"
    and "hm_next h' = hm_next h" "hm_prev h' = hm_prev h" "hm_used h' \<noteq> 0 \<longrightarrow> hm_magic h' = HEAP_MAGIC"
  shows "chain B e (H(p \<mapsto> h'))"
proof -
  have "\<exists>h. blink B e (H(p \<mapsto> h')) b h" if b: "b \<in> B" "b < e" for b
  proof -
    obtain hb where "H b = Some hb" "blink B e H b hb" using chainD [OF assms(1) b] .
    then show ?thesis using assms(4-7)
      by (intro exI [of _ "if b = p then h' else hb"]) (auto simp: blink_def)
  qed
  then show ?thesis using assms by (auto simp: chain_def)
qed


lemma nxt_inj:
  assumes "chain B e H" "a \<in> B" "b \<in> B" "a < e" "b < e" "nxt H a = nxt H b"
  shows "a = b"
proof (rule ccontr)
  assume "a \<noteq> b"
  then consider "a < b" | "b < a" by linarith
  then show False
  proof cases
    case 1
    then have "nxt H a \<le> b" using chain_next(4) [OF assms(1,2,4)] assms(3) by blast
    then show False using chain_next(2) [OF assms(1,3,5)] assms(6) by simp
  next
    case 2
    then have "nxt H b \<le> a" using chain_next(4) [OF assms(1,3,5)] assms(2) by blast
    then show False using chain_next(2) [OF assms(1,2,4)] assms(6) by simp
  qed
qed

lemma split_free: "is_free (split_at p h' p2 h2 e H) b = (if b = p then hm_used h' = 0 else if b = p2 then hm_used h2 = 0 else is_free H b)"
  by (auto simp: is_free_def split_at_def Let_def)

lemma split_nxt: "nxt (split_at p h' p2 h2 e H) b = (if b = p then hm_next h' else if b = p2 then hm_next h2 else nxt H b)"
  by (auto simp: nxt_def split_at_def Let_def split: option.splits)

lemma mark_free: "is_free (H(p \<mapsto> h)) b = (if b = p then hm_used h = 0 else is_free H b)"
  by (auto simp: is_free_def)

lemma mark_nxt: "nxt (H(p \<mapsto> h)) b = (if b = p then hm_next h else nxt H b)"
  by (auto simp: nxt_def)

lemma live_merge:
  assumes "is_free H a" "is_free H n" "H a \<noteq> None"
  shows "live (B - {n}) e (merged a k H) = live B e H"
  using assms by (auto simp: live_def merged_next)

text \<open>Live blocks are disjoint.\<close>

lemma live_disjoint:
  assumes c: "chain B e H" and l: "(b, n) \<in> live B e H" "(c, k) \<in> live B e H" "b \<noteq> c"
  shows "n \<le> c \<or> k \<le> b"
proof -
  have b: "b \<in> B" "b < e" "n = nxt H b" and d: "c \<in> B" "c < e" "k = nxt H c" using l by (auto simp: live_def)
  have "b < c \<or> c < b" using l(3) by linarith
  then show ?thesis
    using chain_next(4) [OF c b(1,2), of c] chain_next(4) [OF c d(1,2), of b] b d by blast
qed

lemma live_inside:
  assumes "chain B e H" "(b, n) \<in> live B e H"
  shows "b + 16 \<le> n" "n \<le> e" "8 dvd b" "8 dvd n"
  using assms chain_next [OF assms(1), of b] by (auto simp: live_def chain_def)

lemma live_finite: "chain B e H \<Longrightarrow> finite (live B e H)"
  by (rule finite_subset [of _ "(\<lambda>b. (b, nxt H b)) ` B"]) (auto simp: live_def chain_def)

section \<open>The invariant of the heap\<close>

lemma add32_simp [simp]: "a + b < 4294967296 \<Longrightarrow> add32 a b = a + b"
  by (simp add: add32_def)

lemma sub32_simp [simp]: "b \<le> a \<Longrightarrow> a < 4294967296 \<Longrightarrow> sub32 a b = a - b"
proof -
  assume "b \<le> a" "a < 4294967296"
  then have "a + 4294967296 - b = (a - b) + 4294967296" "a - b < 4294967296" by simp_all
  then show ?thesis by (simp only: sub32_def mod_add_self2 mod_less)
qed

definition live_bytes :: "(nat \<times> nat) set \<Rightarrow> nat" where
  "live_bytes L = (\<Sum>(b, n)\<in>L. n - b)"

definition heap_core :: "nat set \<Rightarrow> nat set \<Rightarrow> heap \<Rightarrow> bool" where
  "heap_core B X s \<longleftrightarrow> chain B (heap_end s) (hdr s) \<and> coalesced B (heap_end s) (hdr s) X
     \<and> lfree s \<in> B \<and> (lfree s = heap_end s \<or> is_free (hdr s) (lfree s))
     \<and> heap_end s = mem_size s + 16 \<and> 16 \<le> mem_size s \<and> heap_ptr s + heap_end s + 16 < 4294967296
     \<and> 8 dvd heap_ptr s"

abbreviation heap_live :: "nat set \<Rightarrow> heap \<Rightarrow> (nat \<times> nat) set" where
  "heap_live B s \<equiv> live B (heap_end s) (hdr s)"

lemma merge_core:
  assumes c: "chain B (heap_end s) (hdr s)" and a: "a \<in> B" "a < heap_end s" "is_free (hdr s) a"
    and n: "n = nxt (hdr s) a" "n < heap_end s" "is_free (hdr s) n" and k: "k = nxt (hdr s) n"
  shows "merge_blocks a n k s = Some (s\<lparr>lfree := (if lfree s = n then a else lfree s), hdr := merged a k (hdr s)\<rparr>)"
proof -
  have "n \<in> B" "a + 16 \<le> n" using chain_next [OF c a(1,2)] n by auto
  then have "k \<in> B" "k \<le> heap_end s" using chain_next [OF c _ n(2)] k by auto
  then obtain hk where hk: "hdr s k = Some hk" using chain_hdr [OF c] by blast
  obtain ha where ha: "hdr s a = Some ha" using a(3) by (auto simp: is_free_def)
  show ?thesis using ha hk by (auto simp: merge_blocks_def hm_upd_def merged_def Let_def)
qed


text \<open>
  The effect of one half of plug_holes from s to t: the chain stays a chain, the live blocks stay as they
  are, and the free blocks that still have a free neighbour before them are those in Y.
\<close>

definition plugged :: "nat set \<Rightarrow> heap \<Rightarrow> nat set \<Rightarrow> nat set \<Rightarrow> heap \<Rightarrow> bool" where
  "plugged B s Y B' t \<longleftrightarrow> chain B' (heap_end s) (hdr t)
     \<and> (\<forall>b\<in>B'. b < heap_end s \<longrightarrow> is_free (hdr t) b \<longrightarrow> is_free (hdr t) (nxt (hdr t) b) \<longrightarrow> nxt (hdr t) b \<in> Y)
     \<and> lfree t \<in> B' \<and> (lfree t = heap_end s \<or> is_free (hdr t) (lfree t))
     \<and> live B' (heap_end s) (hdr t) = heap_live B s \<and> t = s\<lparr>lfree := lfree t, hdr := hdr t\<rparr>"

lemma plug_forward_core:
  assumes c: "chain B (heap_end s) (hdr s)" and co: "coalesced B (heap_end s) (hdr s) {m}"
    and m: "m \<in> B" "m < heap_end s" "is_free (hdr s) m"
    and l: "lfree s \<in> B" "lfree s = heap_end s \<or> is_free (hdr s) (lfree s)"
  shows "\<exists>t B'. plug_forward m s = Some t \<and> plugged B s {m} B' t \<and> m \<in> B' \<and> is_free (hdr t) m"
proof -
  let ?H = "hdr s" and ?e = "heap_end s"
  let ?n = "nxt ?H m"
  obtain h where h: "?H m = Some h" "hm_next h = ?n" using m(3) by (auto simp: is_free_def nxt_def)
  have n: "?n \<in> B" "m + 16 \<le> ?n" "?n \<le> ?e" using chain_next [OF c m(1,2)] by auto
  obtain nh where nh: "?H ?n = Some nh" using chain_hdr [OF c n(1)] .
  have pf: "plug_forward m s = (if hm_used nh = 0 \<and> ?n \<noteq> ?e then merge_blocks m ?n (hm_next nh) s else Some s)"
    using h nh n(2) by (simp add: plug_forward_def Let_def)
  show ?thesis
  proof (cases "is_free ?H ?n")
    case False
    then have t: "plug_forward m s = Some s" using pf nh by (simp add: is_free_def)
    have "nxt ?H b = m" if "b \<in> B" "b < ?e" "is_free ?H b" "is_free ?H (nxt ?H b)" for b
      using co that False by (auto simp: coalesced_def)
    then have "plugged B s {m} B s" using c l by (simp add: plugged_def)
    then show ?thesis using t m by blast
  next
    case True
    then have ne: "?n < ?e" "hm_used nh = 0" using end_not_free [OF c] n(3) nh by (auto simp: is_free_def le_less)
    have k: "hm_next nh = nxt ?H ?n" using nh by (simp add: nxt_def)
    let ?t = "s\<lparr>lfree := (if lfree s = ?n then m else lfree s), hdr := merged m (nxt ?H ?n) ?H\<rparr>"
    have t: "plug_forward m s = Some ?t"
      using pf ne k merge_core [OF c m refl ne(1) True refl] by simp
    have Hm: "?H m \<noteq> None" using h by simp
    have kk: "\<not> is_free ?H (nxt ?H ?n)"
    proof
      assume "is_free ?H (nxt ?H ?n)"
      then have "?n = m \<or> nxt ?H ?n = m" using co n(1) ne(1) True by (auto simp: coalesced_def)
      then show False using n(2) chain_next(2) [OF c n(1) ne(1)] by simp
    qed
    have "nxt (hdr ?t) b = m" if b: "b \<in> B - {?n}" "b < ?e" "is_free (hdr ?t) b" "is_free (hdr ?t) (nxt (hdr ?t) b)" for b
    proof (cases "b = m")
      case True
      then show ?thesis using b(4) kk by (simp add: merged_next [of "hdr s" m, OF Hm])
    next
      case False
      then have f: "is_free ?H b" "is_free ?H (nxt ?H b)" using b(3,4) by (simp_all add: merged_next [of "hdr s" m, OF Hm])
      then have "nxt ?H b = m" using co b(1,2) False by (auto simp: coalesced_def)
      with False show ?thesis by (simp add: merged_next [of "hdr s" m, OF Hm])
    qed
    moreover have "chain (B - {?n}) ?e (hdr ?t)" using chain_merge [OF c m(1,2) refl ne(1) refl m(3)] by simp
    moreover have "live (B - {?n}) ?e (hdr ?t) = heap_live B s" using live_merge [OF m(3) True Hm] by simp
    moreover have "lfree ?t \<in> B - {?n}" "lfree ?t = ?e \<or> is_free (hdr ?t) (lfree ?t)" using l m n(2) by auto
    moreover have "?t = s\<lparr>lfree := lfree ?t, hdr := hdr ?t\<rparr>" by simp
    ultimately have "plugged B s {m} (B - {?n}) ?t" unfolding plugged_def singleton_iff by blast
    moreover have "m \<in> B - {?n}" "is_free (hdr ?t) m" using m n(2) by simp_all
    ultimately show ?thesis using t by blast
  qed
qed

lemma plug_backward_core:
  assumes c: "chain B (heap_end s) (hdr s)"
    and co: "\<forall>b\<in>B. b < heap_end s \<longrightarrow> is_free (hdr s) b \<longrightarrow> is_free (hdr s) (nxt (hdr s) b) \<longrightarrow> nxt (hdr s) b \<in> {m}"
    and m: "m \<in> B" "m < heap_end s" "is_free (hdr s) m"
    and l: "lfree s \<in> B" "lfree s = heap_end s \<or> is_free (hdr s) (lfree s)"
  shows "\<exists>t B'. plug_backward m s = Some t \<and> plugged B s {} B' t"
proof -
  let ?H = "hdr s" and ?e = "heap_end s"
  obtain h where h: "?H m = Some h" "hm_next h = nxt ?H m" using m(3) by (auto simp: is_free_def nxt_def)
  let ?p = "hm_prev h"
  have p: "?p = m \<and> m = 0 \<or> ?p \<in> B \<and> ?p < m \<and> nxt ?H ?p = m" using chain_prev [OF c m(1,2) h(1)] .
  show ?thesis
  proof (cases "?p \<noteq> m \<and> is_free ?H ?p")
    case False
    have "nxt ?H b \<noteq> m" if "b \<in> B" "b < ?e" "is_free ?H b" for b
    proof
      assume nb: "nxt ?H b = m"
      show False
      proof (cases "?p = m")
        case True
        then show False using p nb chain_next(2) [OF c that(1,2)] by auto
      next
        case ne: False
        then have "?p = b" using nxt_inj [OF c _ that(1) _ that(2)] p nb m(2) by auto
        then show False using False ne that(3) by blast
      qed
    qed
    then have "plugged B s {} B s" using c l co by (simp add: plugged_def)
    moreover obtain ph where "?H ?p = Some ph" using p h(1) chain_hdr [OF c, of ?p] by (metis m(1))
    then have "plug_backward m s = Some s" using False h by (auto simp: plug_backward_def Let_def is_free_def)
    ultimately show ?thesis by blast
  next
    case True
    then have P: "?p \<in> B" "?p < m" "m = nxt ?H ?p" "?p < ?e" "is_free ?H ?p" using p m(2) by auto
    let ?t = "s\<lparr>lfree := (if lfree s = m then ?p else lfree s), hdr := merged ?p (nxt ?H m) ?H\<rparr>"
    have "merge_blocks ?p m (nxt ?H m) s = Some ?t" by (rule merge_core [OF c P(1,4,5,3) m(2,3) refl])
    then have t: "plug_backward m s = Some ?t"
      using True h P by (auto simp: plug_backward_def Let_def is_free_def)
    have Hp: "?H ?p \<noteq> None" using P(5) by (auto simp: is_free_def)
    have kk: "\<not> is_free ?H (nxt ?H m)"
    proof
      assume "is_free ?H (nxt ?H m)"
      then have "nxt ?H m = m" using co m by blast
      then show False using chain_next(2) [OF c m(1,2)] by simp
    qed
    have "\<not> is_free (hdr ?t) (nxt (hdr ?t) b)" if b: "b \<in> B - {m}" "b < ?e" "is_free (hdr ?t) b" for b
    proof (cases "b = ?p")
      case True
      then show ?thesis using kk by (simp add: merged_next [of "hdr s" "hm_prev h", OF Hp])
    next
      case ne: False
      have "nxt ?H b \<noteq> m" using nxt_inj [OF c _ P(1) b(2) P(4)] b(1) P(3) ne by auto
      then show ?thesis using co b ne by (auto simp: merged_next [of "hdr s" "hm_prev h", OF Hp])
    qed
    moreover have "chain (B - {m}) ?e (hdr ?t)" using chain_merge [OF c P(1,4,3) m(2) refl P(5)] by simp
    moreover have "live (B - {m}) ?e (hdr ?t) = heap_live B s" using live_merge [OF P(5) m(3) Hp] by simp
    moreover have "lfree ?t \<in> B - {m}" "lfree ?t = ?e \<or> is_free (hdr ?t) (lfree ?t)" using l m P by auto
    moreover have "?t = s\<lparr>lfree := lfree ?t, hdr := hdr ?t\<rparr>" by simp
    ultimately have "plugged B s {} (B - {m}) ?t" unfolding plugged_def by blast
    then show ?thesis using t by blast
  qed
qed

lemma frame_eq:
  assumes "t = s\<lparr>lfree := lfree t, hdr := hdr t\<rparr>"
  shows "heap_ptr t = heap_ptr s" "heap_end t = heap_end s" "mem_size t = mem_size s" "used_mem t = used_mem s"
    "max_mem t = max_mem s" "cells t = cells s"
  by (subst assms, simp)+

lemma plugged_frame: "plugged B s Y B' t \<Longrightarrow> t = s\<lparr>lfree := lfree t, hdr := hdr t\<rparr>"
  unfolding plugged_def by blast

lemma plug_holes_core:
  assumes "heap_core B {m} s" "m \<in> B" "m < heap_end s" "is_free (hdr s) m"
  shows "\<exists>t B'. plug_holes m s = Some t \<and> heap_core B' {} t \<and> heap_live B' t = heap_live B s
    \<and> t = s\<lparr>lfree := lfree t, hdr := hdr t\<rparr>"
proof -
  obtain h where h: "hdr s m = Some h" "hm_used h = 0" using assms(4) by (auto simp: is_free_def)
  have a: "chain B (heap_end s) (hdr s)" "coalesced B (heap_end s) (hdr s) {m}" "lfree s \<in> B"
    "lfree s = heap_end s \<or> is_free (hdr s) (lfree s)" using assms(1) unfolding heap_core_def by blast+
  obtain t1 B1 where 1: "plug_forward m s = Some t1" "plugged B s {m} B1 t1" "m \<in> B1" "is_free (hdr t1) m"
    using plug_forward_core [OF a(1,2) assms(2-4) a(3,4)] by blast
  note e1 = plugged_frame [OF 1(2)]
  note fr = frame_eq [OF e1]
  have b: "chain B1 (heap_end t1) (hdr t1)" "lfree t1 \<in> B1" "lfree t1 = heap_end t1 \<or> is_free (hdr t1) (lfree t1)"
    "\<forall>b\<in>B1. b < heap_end t1 \<longrightarrow> is_free (hdr t1) b \<longrightarrow> is_free (hdr t1) (nxt (hdr t1) b) \<longrightarrow> nxt (hdr t1) b \<in> {m}"
    using 1(2) unfolding plugged_def fr(2) by blast+
  obtain t B2 where 2: "plug_backward m t1 = Some t" "plugged B1 t1 {} B2 t"
    using plug_backward_core [OF b(1,4) 1(3) _ 1(4) b(2,3)] assms(3) fr(2) by metis
  note e2 = plugged_frame [OF 2(2)]
  note fr2 = frame_eq [OF e2]
  have t: "t = s\<lparr>lfree := lfree t, hdr := hdr t\<rparr>" by (subst e2, subst e1) simp
  have P: "chain B2 (heap_end s) (hdr t)" "lfree t \<in> B2" "lfree t = heap_end s \<or> is_free (hdr t) (lfree t)"
    "coalesced B2 (heap_end s) (hdr t) {}" "live B2 (heap_end s) (hdr t) = heap_live B1 t1"
    using 2(2) unfolding plugged_def coalesced_def fr(2) by blast+
  have "heap_core B2 {} t"
    using P assms(1) unfolding heap_core_def frame_eq [OF t] by blast
  moreover have "heap_live B2 t = heap_live B s"
    using P(5) 1(2) unfolding plugged_def fr(2) fr2(2) by metis
  moreover have "plug_holes m s = Some t" using h assms(3) 1(1) 2(1) by (simp add: plug_holes_def)
  ultimately show ?thesis using t by blast
qed

lemma live_bytes_le:
  assumes "chain B e H"
  shows "live_bytes (live B e H) \<le> e"
proof -
  let ?L = "live B e H" let ?I = "\<lambda>(b, n). {b..<(n::nat)}"
  have "live_bytes ?L = (\<Sum>x\<in>?L. card (?I x))" unfolding live_bytes_def by (rule sum.cong) auto
  also have "\<dots> = card (\<Union> (?I ` ?L))"
  proof (rule card_UN_disjoint [symmetric])
    show "\<forall>x\<in>?L. \<forall>y\<in>?L. x \<noteq> y \<longrightarrow> ?I x \<inter> ?I y = {}"
    proof (intro ballI impI)
      fix x y assume xy: "x \<in> ?L" "y \<in> ?L" "x \<noteq> y"
      then have "fst x \<noteq> fst y" by (auto simp: live_def)
      with live_disjoint [OF assms, of "fst x" "snd x" "fst y" "snd y"] xy(1,2)
      have "snd x \<le> fst y \<or> snd y \<le> fst x" by simp
      then show "?I x \<inter> ?I y = {}" by (auto simp: case_prod_unfold)
    qed
    show "finite ?L" by (rule live_finite [OF assms])
    show "\<forall>x\<in>?L. finite (?I x)" by (simp add: case_prod_unfold)
  qed
  also have "\<dots> \<le> card {0..<e}"
  proof (rule card_mono)
    show "\<Union> (?I ` ?L) \<subseteq> {0..<e}"
    proof
      fix x assume "x \<in> \<Union> (?I ` ?L)"
      then obtain b n where "(b, n) \<in> ?L" "x < n" by auto
      then show "x \<in> {0..<e}" using live_inside(2) [OF assms, of b n] by simp
    qed
  qed simp
  finally show ?thesis by simp
qed

lemma live_bytes_insert: "finite L \<Longrightarrow> x \<notin> L \<Longrightarrow> live_bytes (insert x L) = live_bytes L + (snd x - fst x)"
  by (cases x) (simp add: live_bytes_def)

lemma live_bytes_remove: "finite L \<Longrightarrow> x \<in> L \<Longrightarrow> live_bytes (L - {x}) + (snd x - fst x) = live_bytes L"
  by (cases x) (simp add: live_bytes_def sum.remove)

lemma lfree_scan_core:
  "chain B (heap_end s) (hdr s) \<Longrightarrow> lfree s \<in> B \<Longrightarrow>
   \<exists>l\<in>B. lfree_scan s = Some (s\<lparr>lfree := l\<rparr>) \<and> (l = heap_end s \<or> is_free (hdr s) l)
     \<and> (\<forall>b\<in>B. lfree s \<le> b \<longrightarrow> b < l \<longrightarrow> \<not> is_free (hdr s) b)"
proof (induction "heap_end s - lfree s" arbitrary: s rule: less_induct)
  case less
  obtain h where h: "hdr s (lfree s) = Some h" using chain_hdr [OF less.prems] .
  show ?case
  proof (cases "hm_used h \<noteq> 0 \<and> lfree s \<noteq> heap_end s")
    case False
    then have "lfree_scan s = Some s" using h by (subst lfree_scan.simps) auto
    then show ?thesis using False h less.prems(2) by (intro bexI [of _ "lfree s"]) (auto simp: is_free_def)
  next
    case True
    then have lt: "lfree s < heap_end s" using less.prems by (auto simp: chain_def le_less)
    let ?s = "s\<lparr>lfree := hm_next h\<rparr>"
    have nx: "hm_next h = nxt (hdr s) (lfree s)" using h by (simp add: nxt_def)
    note n = chain_next [OF less.prems lt, folded nx]
    have dec: "heap_end s - hm_next h < heap_end s - lfree s" using n(2) lt by simp
    have step: "lfree_scan s = lfree_scan ?s" using h True by (subst lfree_scan.simps) simp
    obtain l where l: "l \<in> B" "lfree_scan ?s = Some (s\<lparr>lfree := l\<rparr>)" "l = heap_end s \<or> is_free (hdr s) l"
      "\<forall>b\<in>B. hm_next h \<le> b \<longrightarrow> b < l \<longrightarrow> \<not> is_free (hdr s) b"
      using less.hyps [of ?s] less.prems n dec by auto
    have "\<not> is_free (hdr s) b" if b: "b \<in> B" "lfree s \<le> b" "b < l" for b
    proof (cases "b = lfree s")
      case True
      then show ?thesis using h \<open>hm_used h \<noteq> 0 \<and> _\<close> by (simp add: is_free_def)
    next
      case False
      then show ?thesis using l(4) n(4) [OF b(1)] b by simp
    qed
    then show ?thesis using l step by auto
  qed
qed

text \<open>
  What fits: block b is free and has room for sz bytes. found is the first such block from p on; a
  block that would fill the heap to its very end is not considered.
\<close>

definition has_room :: "(nat \<Rightarrow> heap_mem option) \<Rightarrow> nat \<Rightarrow> nat \<Rightarrow> bool" where
  "has_room H sz b \<longleftrightarrow> is_free H b \<and> b + 16 + sz \<le> nxt H b"

definition found :: "nat set \<Rightarrow> heap \<Rightarrow> nat \<Rightarrow> nat \<Rightarrow> nat option \<Rightarrow> bool" where
  "found B s sz p r \<longleftrightarrow> (case r of
     None \<Rightarrow> \<forall>b\<in>B. p \<le> b \<longrightarrow> b + sz < mem_size s \<longrightarrow> \<not> has_room (hdr s) sz b
   | Some q \<Rightarrow> q \<in> B \<and> p \<le> q \<and> q + sz < mem_size s \<and> has_room (hdr s) sz q
       \<and> (\<forall>b\<in>B. p \<le> b \<longrightarrow> b < q \<longrightarrow> \<not> has_room (hdr s) sz b))"

lemma found_step:
  assumes "found B s sz k r" "\<not> has_room (hdr s) sz p" "p \<le> k" "\<And>b. b \<in> B \<Longrightarrow> p \<le> b \<Longrightarrow> b = p \<or> k \<le> b"
  shows "found B s sz p r"
proof (cases r)
  case None
  then show ?thesis using assms(1,2,4) unfolding found_def by (simp, metis)
next
  case (Some q)
  then have q: "q \<in> B" "k \<le> q" "q + sz < mem_size s" "has_room (hdr s) sz q"
    "\<forall>b\<in>B. k \<le> b \<longrightarrow> b < q \<longrightarrow> \<not> has_room (hdr s) sz b" using assms(1) by (simp_all add: found_def)
  have "\<forall>b\<in>B. p \<le> b \<longrightarrow> b < q \<longrightarrow> \<not> has_room (hdr s) sz b" using q(5) assms(2,4) by metis
  with q assms(3) show ?thesis by (simp add: found_def Some)
qed

lemma malloc_find_core:
  assumes core: "heap_core B {} s" and sz: "sz \<le> mem_size s"
  shows "p \<in> B \<Longrightarrow> \<exists>r. malloc_find s sz p = Some r \<and> found B s sz p r"
proof (induction "heap_end s - p" arbitrary: p rule: less_induct)
  case less
  have c: "chain B (heap_end s) (hdr s)" and e: "heap_end s = mem_size s + 16" "heap_end s + 16 < 4294967296"
    using core by (auto simp: heap_core_def)
  show ?case
  proof (cases "p + sz < mem_size s")
    case False
    then have "\<not> p < sub32 (mem_size s) sz" using sz e by simp
    then have "malloc_find s sz p = Some None" by (subst malloc_find.simps) simp
    then show ?thesis using False by (auto simp: found_def)
  next
    case True
    then have lt: "p < heap_end s" "p < sub32 (mem_size s) sz" using sz e by simp_all
    obtain h where h: "hdr s p = Some h" using chain_hdr [OF c less.prems] .
    have nx: "hm_next h = nxt (hdr s) p" using h by (simp add: nxt_def)
    note n = chain_next [OF c less.prems lt(1), folded nx]
    have fits: "hm_fits sz p h \<longleftrightarrow> has_room (hdr s) sz p"
      using h n e by (auto simp: hm_fits_def has_room_def is_free_def nxt_def)
    show ?thesis
    proof (cases "has_room (hdr s) sz p")
      case room: True
      then have "malloc_find s sz p = Some (Some p)" using lt h fits by (subst malloc_find.simps) simp
      then show ?thesis using room True less.prems by (auto simp: found_def)
    next
      case no: False
      have dec: "heap_end s - hm_next h < heap_end s - p" using n(2) lt by simp
      have step: "malloc_find s sz p = malloc_find s sz (hm_next h)" using lt h fits no by (subst malloc_find.simps) simp
      obtain r where r: "malloc_find s sz (hm_next h) = Some r" "found B s sz (hm_next h) r"
        using less.hyps [OF dec n(1)] by blast
      have "b = p \<or> hm_next h \<le> b" if "b \<in> B" "p \<le> b" for b using n(4) that by (auto simp: le_less)
      then have "found B s sz p r" using found_step [OF r(2) no] n(2) by simp
      then show ?thesis using step r(1) by simp
    qed
  qed
qed

end
