(* ===== verification/Rt_Heap_Clients.thy ===== *)
theory Rt_Heap_Clients
  imports Rt_Heap
begin

text \<open>
  The operations of the heap of Rt_Heap keep its invariant, and what this means for its clients: live regions
  never overlap, rt_realloc keeps the data, and what is freed can be had again.
\<close>

section \<open>The operations keep the invariant\<close>

text \<open>
  heap_rep s L: the heap s is well formed and L is the set of its live blocks, each given by the offset of its
  header and the offset of the block behind it. heap_frame: what no operation changes.
\<close>

definition heap_rep :: "heap \<Rightarrow> (nat \<times> nat) set \<Rightarrow> bool" where
  "heap_rep s L \<longleftrightarrow> (\<exists>B. heap_core B {} s \<and> L = heap_live B s) \<and> used_mem s = live_bytes L"

definition heap_frame :: "heap \<Rightarrow> heap \<Rightarrow> bool" where
  "heap_frame s t \<longleftrightarrow> heap_ptr t = heap_ptr s \<and> heap_end t = heap_end s \<and> mem_size t = mem_size s"

lemma malloc_take_core:
  assumes core: "heap_core B {} s" and p: "p \<in> B" "p < heap_end s"
    and room: "has_room (hdr s) sz p" and sz: "16 \<le> sz" "8 dvd sz"
  shows "\<exists>t B' q. malloc_take sz p s = Some t \<and> chain B' (heap_end s) (hdr t) \<and> coalesced B' (heap_end s) (hdr t) {}
    \<and> B \<subseteq> B' \<and> live B' (heap_end s) (hdr t) = insert (p, q) (heap_live B s) \<and> p + 16 + sz \<le> q \<and> q \<le> heap_end s
    \<and> heap_frame s t \<and> lfree t = lfree s \<and> cells t = cells s \<and> used_mem t = add32 (used_mem s) (q - p)
    \<and> (\<forall>b. is_free (hdr t) b \<longrightarrow> b \<noteq> p) \<and> (\<forall>b. is_free (hdr s) b \<longrightarrow> b \<noteq> p \<longrightarrow> is_free (hdr t) b)"
proof -
  let ?e = "heap_end s"
  have c: "chain B ?e (hdr s)" and co: "coalesced B ?e (hdr s) {}" and e: "?e = mem_size s + 16" "?e + 16 < 4294967296"
    using core unfolding heap_core_def by auto
  obtain h where h: "hdr s p = Some h" "blink B ?e (hdr s) p h" using chainD [OF c p] .
  have nx: "nxt (hdr s) p = hm_next h" using h(1) by (simp add: nxt_def)
  note n = chain_next [OF c p, unfolded nx]
  have fr: "is_free (hdr s) p" "p + 16 + sz \<le> hm_next h" using room nx by (auto simp: has_room_def)
  have nf: "\<not> is_free (hdr s) (hm_next h)" using co p fr(1) nx by (auto simp: coalesced_def)
  obtain hn where hn: "hdr s (hm_next h) = Some hn" using chain_hdr [OF c n(1)] .
  have sub: "sub32 (hm_next h) (add32 p 16) = hm_next h - (p + 16)" "sub32 (hm_next h) p = hm_next h - p"
    using n e by simp_all
  show ?thesis
  proof (cases "add32 (add32 sz 16) 16 \<le> sub32 (hm_next h) (add32 p 16)")
    case False
    let ?h = "h\<lparr>hm_used := 1, hm_magic := HEAP_MAGIC\<rparr>"
    let ?t = "malloc_stats (hm_next h - p) (s\<lparr>hdr := (hdr s)(p \<mapsto> ?h)\<rparr>)"
    have t: "malloc_take sz p s = Some ?t"
      using False h(1) sub by (simp add: malloc_take_def hm_upd_def malloc_stats_def Let_def del: sub32_simp add32_simp)
    have H: "hdr ?t = (hdr s)(p \<mapsto> ?h)" by (simp add: malloc_stats_def Let_def)
    have "chain B ?e (hdr ?t)" unfolding H by (rule chain_mark [OF c p h(1)]) simp_all
    moreover have "coalesced B ?e (hdr ?t) {}"
      using co h(1) unfolding H by (auto simp: coalesced_def mark_free mark_nxt)
    moreover have "live B ?e (hdr ?t) = insert (p, hm_next h) (heap_live B s)"
      using p h(1) fr(1) unfolding H by (auto simp: live_def mark_free mark_nxt split: if_splits)
    moreover have "heap_frame s ?t" "lfree ?t = lfree s" "cells ?t = cells s"
      "used_mem ?t = add32 (used_mem s) (hm_next h - p)" by (simp_all add: heap_frame_def malloc_stats_def Let_def)
    ultimately show ?thesis using t fr(2) n(3)
      by (intro exI [of _ ?t] exI [of _ B] exI [of _ "hm_next h"]) (auto simp: H mark_free)
  next
    case True
    let ?p2 = "p + 16 + sz"
    have p2: "add32 (add32 p 16) sz = ?p2" "add32 sz 16 = sz + 16" "add32 (add32 sz 16) 16 = sz + 32" "add32 (mem_size s) 16 = ?e"
      using fr(2) n(3) e by simp_all
    have big: "?p2 + 32 \<le> hm_next h" using True sub(1) p2 fr(2) by simp
    let ?h = "h\<lparr>hm_next := ?p2, hm_used := 1, hm_magic := HEAP_MAGIC\<rparr>"
    let ?h2 = "\<lparr>hm_magic = (case hdr s ?p2 of None \<Rightarrow> 0 | Some h \<Rightarrow> hm_magic h), hm_used = 0, hm_next = hm_next h, hm_prev = p\<rparr>"
    let ?H = "split_at p ?h ?p2 ?h2 ?e (hdr s)"
    let ?t = "malloc_stats (sz + 16) (s\<lparr>hdr := ?H\<rparr>)"
    have t: "malloc_take sz p s = Some ?t"
      using True h(1) hn sub p2 big sz(1)
      by (simp add: malloc_take_def hm_new_def hm_upd_def malloc_stats_def split_at_def Let_def fun_upd_twist del: sub32_simp add32_simp)
    have H: "hdr ?t = ?H" by (simp add: malloc_stats_def Let_def)
    have new: "?p2 \<notin> B" using n(4) [of ?p2] big sz(1) by auto
    then have np2: "nxt (hdr s) b \<noteq> ?p2" if "b \<in> B" "b < ?e" for b using chain_next(1) [OF c that] by auto
    have "8 dvd p" using c p(1) by (auto simp: chain_def)
    then have d: "8 dvd ?p2" using sz(2) by simp
    have "chain (insert ?p2 B) ?e (hdr ?t)" unfolding H
      by (rule chain_split [OF c p h(1) _ big d]) simp_all
    moreover have "coalesced (insert ?p2 B) ?e (hdr ?t) {}"
      using co nf big n sz(1) np2 unfolding H by (auto simp: coalesced_def split_free split_nxt)
    moreover have "live (insert ?p2 B) ?e (hdr ?t) = insert (p, ?p2) (heap_live B s)"
      using p fr(1) big h(1) new unfolding H by (auto simp: live_def split_free split_nxt split: if_splits)
    moreover have "heap_frame s ?t" "lfree ?t = lfree s" "cells ?t = cells s"
      "used_mem ?t = add32 (used_mem s) (?p2 - p)" by (simp_all add: heap_frame_def malloc_stats_def Let_def add.commute)
    ultimately show ?thesis using t big n(3)
      by (intro exI [of _ ?t] exI [of _ "insert ?p2 B"] exI [of _ ?p2]) (auto simp: H split_free)
  qed
qed


text \<open>
  The size rt_malloc looks for. The result of rt_malloc is the live block that is added, or RT_NULL with
  nothing changed.
\<close>

definition block_size :: "nat \<Rightarrow> nat" where
  "block_size n = max 16 (RT_ALIGN n)"

lemma RT_ALIGN_ge: "n \<le> 4294967288 \<Longrightarrow> n \<le> RT_ALIGN n \<and> 8 dvd RT_ALIGN n"
  by (simp add: RT_ALIGN_def add32_def)

lemma RT_ALIGN_dvd: "8 dvd RT_ALIGN n"
  by (simp add: RT_ALIGN_def)

lemma block_size_dvd: "8 dvd block_size n"
  by (simp add: block_size_def max_def RT_ALIGN_dvd)

lemma rt_malloc_found:
  assumes core: "heap_core B {} s" and n: "0 < n" "RT_ALIGN n \<le> mem_size s"
    and f: "malloc_find s (block_size n) (lfree s) = Some (Some p)" and p: "p \<in> B" "p < heap_end s"
    and room: "has_room (hdr s) (block_size n) p" and used: "used_mem s = live_bytes (heap_live B s)"
  shows "\<exists>t q. rt_malloc n s = Some (heap_ptr s + p + 16, t) \<and> heap_rep t (insert (p, q) (heap_live B s))
    \<and> p + 16 + block_size n \<le> q \<and> q \<le> heap_end s \<and> (p, q) \<notin> heap_live B s \<and> heap_frame s t \<and> cells t = cells s"
proof -
  obtain t B' q where t: "malloc_take (block_size n) p s = Some t" "chain B' (heap_end s) (hdr t)"
    "coalesced B' (heap_end s) (hdr t) {}" "B \<subseteq> B'" "live B' (heap_end s) (hdr t) = insert (p, q) (heap_live B s)"
    "p + 16 + block_size n \<le> q" "q \<le> heap_end s" "heap_frame s t" "lfree t = lfree s" "cells t = cells s"
    "used_mem t = add32 (used_mem s) (q - p)" "\<forall>b. is_free (hdr t) b \<longrightarrow> b \<noteq> p"
    "\<forall>b. is_free (hdr s) b \<longrightarrow> b \<noteq> p \<longrightarrow> is_free (hdr t) b"
    using malloc_take_core [OF core p room _ block_size_dvd] by (auto simp: block_size_def)
  have fr: "heap_ptr t = heap_ptr s" "heap_end t = heap_end s" "mem_size t = mem_size s" using t(8) by (simp_all add: heap_frame_def)
  have c: "chain B (heap_end s) (hdr s)" and g: "lfree s \<in> B" "lfree s = heap_end s \<or> is_free (hdr s) (lfree s)"
    "heap_end s = mem_size s + 16" "16 \<le> mem_size s" "heap_ptr s + heap_end s + 16 < 4294967296" "8 dvd heap_ptr s"
    using core unfolding heap_core_def by blast+
  have new: "(p, q) \<notin> heap_live B s" using room by (auto simp: live_def has_room_def)
  have "live_bytes (insert (p, q) (heap_live B s)) = used_mem s + (q - p)"
    using live_bytes_insert [OF live_finite [OF c] new] used by simp
  moreover have "live_bytes (insert (p, q) (heap_live B s)) \<le> heap_end s" using live_bytes_le [OF t(2)] t(5) by simp
  ultimately have um: "used_mem t = live_bytes (insert (p, q) (heap_live B s))" using t(11) g(5) by simp
  obtain l where l: "l \<in> B'" "(if p = lfree t then lfree_scan t else Some t) = Some (t\<lparr>lfree := l\<rparr>)"
    "l = heap_end s \<or> is_free (hdr t) l"
  proof (cases "p = lfree t")
    case True
    then show ?thesis using that lfree_scan_core [of B' t] t(2,4,9) fr(2) g(1) by auto
  next
    case False
    then show ?thesis using that [of "lfree t"] t(4,9,13) g(1,2) by auto
  qed
  let ?t = "t\<lparr>lfree := l\<rparr>"
  have "heap_core B' {} ?t" unfolding heap_core_def using t(2,3) l(1,3) g fr by simp
  moreover have "heap_live B' ?t = insert (p, q) (heap_live B s)" using t(5) fr by simp
  ultimately have rep: "heap_rep ?t (insert (p, q) (heap_live B s))"
    unfolding heap_rep_def using um by auto
  obtain hl where hl: "hdr t l = Some hl" using chain_hdr [OF t(2) l(1)] .
  have "8 dvd p" using c p(1) by (auto simp: chain_def)
  then have al: "(heap_ptr s + p) mod 8 = 0" "(heap_ptr s + p + 16) mod 8 = 0" using g(6) by (simp_all flip: dvd_eq_mod_eq_0)
  have "rt_malloc n s = Some (heap_ptr s + p + 16, ?t)"
  proof (cases "p = lfree t")
    case True
    then show ?thesis using n f t(1,6,7) l hl al fr
      by (auto simp: rt_malloc_def block_size_def max_def Let_def is_free_def split: if_splits)
  next
    case False
    then show ?thesis using n f t(1,6,7) l al fr
      by (auto simp: rt_malloc_def block_size_def max_def Let_def split: if_splits)
  qed
  then show ?thesis using rep t(6,7,10) new t(8) by (auto simp: heap_frame_def)
qed

text \<open>The result of an allocation: RT_NULL and nothing changed, or a new live block of the wanted size.\<close>

definition malloc_result :: "heap \<Rightarrow> (nat \<times> nat) set \<Rightarrow> nat \<Rightarrow> nat \<Rightarrow> heap \<Rightarrow> bool" where
  "malloc_result s L n a t \<longleftrightarrow> heap_frame s t \<and> cells t = cells s
     \<and> (a = 0 \<and> t = s \<or> (\<exists>p q. a = heap_ptr s + p + 16 \<and> (p, q) \<notin> L \<and> heap_rep t (insert (p, q) L)
         \<and> p + 16 + block_size n \<le> q \<and> q \<le> heap_end s))"

lemma rt_malloc_spec:
  assumes "heap_rep s L"
  shows "\<exists>a t. rt_malloc n s = Some (a, t) \<and> malloc_result s L n a t"
proof -
  obtain B where core: "heap_core B {} s" and L: "L = heap_live B s" and u: "used_mem s = live_bytes L"
    using assms by (auto simp: heap_rep_def)
  show ?thesis
  proof (cases "n = 0 \<or> mem_size s < RT_ALIGN n")
    case True
    then have "rt_malloc n s = Some (0, s)" by (auto simp: rt_malloc_def Let_def)
    then show ?thesis by (auto simp: malloc_result_def heap_frame_def)
  next
    case False
    have g: "lfree s \<in> B" "16 \<le> mem_size s" "heap_end s = mem_size s + 16" using core by (auto simp: heap_core_def)
    then have sz: "block_size n \<le> mem_size s" using False by (simp add: block_size_def)
    obtain r where r: "malloc_find s (block_size n) (lfree s) = Some r" "found B s (block_size n) (lfree s) r"
      using malloc_find_core [OF core sz g(1)] by blast
    show ?thesis
    proof (cases r)
      case None
      then have "rt_malloc n s = Some (0, s)" using False r(1)
        by (auto simp: rt_malloc_def block_size_def max_def Let_def split: if_splits)
      then show ?thesis by (auto simp: malloc_result_def heap_frame_def)
    next
      case (Some p)
      then have p: "p \<in> B" "p < heap_end s" "has_room (hdr s) (block_size n) p" using r(2) g(3) by (auto simp: found_def)
      show ?thesis
        using rt_malloc_found [OF core _ _ _ p] r(1) Some False u L by (auto simp: malloc_result_def)
    qed
  qed
qed

lemma heap_rep_bounds:
  assumes "heap_rep s L" "(p, q) \<in> L"
  shows "p + 16 \<le> q" "q \<le> heap_end s" "8 dvd p" "8 dvd q" "heap_ptr s + heap_end s + 16 < 4294967296" "8 dvd heap_ptr s"
  using assms live_inside [of _ "heap_end s" "hdr s" p q] by (auto simp: heap_rep_def heap_core_def)

lemma heap_rep_live:
  assumes "heap_rep s L" "(p, q) \<in> L"
  obtains h where "hdr s p = Some h" "hm_next h = q" "hm_used h \<noteq> 0" "hm_magic h = HEAP_MAGIC"
proof -
  obtain B where B: "heap_core B {} s" "L = heap_live B s" using assms(1) by (auto simp: heap_rep_def)
  then have p: "p \<in> B" "p < heap_end s" "\<not> is_free (hdr s) p" "q = nxt (hdr s) p" "chain B (heap_end s) (hdr s)"
    using assms(2) by (auto simp: live_def heap_core_def)
  obtain h where "hdr s p = Some h" "blink B (heap_end s) (hdr s) p h" using chainD [OF p(5,1,2)] .
  then show ?thesis using that p(3,4) by (auto simp: blink_def is_free_def nxt_def)
qed

lemma rt_free_spec:
  assumes rep: "heap_rep s L" and l: "(p, q) \<in> L"
  shows "\<exists>t. rt_free (heap_ptr s + p + 16) s = Some t \<and> heap_rep t (L - {(p, q)}) \<and> heap_frame s t \<and> cells t = cells s"
proof -
  obtain B where core: "heap_core B {} s" and L: "L = heap_live B s" and u: "used_mem s = live_bytes L"
    using rep by (auto simp: heap_rep_def)
  have c: "chain B (heap_end s) (hdr s)" and co: "coalesced B (heap_end s) (hdr s) {}"
    and g: "lfree s \<in> B" "lfree s = heap_end s \<or> is_free (hdr s) (lfree s)" using core unfolding heap_core_def by blast+
  note b = heap_rep_bounds [OF rep l]
  have p: "p \<in> B" "p < heap_end s" "\<not> is_free (hdr s) p" "q = nxt (hdr s) p" using l L by (auto simp: live_def)
  obtain h where h: "hdr s p = Some h" "hm_next h = q" "hm_used h \<noteq> 0" "hm_magic h = HEAP_MAGIC" using heap_rep_live [OF rep l] .
  let ?h = "h\<lparr>hm_used := 0, hm_magic := 0\<rparr>"
  let ?l = "if p < lfree s then p else lfree s"
  let ?s = "s\<lparr>hdr := (hdr s)(p \<mapsto> ?h), lfree := ?l, used_mem := sub32 (used_mem s) (sub32 q p)\<rparr>"
  have "chain B (heap_end s) (hdr ?s)" using chain_mark [OF c p(1,2) h(1), of ?h] by simp
  moreover have "coalesced B (heap_end s) (hdr ?s) {p}"
    using co by (auto simp: coalesced_def mark_free mark_nxt split: if_splits)
  moreover have "lfree ?s \<in> B" "lfree ?s = heap_end s \<or> is_free (hdr ?s) (lfree ?s)"
    using g p(1) by (auto simp: mark_free)
  ultimately have core1: "heap_core B {p} ?s" using core by (simp add: heap_core_def)
  have lv: "heap_live B ?s = L - {(p, q)}"
    using p h L by (auto simp: live_def mark_free mark_nxt split: if_splits)
  obtain t B' where t: "plug_holes p ?s = Some t" "heap_core B' {} t" "heap_live B' t = heap_live B ?s"
    "t = ?s\<lparr>lfree := lfree t, hdr := hdr t\<rparr>"
    using plug_holes_core [OF core1 p(1)] p(2) by (auto simp: mark_free)
  have fin: "finite L" using L live_finite [OF c] by simp
  have "live_bytes (L - {(p, q)}) + (q - p) = live_bytes L" using live_bytes_remove [OF fin l] by simp
  moreover have "live_bytes L \<le> heap_end s" using live_bytes_le [OF c] L by simp
  ultimately have um: "used_mem t = live_bytes (L - {(p, q)})"
    using frame_eq(4) [OF t(4)] u b(1,2,5) by simp
  have "(heap_ptr s + p + 16) mod 8 = 0" using b(3,6) by (simp flip: dvd_eq_mod_eq_0)
  then have "rt_free (heap_ptr s + p + 16) s = Some t"
    using h t(1) b(1,2) p(2) chain_last [OF c p(1,2)] by (auto simp: rt_free_def mem_off_def hm_upd_def Let_def)
  moreover have "heap_rep t (L - {(p, q)})" using t(2,3) lv um by (auto simp: heap_rep_def)
  ultimately show ?thesis using frame_eq [OF t(4)] by (simp add: heap_frame_def)
qed

lemma realloc_split_spec:
  assumes rep: "heap_rep s L" and l: "(p, q) \<in> L" and n: "8 dvd n" "n + 16 + 12 < q - p - 16"
  shows "\<exists>t. realloc_split n (q - p - 16) p s = Some t \<and> heap_rep t (insert (p, p + 16 + n) (L - {(p, q)}))
    \<and> heap_frame s t \<and> cells t = cells s"
proof -
  obtain B where core: "heap_core B {} s" and L: "L = heap_live B s" and u: "used_mem s = live_bytes L"
    using rep by (auto simp: heap_rep_def)
  have c: "chain B (heap_end s) (hdr s)" and co: "coalesced B (heap_end s) (hdr s) {}"
    and g: "lfree s \<in> B" "lfree s = heap_end s \<or> is_free (hdr s) (lfree s)" "heap_end s = mem_size s + 16"
    using core unfolding heap_core_def by blast+
  note b = heap_rep_bounds [OF rep l]
  have p: "p \<in> B" "p < heap_end s" "\<not> is_free (hdr s) p" "q = nxt (hdr s) p" using l L by (auto simp: live_def)
  obtain h where h: "hdr s p = Some h" "hm_next h = q" "hm_used h \<noteq> 0" "hm_magic h = HEAP_MAGIC" using heap_rep_live [OF rep l] .
  note nx = chain_next [OF c p(1,2), folded p(4)]
  let ?p2 = "p + 16 + n"
  have "8 dvd (q - p - 16)" using b(1,3,4) by presburger
  then have big: "?p2 + 32 \<le> q" using n by presburger
  have d: "8 dvd ?p2" using b(3) n(1) by simp
  obtain hq where hq: "hdr s q = Some hq" using chain_hdr [OF c nx(1)] .
  let ?h = "h\<lparr>hm_next := ?p2\<rparr>"
  let ?h2 = "\<lparr>hm_magic = HEAP_MAGIC, hm_used = 0, hm_next = q, hm_prev = p\<rparr>"
  let ?H = "split_at p ?h ?p2 ?h2 (heap_end s) (hdr s)"
  let ?s = "s\<lparr>used_mem := sub32 (used_mem s) (sub32 (q - p - 16) n), hdr := ?H\<rparr>"
  have new: "?p2 \<notin> B" using nx(4) [of ?p2] big n by auto
  then have np2: "nxt (hdr s) b \<noteq> ?p2" if "b \<in> B" "b < heap_end s" for b using chain_next(1) [OF c that] by auto
  have c2: "chain (insert ?p2 B) (heap_end s) ?H"
    by (rule chain_split [OF c p(1,2) h(1)]) (use big d h in simp_all)
  have "coalesced (insert ?p2 B) (heap_end s) ?H {?p2}"
    using co np2 h p(3) by (auto simp: coalesced_def split_free split_nxt split: if_splits)
  moreover have "lfree s \<noteq> p" using g(2) p(2,3) by auto
  ultimately have core1: "heap_core (insert ?p2 B) {?p2} ?s"
    using c2 core g new unfolding heap_core_def by (auto simp: split_free split: if_splits)
  have lv: "heap_live (insert ?p2 B) ?s = insert (p, ?p2) (L - {(p, q)})"
    using p h L new big by (auto simp: live_def split_free split_nxt split: if_splits)
  have "?p2 < heap_end s" using big b(2) by simp
  then obtain t B' where t: "plug_holes ?p2 ?s = Some t" "heap_core B' {} t" "heap_live B' t = heap_live (insert ?p2 B) ?s"
    "t = ?s\<lparr>lfree := lfree t, hdr := hdr t\<rparr>"
    using plug_holes_core [OF core1] by (auto simp: split_free)
  have fin: "finite L" using L live_finite [OF c] by simp
  have "live_bytes (L - {(p, q)}) + (q - p) = live_bytes L" using live_bytes_remove [OF fin l] by simp
  moreover have "live_bytes L \<le> heap_end s" using live_bytes_le [OF c] L by simp
  moreover have "(p, ?p2) \<notin> L - {(p, q)}" using L by (auto simp: live_def p(4))
  then have "live_bytes (insert (p, ?p2) (L - {(p, q)})) = live_bytes (L - {(p, q)}) + (?p2 - p)"
    using live_bytes_insert [of "L - {(p, q)}" "(p, ?p2)"] fin by simp
  ultimately have um: "used_mem t = live_bytes (insert (p, ?p2) (L - {(p, q)}))"
    using frame_eq(4) [OF t(4)] u b(1,2,5) n(2) by simp
  have a: "add32 (add32 p 16) n = ?p2" "add32 (mem_size s) 16 = heap_end s" using big b g(3) by simp_all
  have ne: "q \<noteq> p" "q \<noteq> ?p2" "?p2 \<noteq> p" using big by auto
  have "realloc_split n (q - p - 16) p s = Some t"
    using h hq t(1) a ne
    by (cases "q = heap_end s") (simp_all add: realloc_split_def hm_upd_def split_at_def Let_def fun_upd_twist del: sub32_simp add32_simp)
  moreover have "heap_rep t (insert (p, ?p2) (L - {(p, q)}))" using t(2,3) lv um by (auto simp: heap_rep_def)
  ultimately show ?thesis using frame_eq [OF t(4)] by (simp add: heap_frame_def)
qed

lemma RT_ALIGN_same: "8 dvd m \<Longrightarrow> m < 4294967289 \<Longrightarrow> RT_ALIGN m = m"
  by (auto simp: RT_ALIGN_def add32_def elim!: dvdE)

lemma dvd8_bound: "8 dvd m \<Longrightarrow> m < 4294967296 \<Longrightarrow> m < (4294967289 :: nat)"
  by (elim dvdE) simp

lemma RT_ALIGN_bound: "RT_ALIGN n < 4294967289"
proof (rule dvd8_bound [OF RT_ALIGN_dvd])
  have "RT_ALIGN n \<le> add32 n 7" unfolding RT_ALIGN_def by (metis div_times_less_eq_dividend)
  also have "\<dots> < 4294967296" by (simp add: add32_def)
  finally show "RT_ALIGN n < 4294967296" .
qed

lemma RT_ALIGN_idem [simp]: "RT_ALIGN (RT_ALIGN n) = RT_ALIGN n"
  by (rule RT_ALIGN_same [OF RT_ALIGN_dvd RT_ALIGN_bound])

lemma block_size_ge: "n \<le> 4294967288 \<Longrightarrow> n \<le> RT_ALIGN n \<and> RT_ALIGN n \<le> block_size n"
  using RT_ALIGN_ge [of n] by (simp add: block_size_def)

lemma live_unique:
  assumes "heap_rep s L" "(p, q) \<in> L" "(p, q') \<in> L"
  shows "q = q'"
  using assms by (auto simp: heap_rep_def live_def)

lemma heap_rep_disjoint:
  assumes "heap_rep s L" "(p, q) \<in> L" "(p', q') \<in> L" "p \<noteq> p'"
  shows "q \<le> p' \<or> q' \<le> p"
proof -
  obtain B where "chain B (heap_end s) (hdr s)" "L = heap_live B s" using assms(1) unfolding heap_rep_def heap_core_def by blast
  then show ?thesis using live_disjoint assms(2-4) by blast
qed

lemma heap_rep_cells [simp]: "heap_rep (s\<lparr>cells := c\<rparr>) L = heap_rep s L"
  by (simp add: heap_rep_def heap_core_def)

lemma heap_frame_trans: "heap_frame s t \<Longrightarrow> heap_frame t u \<Longrightarrow> heap_frame s u"
  by (simp add: heap_frame_def)

text \<open>
  The result of rt_realloc on the live block (p, q): RT_NULL and nothing changed, or a block of n bytes that holds
  what the old block held; it is the old one, perhaps cut, or a new one. Outside of the new block
  no byte changes.
\<close>

definition realloc_result :: "heap \<Rightarrow> (nat \<times> nat) set \<Rightarrow> nat \<Rightarrow> nat \<Rightarrow> nat \<Rightarrow> nat \<Rightarrow> heap \<Rightarrow> bool" where
  "realloc_result s L p q n a t \<longleftrightarrow> heap_frame s t \<and> (a = 0 \<and> t = s \<or>
     (\<exists>p' q'. a = heap_ptr s + p' + 16 \<and> heap_rep t (insert (p', q') (L - {(p, q)})) \<and> p' + 16 + n \<le> q'
        \<and> (p' = p \<or> (\<forall>k. (p', k) \<notin> L))
        \<and> (\<forall>i < min n (q - p - 16). cells t (a + i) = cells s (heap_ptr s + p + 16 + i))
        \<and> (\<forall>x. x < a \<or> heap_ptr s + q' \<le> x \<longrightarrow> cells t x = cells s x)))"

lemma realloc_resultI:
  assumes "heap_frame s t" "heap_rep t (insert (p', q') (L - {(p, q)}))" "p' + 16 + n \<le> q'"
    "p' = p \<or> (\<forall>k. (p', k) \<notin> L)"
    "\<And>i. i < n \<Longrightarrow> i < q - p - 16 \<Longrightarrow> cells t (heap_ptr s + p' + 16 + i) = cells s (heap_ptr s + p + 16 + i)"
    "\<And>x. x < heap_ptr s + p' + 16 \<or> heap_ptr s + q' \<le> x \<Longrightarrow> cells t x = cells s x"
  shows "realloc_result s L p q n (heap_ptr s + p' + 16) t"
  unfolding realloc_result_def
  by (rule conjI [OF assms(1)], rule disjI2, rule exI [of _ p'], rule exI [of _ q']) (use assms in auto)

lemma rt_realloc_spec:
  assumes rep: "heap_rep s L" and l: "(p, q) \<in> L" and n: "n \<le> 4294967288"
  shows "\<exists>a t. rt_realloc (heap_ptr s + p + 16) n s = Some (a, t) \<and> realloc_result s L p q n a t"
proof (cases "mem_size s < RT_ALIGN n")
  case True
  then show ?thesis by (auto simp: rt_realloc_def Let_def realloc_result_def heap_frame_def)
next
  case fit: False
  let ?r = "heap_ptr s + p + 16" let ?n = "RT_ALIGN n"
  note b = heap_rep_bounds [OF rep l]
  obtain B where core: "heap_core B {} s" and L: "L = heap_live B s" using rep by (auto simp: heap_rep_def)
  then have c: "chain B (heap_end s) (hdr s)" and e: "heap_end s = mem_size s + 16" by (auto simp: heap_core_def)
  have last: "p + 16 < heap_end s" using chain_last [OF c] l L by (auto simp: live_def)
  obtain h where h: "hdr s p = Some h" "hm_next h = q" using heap_rep_live [OF rep l] .
  have sz: "sub32 (sub32 q p) 16 = q - p - 16" "add32 (add32 ?n 16) 12 = ?n + 28" using b fit e by simp_all
  have nn: "n \<le> ?n" using block_size_ge [OF n] by simp
  have ra: "rt_realloc ?r n s = (if q - p - 16 = ?n then Some (?r, s)
      else if ?n + 28 < q - p - 16 then do { s1 \<leftarrow> realloc_split ?n (q - p - 16) p s; Some (?r, s1) }
      else do {
        (nmem, s1) \<leftarrow> rt_malloc ?n s;
        (if nmem \<noteq> 0 then do {
           s3 \<leftarrow> rt_free ?r (s1\<lparr>cells := rt_memcpy nmem ?r (if q - p - 16 < ?n then q - p - 16 else ?n) (cells s1)\<rparr>);
           Some (nmem, s3) }
         else Some (nmem, s1)) })"
  proof -
    have "\<not> ?r < heap_ptr s" "\<not> heap_ptr s + heap_end s \<le> ?r" "?r \<noteq> 0" using last by simp_all
    moreover have "mem_off s ?r = Some p" by (simp add: mem_off_def)
    ultimately show ?thesis using fit h(1) unfolding rt_realloc_def Let_def
      by (simp del: sub32_simp add32_simp add: h(2) sz, unfold h(2) sz, simp)
  qed
  have same: "insert (p, q) (L - {(p, q)}) = L" using l by auto
  consider "q - p - 16 = ?n" | "?n + 28 < q - p - 16" | "q - p - 16 \<noteq> ?n" "\<not> ?n + 28 < q - p - 16" by blast
  then show ?thesis
  proof cases
    case 1
    then have "realloc_result s L p q n ?r s"
      using rep same nn b(1) by (intro realloc_resultI [where q' = q]) (auto simp: heap_frame_def)
    then show ?thesis using ra 1 by simp
  next
    case 2
    then obtain t where t: "realloc_split ?n (q - p - 16) p s = Some t"
      "heap_rep t (insert (p, p + 16 + ?n) (L - {(p, q)}))" "heap_frame s t" "cells t = cells s"
      using realloc_split_spec [OF rep l RT_ALIGN_dvd, of n] by auto
    then have "realloc_result s L p q n ?r t"
      using nn by (intro realloc_resultI [where q' = "p + 16 + ?n"]) auto
    then show ?thesis using ra 2 t(1) by simp
  next
    case 3
    obtain a t where m: "rt_malloc ?n s = Some (a, t)" "malloc_result s L ?n a t" using rt_malloc_spec [OF rep] by blast
    show ?thesis
    proof (cases "a = 0")
      case True
      then show ?thesis using ra 3 m by (auto simp: malloc_result_def realloc_result_def)
    next
      case False
      then obtain p' q' where a: "a = heap_ptr s + p' + 16" "(p', q') \<notin> L" "heap_rep t (insert (p', q') L)"
        "p' + 16 + block_size ?n \<le> q'" "q' \<le> heap_end s" and fr: "heap_frame s t" "cells t = cells s"
        using m(2) by (auto simp: malloc_result_def)
      let ?k = "if q - p - 16 < ?n then q - p - 16 else ?n"
      let ?t = "t\<lparr>cells := rt_memcpy a ?r ?k (cells t)\<rparr>"
      have r: "heap_rep ?t (insert (p', q') L)" "heap_ptr ?t = heap_ptr s" using a(3) fr by (simp_all add: heap_frame_def)
      have ne: "p \<noteq> p'" using live_unique [OF a(3), of p q q'] l a(2) by auto
      have dis: "q \<le> p' \<or> q' \<le> p" using heap_rep_disjoint [OF a(3) _ _ ne] l by blast
      have bs: "?n \<le> block_size ?n" by (simp add: block_size_def)
      obtain u where u: "rt_free ?r ?t = Some u" "heap_rep u (insert (p', q') L - {(p, q)})" "heap_frame ?t u" "cells u = cells ?t"
        using rt_free_spec [OF r(1), of p q] l unfolding r(2) by blast
      have cu: "cells u x = (if a \<le> x \<and> x < a + ?k then cells s (?r + (x - a)) else cells s x)" for x
      proof -
        have "a \<le> ?r \<or> ?r + ?k \<le> a" using dis a(1,4) b(1) by auto
        then show ?thesis unfolding u(4) by (simp add: memcpy_at fr(2))
      qed
      have "insert (p', q') L - {(p, q)} = insert (p', q') (L - {(p, q)})" using ne by auto
      moreover have "heap_frame s u" using fr u(3) by (simp add: heap_frame_def)
      moreover have "\<forall>k. (p', k) \<notin> L" using live_unique [OF a(3), of p' q'] a(2) by blast
      ultimately have "realloc_result s L p q n a u"
        unfolding a(1) using u(2) a(4) bs nn cu [unfolded a(1)] by (intro realloc_resultI [where q' = q']) auto
      then show ?thesis using ra 3 m(1) False u(1) by simp
    qed
  qed
qed

lemma rt_calloc_spec:
  assumes "heap_rep s L"
  shows "\<exists>a t u. rt_calloc c k s = Some (a, t) \<and> malloc_result s L (c * k mod 4294967296) a u
    \<and> t = (if a \<noteq> 0 then u\<lparr>cells := rt_memset a 0 (c * k mod 4294967296) (cells u)\<rparr> else u)"
  using rt_malloc_spec [OF assms, of "c * k mod 4294967296"] by (auto simp: rt_calloc_def Let_def)

text \<open>Setting up the heap between two addresses that leave room for a block.\<close>

definition heap_room :: "nat \<Rightarrow> nat \<Rightarrow> bool" where
  "heap_room b e \<longleftrightarrow> RT_ALIGN b + 48 \<le> RT_ALIGN_DOWN e \<and> e < 4294967296"

lemma rt_system_heap_init_spec:
  assumes "heap_room b e" "used_mem s0 = 0"
  shows "heap_rep (rt_system_heap_init b e s0) {}"
proof -
  let ?b = "RT_ALIGN b" and ?e = "RT_ALIGN_DOWN e"
  have d0: "8 dvd ?b" "8 dvd ?e" "?b + 48 \<le> ?e" "?e \<le> e" "e < 4294967296"
    using assms(1) by (simp_all add: heap_room_def RT_ALIGN_dvd RT_ALIGN_DOWN_def div_times_less_eq_dividend)
  then have d: "8 dvd ?b" "8 dvd ?e" "?e < 4294967289" "?b + 48 \<le> ?e" using dvd8_bound [of ?e] by simp_all
  let ?n = "?e - ?b - 16"
  let ?H = "[0 \<mapsto> \<lparr>hm_magic = HEAP_MAGIC, hm_used = 0, hm_next = ?n, hm_prev = 0\<rparr>,
      ?n \<mapsto> \<lparr>hm_magic = HEAP_MAGIC, hm_used = 1, hm_next = ?n, hm_prev = ?n\<rparr>]"
  have i: "rt_system_heap_init b e s0 = s0\<lparr>heap_ptr := ?b, mem_size := ?e - ?b - 32, heap_end := ?n, lfree := 0, hdr := ?H\<rparr>"
    using d by (simp add: rt_system_heap_init_def Let_def ac_simps)
  have n: "8 dvd ?n" "32 \<le> ?n" using d by auto
  have "chain {0, ?n} ?n ?H" using n by (auto simp: chain_def blink_def)
  then have "heap_core {0, ?n} {} (rt_system_heap_init b e s0)"
    unfolding i using d n by (auto simp: heap_core_def coalesced_def is_free_def nxt_def)
  moreover have "heap_live {0, ?n} (rt_system_heap_init b e s0) = {}"
    unfolding i using n by (auto simp: live_def is_free_def)
  ultimately show ?thesis using assms(2) i by (auto simp: heap_rep_def live_bytes_def)
qed

section \<open>Clients\<close>

text \<open>
  The heap and its clients: A maps the address of each region that is in use to its length in bytes. The
  clients allocate, resize and free regions they own, and write into them. Requests stay below the
  size at which RT_ALIGN wraps.
\<close>

inductive heap_reach :: "nat \<Rightarrow> nat \<Rightarrow> heap \<Rightarrow> heap \<Rightarrow> (nat \<Rightarrow> nat option) \<Rightarrow> bool" for b e s0 where
  start: "heap_reach b e s0 (rt_system_heap_init b e s0) Map.empty"
| malloc: "heap_reach b e s0 s A \<Longrightarrow> n \<le> 4294967288 \<Longrightarrow> rt_malloc n s = Some (a, t) \<Longrightarrow>
    heap_reach b e s0 t (if a = 0 then A else A(a \<mapsto> n))"
| calloc: "heap_reach b e s0 s A \<Longrightarrow> c * k mod 4294967296 \<le> 4294967288 \<Longrightarrow> rt_calloc c k s = Some (a, t) \<Longrightarrow>
    heap_reach b e s0 t (if a = 0 then A else A(a \<mapsto> c * k mod 4294967296))"
| realloc: "heap_reach b e s0 s A \<Longrightarrow> A r = Some m \<Longrightarrow> n \<le> 4294967288 \<Longrightarrow> rt_realloc r n s = Some (a, t) \<Longrightarrow>
    heap_reach b e s0 t (if a = 0 then A else (A(r := None))(a \<mapsto> n))"
| free: "heap_reach b e s0 s A \<Longrightarrow> A r = Some m \<Longrightarrow> rt_free r s = Some t \<Longrightarrow> heap_reach b e s0 t (A(r := None))"
| poke: "heap_reach b e s0 s A \<Longrightarrow> A r = Some m \<Longrightarrow> i < m \<Longrightarrow>
    heap_reach b e s0 (s\<lparr>cells := (cells s)(r + i := v)\<rparr>) A"

text \<open>Each region in use lies in one live block, and each live block holds one.\<close>

definition owns :: "heap \<Rightarrow> (nat \<times> nat) set \<Rightarrow> (nat \<Rightarrow> nat option) \<Rightarrow> bool" where
  "owns s L A \<longleftrightarrow> heap_rep s L
     \<and> (\<forall>r m. A r = Some m \<longrightarrow> (\<exists>p q. (p, q) \<in> L \<and> r = heap_ptr s + p + 16 \<and> p + 16 + m \<le> q))
     \<and> (\<forall>p q. (p, q) \<in> L \<longrightarrow> A (heap_ptr s + p + 16) \<noteq> None)"

lemma owns_rep: "owns s L A \<Longrightarrow> heap_rep s L"
  by (simp add: owns_def)

lemma owns_block:
  assumes "owns s L A" "A r = Some m"
  obtains p q where "(p, q) \<in> L" "r = heap_ptr s + p + 16" "p + 16 + m \<le> q" "heap_rep s L"
  using assms unfolding owns_def by blast

lemma owns_add:
  assumes o: "owns s L A" and t: "heap_rep t (insert (p, q) L)" "heap_ptr t = heap_ptr s" and n: "p + 16 + n \<le> q"
  shows "owns t (insert (p, q) L) (A(heap_ptr s + p + 16 \<mapsto> n))"
  unfolding owns_def
proof (intro conjI allI impI)
  fix r m assume r: "(A(heap_ptr s + p + 16 \<mapsto> n)) r = Some m"
  show "\<exists>p' q'. (p', q') \<in> insert (p, q) L \<and> r = heap_ptr t + p' + 16 \<and> p' + 16 + m \<le> q'"
  proof (cases "r = heap_ptr s + p + 16")
    case True
    then show ?thesis using r t(2) n by (intro exI [of _ p] exI [of _ q]) simp
  next
    case False
    then have "A r = Some m" using r by simp
    then obtain p' q' where "(p', q') \<in> L" "r = heap_ptr s + p' + 16" "p' + 16 + m \<le> q'" by (rule owns_block [OF o])
    then show ?thesis using t(2) by auto
  qed
next
  fix p' q' assume "(p', q') \<in> insert (p, q) L"
  then show "(A(heap_ptr s + p + 16 \<mapsto> n)) (heap_ptr t + p' + 16) \<noteq> None"
    using o t(2) unfolding owns_def by (cases "p' = p") auto
qed (rule t(1))

lemma owns_drop:
  assumes o: "owns s L A" and l: "(p, q) \<in> L"
  shows "(\<forall>r m. (A(heap_ptr s + p + 16 := None)) r = Some m \<longrightarrow>
      (\<exists>p' q'. (p', q') \<in> L - {(p, q)} \<and> r = heap_ptr s + p' + 16 \<and> p' + 16 + m \<le> q'))
    \<and> (\<forall>p' q'. (p', q') \<in> L - {(p, q)} \<longrightarrow> (A(heap_ptr s + p + 16 := None)) (heap_ptr s + p' + 16) \<noteq> None)"
proof (intro conjI allI impI)
  fix r m assume "(A(heap_ptr s + p + 16 := None)) r = Some m"
  then have r: "r \<noteq> heap_ptr s + p + 16" "A r = Some m" by (auto split: if_splits)
  then obtain p' q' where "(p', q') \<in> L" "r = heap_ptr s + p' + 16" "p' + 16 + m \<le> q'" using owns_block [OF o] by metis
  then show "\<exists>p' q'. (p', q') \<in> L - {(p, q)} \<and> r = heap_ptr s + p' + 16 \<and> p' + 16 + m \<le> q'" using r(1) by auto
next
  fix p' q' assume a: "(p', q') \<in> L - {(p, q)}"
  then have "p' \<noteq> p" using live_unique [OF owns_rep [OF o], of p q q'] l by auto
  then show "(A(heap_ptr s + p + 16 := None)) (heap_ptr s + p' + 16) \<noteq> None" using o a unfolding owns_def by auto
qed

lemma owns_free:
  assumes "owns s L A" "heap_rep t (L - {(p, q)})" "heap_ptr t = heap_ptr s" "(p, q) \<in> L"
  shows "owns t (L - {(p, q)}) (A(heap_ptr s + p + 16 := None))"
  unfolding owns_def assms(3) using assms(2) owns_drop [OF assms(1,4)] by blast

text \<open>Moving a region is dropping the old one and adding the new one.\<close>

lemma owns_move:
  assumes o: "owns s L A" and t: "heap_rep t (insert (p', q') (L - {(p, q)}))" "heap_ptr t = heap_ptr s" and l: "(p, q) \<in> L"
    and n: "p' + 16 + n \<le> q'"
  shows "owns t (insert (p', q') (L - {(p, q)})) ((A(heap_ptr s + p + 16 := None))(heap_ptr s + p' + 16 \<mapsto> n))"
  unfolding owns_def
proof (intro conjI allI impI)
  let ?A = "A(heap_ptr s + p + 16 := None)"
  note d = owns_drop [OF o l]
  fix r m assume r: "(?A(heap_ptr s + p' + 16 \<mapsto> n)) r = Some m"
  show "\<exists>a b. (a, b) \<in> insert (p', q') (L - {(p, q)}) \<and> r = heap_ptr t + a + 16 \<and> a + 16 + m \<le> b"
  proof (cases "r = heap_ptr s + p' + 16")
    case True
    then show ?thesis using r t(2) n by (intro exI [of _ p'] exI [of _ q']) simp
  next
    case False
    then have "?A r = Some m" using r by simp
    then obtain a b where "(a, b) \<in> L - {(p, q)}" "r = heap_ptr s + a + 16" "a + 16 + m \<le> b" using d by blast
    then show ?thesis using t(2) by auto
  qed
next
  fix a b assume "(a, b) \<in> insert (p', q') (L - {(p, q)})"
  then show "((A(heap_ptr s + p + 16 := None))(heap_ptr s + p' + 16 \<mapsto> n)) (heap_ptr t + a + 16) \<noteq> None"
    using owns_drop [OF o l] t(2) by (cases "a = p'") auto
qed (rule t(1))

lemma malloc_owns:
  assumes "owns s L A" "malloc_result s L n a t" "n \<le> 4294967288"
  shows "\<exists>L'. owns t L' (if a = 0 then A else A(a \<mapsto> n))"
proof (cases "a = 0")
  case True
  then show ?thesis using assms(1,2) by (auto simp: malloc_result_def)
next
  case False
  then obtain p q where pq: "a = heap_ptr s + p + 16" "heap_rep t (insert (p, q) L)" "p + 16 + block_size n \<le> q"
    "heap_ptr t = heap_ptr s" using assms(2) unfolding malloc_result_def heap_frame_def by blast
  have "p + 16 + n \<le> q" using pq(3) block_size_ge [OF assms(3)] by linarith
  then show ?thesis using owns_add [OF assms(1) pq(2,4)] pq(1) False by auto
qed

lemma owns_cells [simp]: "owns (s\<lparr>cells := c\<rparr>) L A = owns s L A"
  by (simp add: owns_def)

lemma heap_reach_owns:
  assumes "heap_reach b e s0 s A" "heap_room b e" "used_mem s0 = 0"
  shows "\<exists>L. owns s L A"
  using assms(1)
proof (induction rule: heap_reach.induct)
  case start
  then show ?case using rt_system_heap_init_spec [OF assms(2,3)] by (auto simp: owns_def)
next
  case (malloc s A n a t)
  then obtain L where L: "owns s L A" by blast
  have "malloc_result s L n a t" using rt_malloc_spec [OF owns_rep [OF L], of n] malloc.hyps(3) by auto
  then show ?case using malloc_owns [OF L _ malloc.hyps(2)] by blast
next
  case (calloc s A c k a t)
  then obtain L where L: "owns s L A" by blast
  obtain u where u: "malloc_result s L (c * k mod 4294967296) a u"
    "t = (if a \<noteq> 0 then u\<lparr>cells := rt_memset a 0 (c * k mod 4294967296) (cells u)\<rparr> else u)"
    using rt_calloc_spec [OF owns_rep [OF L], of c k] calloc.hyps(3) by auto
  obtain L' where "owns u L' (if a = 0 then A else A(a \<mapsto> c * k mod 4294967296))"
    using malloc_owns [OF L u(1) calloc.hyps(2)] by blast
  then have "owns t L' (if a = 0 then A else A(a \<mapsto> c * k mod 4294967296))" unfolding u(2)
    by (cases "a = 0") simp_all
  then show ?case by blast
next
  case (realloc s A r m n a t)
  then obtain L where L: "owns s L A" by blast
  obtain p q where p: "(p, q) \<in> L" "r = heap_ptr s + p + 16" "heap_rep s L" using owns_block [OF L realloc.hyps(2)] .
  have res: "realloc_result s L p q n a t" using rt_realloc_spec [OF p(3,1) realloc.hyps(3)] p(2) realloc.hyps(4) by auto
  show ?case
  proof (cases "a = 0")
    case True
    then show ?thesis using res L by (auto simp: realloc_result_def)
  next
    case False
    then obtain p' q' where a: "a = heap_ptr s + p' + 16" and t: "heap_rep t (insert (p', q') (L - {(p, q)}))"
      "heap_ptr t = heap_ptr s" "p' + 16 + n \<le> q'" using res unfolding realloc_result_def heap_frame_def by blast
    have "owns t (insert (p', q') (L - {(p, q)})) ((A(r := None))(a \<mapsto> n))"
      unfolding a p(2) by (rule owns_move [OF L t(1,2) p(1) t(3)])
    then show ?thesis unfolding if_not_P [OF False] by blast
  qed
next
  case (free s A r m t)
  then obtain L where L: "owns s L A" by blast
  obtain p q where p: "(p, q) \<in> L" "r = heap_ptr s + p + 16" "heap_rep s L" using owns_block [OF L free.hyps(2)] .
  then have "heap_rep t (L - {(p, q)}) \<and> heap_ptr t = heap_ptr s"
    using rt_free_spec [OF p(3,1)] free.hyps(3) by (auto simp: heap_frame_def)
  then show ?case using owns_free [OF L _ _ p(1)] p(2) by blast
next
  case (poke s A r m i v)
  then show ?case by (auto simp: owns_def)
qed


lemma heap_all_free:
  assumes "heap_rep s {}"
  shows "\<exists>h. hdr s 0 = Some h \<and> hm_used h = 0 \<and> hm_next h = heap_end s" "used_mem s = 0"
proof -
  obtain B where B: "heap_core B {} s" "heap_live B s = {}" using assms by (auto simp: heap_rep_def)
  then have c: "chain B (heap_end s) (hdr s)" and co: "coalesced B (heap_end s) (hdr s) {}" by (auto simp: heap_core_def)
  then have z: "0 \<in> B" "0 < heap_end s" by (auto simp: chain_def)
  have fr: "is_free (hdr s) b" if "b \<in> B" "b < heap_end s" for b using B(2) that by (auto simp: live_def)
  note n = chain_next [OF c z]
  have "nxt (hdr s) 0 = heap_end s"
  proof (rule ccontr)
    assume "nxt (hdr s) 0 \<noteq> heap_end s"
    then have "is_free (hdr s) (nxt (hdr s) 0)" using fr n(1,3) by simp
    then show False using co fr [OF z] z by (auto simp: coalesced_def)
  qed
  then show "\<exists>h. hdr s 0 = Some h \<and> hm_used h = 0 \<and> hm_next h = heap_end s"
    using fr [OF z] by (auto simp: is_free_def nxt_def)
  show "used_mem s = 0" using assms by (simp add: heap_rep_def live_bytes_def)
qed

definition mem0 :: heap where
  "mem0 = \<lparr>heap_ptr = 0, heap_end = 0, lfree = 0, mem_size = 0, used_mem = 0, max_mem = 0, hdr = Map.empty, cells = (\<lambda>_. 0)\<rparr>"


lemma owns_apart:
  assumes o: "owns s L A" and A: "A r = Some m" "A r' = Some m'" "r \<noteq> r'"
  shows "r + m \<le> r' \<or> r' + m' \<le> r"
proof -
  obtain p q where p: "(p, q) \<in> L" "r = heap_ptr s + p + 16" "p + 16 + m \<le> q" using owns_block [OF o A(1)] .
  obtain p' q' where p': "(p', q') \<in> L" "r' = heap_ptr s + p' + 16" "p' + 16 + m' \<le> q'" using owns_block [OF o A(2)] .
  have "p \<noteq> p'" using A(3) p p' by auto
  from heap_rep_disjoint [OF owns_rep [OF o] p(1) p'(1) this] show ?thesis using p p' by auto
qed

lemma owns_inside:
  assumes o: "owns s L A" and A: "A r = Some m"
  shows "8 dvd r" "heap_ptr s + 16 \<le> r" "r + m \<le> heap_ptr s + heap_end s"
proof -
  obtain p q where p: "(p, q) \<in> L" "r = heap_ptr s + p + 16" "p + 16 + m \<le> q" using owns_block [OF o A] .
  note b = heap_rep_bounds [OF owns_rep [OF o] p(1)]
  show "8 dvd r" using b(3,6) p(2) by simp
  show "heap_ptr s + 16 \<le> r" "r + m \<le> heap_ptr s + heap_end s" using p b(2) by simp_all
qed

lemma owns_realloc:
  assumes o: "owns s L A" and A: "A r = Some m" and n: "n \<le> 4294967288" and t: "rt_realloc r n s = Some (a, t)" "a \<noteq> 0"
  shows "i < m \<Longrightarrow> i < n \<Longrightarrow> cells t (a + i) = cells s (r + i)"
    and "A r' = Some m' \<Longrightarrow> r' \<noteq> r \<Longrightarrow> i < m' \<Longrightarrow> cells t (r' + i) = cells s (r' + i)"
proof -
  obtain p q where p: "(p, q) \<in> L" "r = heap_ptr s + p + 16" "p + 16 + m \<le> q" using owns_block [OF o A] .
  have res: "realloc_result s L p q n a t"
    using rt_realloc_spec [OF owns_rep [OF o] p(1) n] p(2) t(1) by auto
  then obtain p' q' where q': "a = heap_ptr s + p' + 16" "heap_rep t (insert (p', q') (L - {(p, q)}))" "p' + 16 + n \<le> q'"
    "p' = p \<or> (\<forall>k. (p', k) \<notin> L)"
    "\<forall>i < min n (q - p - 16). cells t (a + i) = cells s (heap_ptr s + p + 16 + i)"
    "\<forall>x. x < a \<or> heap_ptr s + q' \<le> x \<longrightarrow> cells t x = cells s x"
    using t(2) unfolding realloc_result_def by blast
  show "cells t (a + i) = cells s (r + i)" if "i < m" "i < n" using q'(5) that p(2,3) by simp
  assume r': "A r' = Some m'" "r' \<noteq> r" "i < m'"
  obtain x y where x: "(x, y) \<in> L" "r' = heap_ptr s + x + 16" "x + 16 + m' \<le> y" using owns_block [OF o r'(1)] .
  have "x \<noteq> p" using r'(2) p(2) x(2) by auto
  then have "x \<noteq> p'" using q'(4) x(1) by auto
  then have "y \<le> p' \<or> q' \<le> x" using heap_rep_disjoint [OF q'(2), of x y p' q'] x(1) \<open>x \<noteq> p\<close> by auto
  then show "cells t (r' + i) = cells s (r' + i)" using q'(1,6) x r'(3) by auto
qed

section \<open>Properties\<close>

text \<open>
  Property C25 (heap_clients_safe): Clients of the heap never get in each other's way. After rt_system_heap_init
  and any sequence of rt_malloc, rt_calloc, rt_realloc, rt_free and writes of clients into regions they own,
  the regions in use are aligned to 8 bytes, lie inside the heap behind a header, and no two of
  them overlap; and the heap is never corrupt: the next rt_malloc, rt_calloc, and rt_free or rt_realloc of a region in
  use returns, its loops ending, its assertions holding, and no header being read where there is none.
\<close>

theorem heap_clients_safe:
  assumes "heap_room b e" "used_mem s0 = 0" "heap_reach b e s0 s A"
  shows "(\<forall>r m. A r = Some m \<longrightarrow> 8 dvd r \<and> heap_ptr s + 16 \<le> r \<and> r + m \<le> heap_ptr s + heap_end s)
    \<and> (\<forall>r m r' m'. A r = Some m \<longrightarrow> A r' = Some m' \<longrightarrow> r \<noteq> r' \<longrightarrow> r + m \<le> r' \<or> r' + m' \<le> r)
    \<and> (\<forall>n. rt_malloc n s \<noteq> None) \<and> (\<forall>c k. rt_calloc c k s \<noteq> None)
    \<and> (\<forall>r m n. A r = Some m \<longrightarrow> rt_free r s \<noteq> None \<and> (n \<le> 4294967288 \<longrightarrow> rt_realloc r n s \<noteq> None))"
proof -
  obtain L where o: "owns s L A" using heap_reach_owns [OF assms(3,1,2)] by blast
  note rep = owns_rep [OF o]
  have "rt_free r s \<noteq> None \<and> (n \<le> 4294967288 \<longrightarrow> rt_realloc r n s \<noteq> None)" if A: "A r = Some m" for r m n
  proof -
    obtain p q where p: "(p, q) \<in> L" "r = heap_ptr s + p + 16" using owns_block [OF o A] .
    show ?thesis using rt_free_spec [OF rep p(1)] rt_realloc_spec [OF rep p(1), of n] p(2) by auto
  qed
  moreover have "rt_malloc n s \<noteq> None" "rt_calloc c k s \<noteq> None" for n c k
    using rt_malloc_spec [OF rep, of n] rt_calloc_spec [OF rep, of c k] by auto
  ultimately show ?thesis using owns_inside [OF o] owns_apart [OF o] by blast
qed

text \<open>
  Property C26 (heap_gives_back): Nothing is lost and nothing stays fragmented. Whenever the clients have freed all
  their regions, in whatever order, the heap is one free block again that reaches from the first header to the
  end marker, and the count of used bytes is back at 0.
\<close>

theorem heap_gives_back:
  assumes "heap_room b e" "used_mem s0 = 0" "heap_reach b e s0 s Map.empty"
  shows "(\<exists>h. hdr s 0 = Some h \<and> hm_used h = 0 \<and> hm_next h = heap_end s) \<and> used_mem s = 0"
proof -
  obtain L where o: "owns s L Map.empty" using heap_reach_owns [OF assms(3,1,2)] by blast
  then have "L = {}" unfolding owns_def by (metis equals0I surj_pair)
  then have "heap_rep s {}" using owns_rep [OF o] by simp
  then show ?thesis using heap_all_free by blast
qed

text \<open>
  Property C27 (realloc_keeps_data): When rt_realloc of a region in use does not return RT_NULL, the region it returns
  begins with the bytes of the old one, up to the smaller of the two lengths, and every other region in use keeps
  all its bytes.
\<close>

theorem realloc_keeps_data:
  assumes "heap_room b e" "used_mem s0 = 0" "heap_reach b e s0 s A"
    and "A r = Some m" "n \<le> 4294967288" "rt_realloc r n s = Some (a, t)" "a \<noteq> 0"
  shows "(\<forall>i. i < m \<and> i < n \<longrightarrow> cells t (a + i) = cells s (r + i))
    \<and> (\<forall>r' m' i. A r' = Some m' \<and> r' \<noteq> r \<and> i < m' \<longrightarrow> cells t (r' + i) = cells s (r' + i))"
proof -
  obtain L where o: "owns s L A" using heap_reach_owns [OF assms(3,1,2)] by blast
  show ?thesis using owns_realloc [OF o assms(4-7)] by blast
qed


section \<open>Witnesses and limits\<close>

lemmas heap_eval = rt_system_heap_init_def RT_ALIGN_def RT_ALIGN_DOWN_def rt_malloc_def malloc_find.simps hm_fits_def
  malloc_take_def hm_new_def hm_upd_def malloc_stats_def lfree_scan.simps rt_free_def mem_off_def plug_holes_def
  plug_forward_def plug_backward_def merge_blocks_def rt_realloc_def realloc_split_def Let_def

definition mem1 :: heap where
  "mem1 = snd (the (rt_malloc 64 (rt_system_heap_init 1024 1184 mem0)))"

lemma mem1_reach: "heap_room 1024 1184" "used_mem mem0 = 0" "heap_reach 1024 1184 mem0 mem1 [1040 \<mapsto> 64]"
proof -
  show "heap_room 1024 1184" by (simp add: heap_room_def heap_eval)
  show "used_mem mem0 = 0" by (simp add: mem0_def)
  have "rt_malloc 64 (rt_system_heap_init 1024 1184 mem0) = Some (1040, mem1)"
    by (simp add: heap_eval mem0_def mem1_def)
  from heap_reach.malloc [OF heap_reach.start _ this]
  show "heap_reach 1024 1184 mem0 mem1 [1040 \<mapsto> 64]" by simp
qed

theorem heap_clients_safe_witness:
  "heap_reach 1024 1184 mem0 mem1 [1040 \<mapsto> 64] \<and> rt_free 1040 mem1 \<noteq> None \<and> heap_ptr mem1 + 16 \<le> 1040"
  using heap_clients_safe [OF mem1_reach] mem1_reach by simp

definition mem2 :: heap where
  "mem2 = the (rt_free 1040 mem1)"

lemma mem2_reach: "heap_reach 1024 1184 mem0 mem2 Map.empty"
proof -
  have "rt_free 1040 mem1 = Some mem2" by (simp add: heap_eval mem0_def mem1_def mem2_def)
  from heap_reach.free [OF mem1_reach(3) _ this] show ?thesis by simp
qed

theorem heap_gives_back_witness: "used_mem mem1 = 80 \<and> used_mem mem2 = 0"
  using heap_gives_back [OF mem1_reach(1,2) mem2_reach] by (simp add: heap_eval mem0_def mem1_def)

theorem realloc_keeps_data_witness:
  "\<exists>t. rt_realloc 1040 72 mem1 = Some (0, mem1) \<and> rt_realloc 1040 8 mem1 = Some (1040, t) \<and> cells t 1047 = cells mem1 1047"
proof -
  have "rt_realloc 1040 72 mem1 = Some (0, mem1)" "map_option fst (rt_realloc 1040 8 mem1) = Some 1040"
    by (simp_all add: heap_eval mem0_def mem1_def)
  then obtain t where t: "rt_realloc 1040 72 mem1 = Some (0, mem1)" "rt_realloc 1040 8 mem1 = Some (1040, t)" by auto
  then show ?thesis using realloc_keeps_data [OF mem1_reach _ _ t(2)] by (auto dest!: spec [of _ 7])
qed

text \<open>
  The limits of the code. A request above the largest multiple of 8 wraps to 0 in RT_ALIGN, passes the size check, and
  returns a block of 16 bytes.
\<close>

theorem malloc_wraps:
  assumes "16 \<le> mem_size s" "4294967288 < n" "n < 4294967296"
  shows "rt_malloc n s = rt_malloc 16 s"
proof -
  have "(n + 7) mod 4294967296 = n + 7 - 4294967296" using assms(2,3) by (simp add: le_mod_geq)
  then have "RT_ALIGN n = 0" using assms(3) by (simp add: RT_ALIGN_def add32_def)
  moreover have "RT_ALIGN 16 = 16" by (simp add: RT_ALIGN_def)
  ultimately show ?thesis using assms by (simp add: rt_malloc_def Let_def)
qed

text \<open>
  rt_realloc does not lower lfree when it cuts a block, so the hole it leaves below lfree is not found: of the 40 free
  bytes behind the cut block none can be had.
\<close>

theorem realloc_hole_lost: "map_option fst (do {
     (a, s1) \<leftarrow> rt_malloc 64 (rt_system_heap_init 1024 1184 mem0);
     (b, s2) \<leftarrow> rt_malloc 16 s1;
     (c, s3) \<leftarrow> rt_realloc a 8 s2;
     rt_malloc 24 s3 }) = Some 0"
  by (simp add: heap_eval mem0_def)

text \<open>A free block that the request would fill up to the end of the heap is not used, as the loop's bound is strict.\<close>

theorem malloc_never_exact:
  assumes "heap_core B {} s" "16 \<le> n" "block_size n = mem_size s" "lfree s = 0"
  shows "rt_malloc n s = Some (0, s)"
proof -
  have e: "mem_size s < 4294967296" using assms(1) by (auto simp: heap_core_def)
  have "malloc_find s (mem_size s) 0 = Some None" using e by (subst malloc_find.simps) simp
  then show ?thesis using assms by (auto simp: rt_malloc_def block_size_def max_def Let_def split: if_splits)
qed

end
