(* ===== verification/Rt_Align.thy ===== *)
theory Rt_Align
  imports Rt_Heap_Clients
begin

text \<open>
  Duplicated strings and aligned blocks: rt_strdup, rt_malloc_align and rt_free_align of src/src/kservice.c, which rest
  on the heap. The word before an aligned block holds the address of the block that rt_malloc returned.
\<close>

definition rt_strdup :: "nat \<Rightarrow> heap \<Rightarrow> (nat \<times> heap) option" where
  "rt_strdup a s = do {
     l \<leftarrow> rt_strlen (cells s) a;
     let len = add32 l 1;
     (tmp, s1) \<leftarrow> rt_malloc len s;
     Some (tmp, if tmp = 0 then s1 else s1\<lparr>cells := rt_memcpy tmp a len (cells s1)\<rparr>) }"

definition align4 :: "u32 \<Rightarrow> u32" where
  "align4 x = (x + 3) AND NOT 3"

definition rt_malloc_align :: "u32 \<Rightarrow> u32 \<Rightarrow> heap \<Rightarrow> (nat \<times> heap) option" where
  "rt_malloc_align sz align0 s = (let align = align4 align0; align_size = align4 sz + align in do {
     (p, s1) \<leftarrow> rt_malloc (unat align_size) s;
     (if p \<noteq> 0 then
        (let ptr = word_of_nat p :: u32;
             align_ptr = (if ptr AND (align - 1) = 0 then ptr + align else (ptr + (align - 1)) AND NOT (align - 1))
         in Some (unat align_ptr, s1\<lparr>cells := st32 (unat (align_ptr - 4)) ptr (cells s1)\<rparr>))
      else Some (p, s1)) })"

definition rt_free_align :: "nat \<Rightarrow> heap \<Rightarrow> heap option" where
  "rt_free_align ptr s = rt_free (unat (ld32 (cells s) (ptr - 4))) s"

lemma ld32_st32 [simp]: "ld32 (st32 a w m) a = w"
proof (rule bit_word_eqI)
  fix n assume "n < LENGTH(32)"
  then consider "n < 8" | "8 \<le> n" "n < 16" | "16 \<le> n" "n < 24" | "24 \<le> n" "n < 32" by fastforce
  then show "bit (ld32 (st32 a w m) a) n = bit w n"
    by cases (auto simp: ld32_def st32_def bit_simps numeral_2_eq_2 dest: bit_imp_le_length)
qed

lemma and_mask_unat: "unat ((x :: u32) AND (2 ^ k - 1)) = unat x mod 2 ^ k"
  by (metis mask_eq_exp_minus_1 take_bit_eq_mask take_bit_eq_mod unsigned_take_bit_eq)

lemma unat_u32_less: "unat (x :: u32) < 4294967296"
  using unsigned_less [of x, where 'a = nat] by simp

lemma and_not_mask_unat: "unat ((x :: u32) AND NOT (2 ^ k - 1)) = unat x div 2 ^ k * 2 ^ k"
proof -
  have "x AND NOT (mask k) = push_bit k (drop_bit k x)"
    by (rule bit_word_eqI) (auto simp: bit_simps)
  then have "unat (x AND NOT (mask k)) = take_bit 32 (push_bit k (drop_bit k (unat x)))"
    by (simp only: unsigned_push_bit_eq unsigned_drop_bit_eq) (simp add: take_bit_nat_eq_self unat_u32_less)
  moreover have "unat x div 2 ^ k * 2 ^ k < 2 ^ 32"
    using div_times_less_eq_dividend [of "unat x" "2 ^ k"] unat_u32_less [of x] by (simp, linarith)
  ultimately show ?thesis
    by (simp only: push_bit_eq_mult drop_bit_eq_div take_bit_nat_eq_self mask_eq_exp_minus_1)
qed

lemma unat_align4: "unat x < 4294967293 \<Longrightarrow> unat (align4 x) = (unat x + 3) div 4 * 4"
proof -
  assume "unat x < 4294967293"
  then have "unat (x + 3) = unat x + 3" by (simp add: unat_plus_if')
  then show ?thesis using and_not_mask_unat [of "x + 3" 2] by (simp add: align4_def)
qed

lemma div_ceil:
  assumes "0 < a mod m" "0 < (m :: nat)"
  shows "(a + (m - 1)) div m = a div m + 1"
proof -
  have "a + (m - 1) = (a mod m - 1) + (a div m + 1) * m"
    using div_mult_mod_eq [of a m] assms by (simp add: distrib_right)
  moreover have "(a mod m - 1) div m = 0" using assms by (simp add: less_imp_diff_less)
  ultimately show ?thesis using assms(2) by (simp only: div_mult_self1 not_gr_zero)
qed

text \<open>Where the aligned address lies, for a block at address a that is aligned to 8.\<close>

definition align_up :: "nat \<Rightarrow> nat \<Rightarrow> nat" where
  "align_up a k = (if a mod 2 ^ k = 0 then a + 2 ^ k else (a + (2 ^ k - 1)) div 2 ^ k * 2 ^ k)"

lemma align_up_bounds:
  assumes k: "2 \<le> k" and a: "8 dvd a"
  shows "2 ^ k dvd align_up a k" "a + 4 \<le> align_up a k" "align_up a k \<le> a + 2 ^ k"
proof -
  let ?m = "2 ^ k :: nat"
  show "?m dvd align_up a k" by (auto simp: align_up_def)
  have "a + 4 \<le> align_up a k \<and> align_up a k \<le> a + ?m"
  proof (cases "a mod ?m = 0")
    case True
    moreover have "(4::nat) \<le> ?m" using power_increasing [OF k, of "2::nat"] by simp
    ultimately show ?thesis by (simp add: align_up_def)
  next
    case False
    have "3 < k"
    proof (rule ccontr)
      assume "\<not> 3 < k"
      then have "(2::nat) ^ k dvd 8" using le_imp_power_dvd [of k 3 "2::nat"] by simp
      then show False using a False by (meson dvd_imp_mod_0 dvd_trans)
    qed
    then have m8: "8 dvd ?m" using le_imp_power_dvd [of 3 k "2::nat"] by simp
    have r: "a = a div ?m * ?m + a mod ?m" "a mod ?m < ?m" by (simp_all only: div_mult_mod_eq mod_less_divisor zero_less_numeral zero_less_power)
    have "8 dvd a mod ?m" using a m8 by (simp add: dvd_mod)
    then obtain i j where ij: "a mod ?m = 8 * i" "?m = 8 * j" using m8 by (meson dvdE)
    then have "8 * i < 8 * j" using r(2) by metis
    then have "8 * i + 8 \<le> 8 * j" by simp
    then have gap: "a mod ?m + 8 \<le> ?m" using ij by metis
    have "(a + (?m - 1)) div ?m = a div ?m + 1" using div_ceil [of a ?m] False by simp
    then have "align_up a k = a div ?m * ?m + ?m" using False by (simp add: align_up_def algebra_simps)
    then show ?thesis using r gap by linarith
  qed
  then show "a + 4 \<le> align_up a k" "align_up a k \<le> a + 2 ^ k" by blast+
qed

lemma rt_malloc_align_spec:
  assumes rep: "heap_rep s L" and k: "2 \<le> k" "k < 32" and sz: "unat sz + 2 ^ k < 4294967280"
  shows "\<exists>a t. rt_malloc_align sz (2 ^ k) s = Some (a, t) \<and> (a = 0 \<and> t = s \<or> (\<exists>p q. (p, q) \<notin> L \<and> heap_rep t (insert (p, q) L)
     \<and> 2 ^ k dvd a \<and> heap_ptr s + p + 20 \<le> a \<and> a + unat sz \<le> heap_ptr s + q
     \<and> heap_frame s t \<and> rt_free_align a t = rt_free (heap_ptr s + p + 16) t))"
proof -
  have uk: "unat (2 ^ k :: u32) = 2 ^ k" 
  proof -
    have "(2 ^ k :: u32) = word_of_nat (2 ^ k)" by simp
    moreover have "(2::nat) ^ k < 2 ^ 32" using k(2) by (rule power_strict_increasing) simp
    ultimately show ?thesis by (simp only: unat_of_nat) simp
  qed
  have m4: "4 dvd (2 ^ k :: nat)" using le_imp_power_dvd [OF k(1), of "2::nat"] by simp
  have al: "unat (align4 (2 ^ k)) = 2 ^ k"
    using unat_align4 [of "2 ^ k"] uk m4 sz by (auto elim!: dvdE)
  have "unat (align4 sz) = (unat sz + 3) div 4 * 4" using unat_align4 [of sz] sz by simp
  then have as: "unat sz \<le> unat (align4 sz)" "unat (align4 sz) \<le> unat sz + 3" by linarith+
  let ?n = "unat (align4 sz + align4 (2 ^ k))"
  have n: "?n = unat (align4 sz) + 2 ^ k" using as al sz by (simp add: unat_plus_if')
  obtain p0 t0 where m: "rt_malloc ?n s = Some (p0, t0)" "malloc_result s L ?n p0 t0" using rt_malloc_spec [OF rep] by blast
  show ?thesis
  proof (cases "p0 = 0")
    case True
    then have "rt_malloc_align sz (2 ^ k) s = Some (0, s)" using m by (auto simp: rt_malloc_align_def Let_def malloc_result_def)
    then show ?thesis by blast
  next
    case False
    then obtain p q where pq: "p0 = heap_ptr s + p + 16" "(p, q) \<notin> L" "heap_rep t0 (insert (p, q) L)"
      "p + 16 + block_size ?n \<le> q" "q \<le> heap_end s" and fr: "heap_frame s t0"
      using m(2) unfolding malloc_result_def by blast
    have b: "p0 + ?n \<le> heap_ptr s + q" "heap_ptr s + q < 4294967280" "8 dvd p0"
      using heap_rep_bounds [OF pq(3), of p q] pq(1,4,5) block_size_ge [of ?n] n as sz fr by (auto simp: heap_frame_def)
    let ?w = "word_of_nat p0 :: u32"
    have uw: "unat ?w = p0" using b by (simp add: unat_of_nat)
    let ?a = "if ?w AND (align4 (2 ^ k) - 1) = 0 then ?w + align4 (2 ^ k)
      else (?w + (align4 (2 ^ k) - 1)) AND NOT (align4 (2 ^ k) - 1)"
    have ak: "align4 (2 ^ k) = 2 ^ k" using al uk by (metis word_unat_eq_iff)
    have "?w AND (2 ^ k - 1) = 0 \<longleftrightarrow> p0 mod 2 ^ k = 0" using and_mask_unat [of ?w k] uw by (metis unat_eq_zero)
    moreover have "unat (?w + 2 ^ k) = p0 + 2 ^ k" using uw uk b n as by (simp add: unat_plus_if')
    moreover have "unat (?w + (2 ^ k - 1)) = p0 + (2 ^ k - 1)"
    proof -
      have "unat (2 ^ k - 1 :: u32) = 2 ^ k - 1" using uk by (metis unat_minus_one unat_eq_zero power_not_zero zero_neq_numeral)
      then show ?thesis using uw b n as by (simp add: unat_plus_if')
    qed
    ultimately have ua: "unat ?a = align_up p0 k"
      unfolding ak align_up_def using and_not_mask_unat [of "?w + (2 ^ k - 1)" k] by simp
    note up = align_up_bounds [OF k(1) b(3)]
    have a4: "unat (?a - 4) = align_up p0 k - 4" using ua up(2) by (simp add: unat_sub_if')
    let ?t = "t0\<lparr>cells := st32 (unat (?a - 4)) ?w (cells t0)\<rparr>"
    have "rt_malloc_align sz (2 ^ k) s = Some (align_up p0 k, ?t)"
      using m(1) False ua by (simp add: rt_malloc_align_def Let_def)
    moreover have "rt_free_align (align_up p0 k) ?t = rt_free (heap_ptr s + p + 16) ?t"
      unfolding rt_free_align_def using a4 uw pq(1) by simp
    moreover have "align_up p0 k + unat sz \<le> heap_ptr s + q" using up(3) b(1) n as by simp
    moreover have "heap_ptr s + p + 20 \<le> align_up p0 k" using up(2) pq(1) by simp
    moreover have "heap_frame s ?t" using fr by (simp add: heap_frame_def)
    ultimately show ?thesis using pq(2,3) up(1) by (intro exI conjI disjI2) (assumption | simp)+
  qed
qed

text \<open>rt_strdup on a string returns RT_NULL, or a new region that holds the string and its terminator.\<close>

lemma rt_strdup_spec:
  assumes rep: "heap_rep s L" and c: "cstr (cells s) a xs" and l: "length xs < 4294967288"
    and out: "a + length xs + 1 \<le> heap_ptr s \<or> heap_ptr s + heap_end s \<le> a"
  shows "\<exists>b t. rt_strdup a s = Some (b, t) \<and> (b = 0 \<or> cstr (cells t) b xs)"
proof -
  let ?n = "length xs + 1"
  have n: "add32 (length xs) 1 = ?n" using l by simp
  obtain b t where m: "rt_malloc ?n s = Some (b, t)" "malloc_result s L ?n b t" using rt_malloc_spec [OF rep] by blast
  show ?thesis
  proof (cases "b = 0")
    case True
    then show ?thesis using m strlen_cstr [OF c] n by (simp add: rt_strdup_def Let_def)
  next
    case False
    then obtain p q where pq: "b = heap_ptr s + p + 16" "p + 16 + block_size ?n \<le> q" "q \<le> heap_end s" and ct: "cells t = cells s"
      using m(2) unfolding malloc_result_def by blast
    have "?n \<le> block_size ?n" using block_size_ge [of ?n] l by linarith
    then have "b \<le> a \<or> a + ?n \<le> b" using pq out by linarith
    then have "region (rt_memcpy b a ?n (cells s)) b ?n = region (cells s) a ?n"
      by (simp add: region_def memcpy_at del: upt_Suc)
    then have "cstr (rt_memcpy b a ?n (cells s)) b xs" using c by (simp add: cstr_def)
    then show ?thesis using m(1) False strlen_cstr [OF c] n ct by (simp add: rt_strdup_def Let_def)
  qed
qed

end
