(* ===== verification/Rt_Timer.thy ===== *)
theory Rt_Timer
  imports Cash_Prelude
begin

text \<open>
  The timers of the kernel (src/src/timer.c) and the clock tick (src/src/clock.c). RT_TIMER_SKIP_LIST_LEVEL is 1, so there is
  one row of timers, kept in the order of their timeouts; ticks are 32-bit numbers that wrap. Timers are
  numbers, timer_row is the row from its head on. What the timeout functions do is an argument (cb) of
  rt_timer_check. The counter that chooses the height in the
  skip list has no effect with one row and is left out, as are object names and hooks.
\<close>

abbreviation RT_TICK_MAX :: u32 where "RT_TICK_MAX \<equiv> 0xFFFFFFFF"
abbreviation TICK_HALF :: u32 where "TICK_HALF \<equiv> 0x7FFFFFFF"  \<comment> \<open>RT_TICK_MAX / 2\<close>
abbreviation FLAG_ACTIVATED :: u8 where "FLAG_ACTIVATED \<equiv> 1"
abbreviation FLAG_PERIODIC :: u8 where "FLAG_PERIODIC \<equiv> 2"

record rt_timer =
  tm_flag :: u8
  init_tick :: u32
  timeout_tick :: u32

record timers =
  rt_tick :: u32
  timer_row :: "nat list"
  tmr :: "nat \<Rightarrow> rt_timer"

definition upd_timer :: "nat \<Rightarrow> (rt_timer \<Rightarrow> rt_timer) \<Rightarrow> 'a timers_scheme \<Rightarrow> 'a timers_scheme" where
  "upd_timer x f s = s\<lparr>tmr := (tmr s)(x := f (tmr s x))\<rparr>"

definition activated :: "'a timers_scheme \<Rightarrow> nat \<Rightarrow> bool" where
  "activated s x \<longleftrightarrow> tm_flag (tmr s x) AND FLAG_ACTIVATED \<noteq> 0"

definition clear_active :: "nat \<Rightarrow> 'a timers_scheme \<Rightarrow> 'a timers_scheme" where
  "clear_active x s = upd_timer x (\<lambda>t. t\<lparr>tm_flag := tm_flag t AND NOT FLAG_ACTIVATED\<rparr>) s"

definition periodic :: "'a timers_scheme \<Rightarrow> nat \<Rightarrow> bool" where
  "periodic s x \<longleftrightarrow> tm_flag (tmr s x) AND FLAG_PERIODIC \<noteq> 0"

text \<open>A timer that is initialised is in no row; its links point to itself.\<close>

definition rt_timer_init :: "nat \<Rightarrow> u32 \<Rightarrow> u8 \<Rightarrow> 'a timers_scheme \<Rightarrow> 'a timers_scheme" where
  "rt_timer_init x time flag s =
     upd_timer x (\<lambda>_. \<lparr>tm_flag = flag AND NOT FLAG_ACTIVATED, init_tick = time, timeout_tick = 0\<rparr>) s"

definition timer_remove :: "nat \<Rightarrow> 'a timers_scheme \<Rightarrow> 'a timers_scheme" where
  "timer_remove x s = s\<lparr>timer_row := remove1 x (timer_row s)\<rparr>"

definition rt_timer_detach :: "nat \<Rightarrow> 'a timers_scheme \<Rightarrow> 'a timers_scheme" where
  "rt_timer_detach x s = timer_remove x s"

text \<open>Creation takes the timer from the heap (None: no memory); deletion takes it out of the row and gives it back.\<close>

definition rt_timer_create :: "nat option \<Rightarrow> u32 \<Rightarrow> u8 \<Rightarrow> 'a timers_scheme \<Rightarrow> nat option \<times> 'a timers_scheme" where
  "rt_timer_create mem time flag s = (case mem of None \<Rightarrow> (None, s) | Some x \<Rightarrow> (Some x, rt_timer_init x time flag s))"

definition rt_timer_delete :: "nat \<Rightarrow> 'a timers_scheme \<Rightarrow> 'a timers_scheme" where
  "rt_timer_delete x s = timer_remove x s"

text \<open>The place of a timer in the row: behind all timers that time out earlier or at the same tick.\<close>

fun timer_insert :: "(nat \<Rightarrow> rt_timer) \<Rightarrow> nat \<Rightarrow> nat list \<Rightarrow> nat list" where
  "timer_insert tm x [] = [x]"
| "timer_insert tm x (p # ps) =
     (let d = timeout_tick (tm p) - timeout_tick (tm x) in
      if d = 0 then p # timer_insert tm x ps
      else if d < TICK_HALF then x # p # ps
      else p # timer_insert tm x ps)"

text \<open>The answer is whether the call succeeds (RT_EOK).\<close>

definition rt_timer_start :: "nat \<Rightarrow> 'a timers_scheme \<Rightarrow> (bool \<times> 'a timers_scheme) option" where
  "rt_timer_start x s =
     (if activated s x then Some (False, s)
      else if init_tick (tmr s x) < TICK_HALF then
        (let s1 = upd_timer x (\<lambda>t. t\<lparr>timeout_tick := rt_tick s + init_tick t\<rparr>) s;
             s2 = s1\<lparr>timer_row := timer_insert (tmr s1) x (timer_row s1)\<rparr>
         in Some (True, upd_timer x (\<lambda>t. t\<lparr>tm_flag := tm_flag t OR FLAG_ACTIVATED\<rparr>) s2))
      else None)"

definition rt_timer_stop :: "nat \<Rightarrow> 'a timers_scheme \<Rightarrow> bool \<times> 'a timers_scheme" where
  "rt_timer_stop x s =
     (if activated s x then (True, clear_active x (timer_remove x s))
      else (False, s))"

text \<open>The argument and the answer of rt_timer_control are the tick that arg points to.\<close>

definition rt_timer_control :: "nat \<Rightarrow> u8 \<Rightarrow> u32 \<Rightarrow> 'a timers_scheme \<Rightarrow> u32 \<times> 'a timers_scheme" where
  "rt_timer_control x cmd arg s =
     (if cmd = 1 then (init_tick (tmr s x), s)
      else if cmd = 0 then (arg, upd_timer x (\<lambda>t. t\<lparr>init_tick := arg\<rparr>) s)
      else if cmd = 2 then (arg, upd_timer x (\<lambda>t. t\<lparr>tm_flag := tm_flag t AND NOT FLAG_PERIODIC\<rparr>) s)
      else if cmd = 3 then (arg, upd_timer x (\<lambda>t. t\<lparr>tm_flag := tm_flag t OR FLAG_PERIODIC\<rparr>) s)
      else (arg, s))"

text \<open>One timer that is due: it leaves the row, its function runs, and it starts again if it is periodic.\<close>

definition timer_expire :: "(nat \<Rightarrow> 'a timers_scheme \<Rightarrow> 'a timers_scheme option) \<Rightarrow> nat \<Rightarrow> 'a timers_scheme \<Rightarrow> 'a timers_scheme option" where
  "timer_expire cb x s =
     (case cb x (timer_remove x s) of None \<Rightarrow> None
      | Some s1 \<Rightarrow> (let s2 = clear_active x s1
         in if periodic s1 x \<and> activated s1 x then map_option snd (rt_timer_start x s2) else Some s2))"

partial_function (option) rt_timer_check :: "(nat \<Rightarrow> 'a timers_scheme \<Rightarrow> 'a timers_scheme option) \<Rightarrow> 'a timers_scheme \<Rightarrow> 'a timers_scheme option" where
  "rt_timer_check cb s = (case timer_row s of
     [] \<Rightarrow> Some s
   | x # _ \<Rightarrow> if rt_tick s - timeout_tick (tmr s x) < TICK_HALF
       then Option.bind (timer_expire cb x s) (rt_timer_check cb)
       else Some s)"

definition rt_timer_next_timeout_tick :: "'a timers_scheme \<Rightarrow> u32" where
  "rt_timer_next_timeout_tick s = (case timer_row s of [] \<Rightarrow> RT_TICK_MAX | x # _ \<Rightarrow> timeout_tick (tmr s x))"

definition rt_tick_get :: "'a timers_scheme \<Rightarrow> u32" where
  "rt_tick_get s = rt_tick s"

definition rt_tick_set :: "u32 \<Rightarrow> 'a timers_scheme \<Rightarrow> 'a timers_scheme" where
  "rt_tick_set v s = s\<lparr>rt_tick := v\<rparr>"

definition rt_tick_from_millisecond :: "u32 \<Rightarrow> u32" where
  "rt_tick_from_millisecond ms = (1000 * ms + 999) div 1000"

text \<open>The part of rt_tick_increase that concerns the timers.\<close>

definition tick_timers :: "(nat \<Rightarrow> 'a timers_scheme \<Rightarrow> 'a timers_scheme option) \<Rightarrow> 'a timers_scheme \<Rightarrow> 'a timers_scheme option" where
  "tick_timers cb s = rt_timer_check cb (s\<lparr>rt_tick := rt_tick s + 1\<rparr>)"

section \<open>The invariant of the row\<close>

text \<open>
  rem_at n s x: the ticks from n to the timeout of timer x. The row is in this order, none waits for half of the
  range of ticks or longer, and the timers in the row are active.
\<close>

definition rem_at :: "u32 \<Rightarrow> 'a timers_scheme \<Rightarrow> nat \<Rightarrow> nat" where
  "rem_at n s x = unat (timeout_tick (tmr s x) - n)"

definition ok_at :: "u32 \<Rightarrow> 'a timers_scheme \<Rightarrow> bool" where
  "ok_at n s \<longleftrightarrow> distinct (timer_row s) \<and> sorted (map (rem_at n s) (timer_row s))
     \<and> (\<forall>x\<in>set (timer_row s). rem_at n s x < 0x7FFFFFFF) \<and> (\<forall>x\<in>set (timer_row s). activated s x)"

abbreviation remaining :: "'a timers_scheme \<Rightarrow> nat \<Rightarrow> nat" where
  "remaining s \<equiv> rem_at (rt_tick s) s"

abbreviation timers_ok :: "'a timers_scheme \<Rightarrow> bool" where
  "timers_ok s \<equiv> ok_at (rt_tick s) s"

text \<open>The function that only notes which timers have fired.\<close>

record fired_log = timers +
  fired :: "nat list"

definition note_fired :: "nat \<Rightarrow> fired_log \<Rightarrow> fired_log option" where
  "note_fired x s = Some (s\<lparr>fired := fired s @ [x]\<rparr>)"

lemma upd_timer_simps [simp]:
  "rt_tick (upd_timer x f s) = rt_tick s" "timer_row (upd_timer x f s) = timer_row s" "timers.more (upd_timer x f s) = timers.more s"
  "tmr (upd_timer x f s) y = (if y = x then f (tmr s x) else tmr s y)"
  by (simp_all add: upd_timer_def)

lemma flag_simps [simp]:
  "((f :: u8) AND NOT 1) AND 1 = 0" "(f OR 1) AND 1 \<noteq> 0" "(f AND NOT 1) AND 2 = f AND 2" "(f OR 1) AND 2 = f AND 2"
proof -
  show "(f AND NOT 1) AND 1 = 0" "(f AND NOT 1) AND 2 = f AND 2" "(f OR 1) AND 2 = f AND 2"
    by (rule bit_word_eqI, auto simp: bit_simps bit_1_iff bit_2_iff)+
  have "bit ((f OR 1) AND 1) 0" by (simp add: bit_simps)
  then show "(f OR 1) AND 1 \<noteq> 0" by (metis bit_0_eq bot_apply bot_bool_def)
qed

text \<open>The comparison of rt_timer_start tells which of two waiting timers is later.\<close>

lemma later_iff:
  fixes a b t :: u32
  assumes "unat (a - t) < 0x7FFFFFFF" "unat (b - t) < 0x7FFFFFFF"
  shows "a - b \<noteq> 0 \<and> a - b < TICK_HALF \<longleftrightarrow> unat (b - t) < unat (a - t)"
proof -
  have e: "(a - t) - (b - t) = a - b" by simp
  have "unat (a - b) = (if unat (b - t) \<le> unat (a - t) then unat (a - t) - unat (b - t)
      else unat (a - t) + 4294967296 - unat (b - t))"
    using unat_sub_if' [of "a - t" "b - t"] unfolding e by simp
  then show ?thesis using assms by (auto simp: word_less_nat_alt unat_eq_zero [symmetric] simp del: unat_eq_zero)
qed

lemma later_eq:
  fixes a b t :: u32
  assumes "unat (a - t) < 0x7FFFFFFF" "unat (b - t) < 0x7FFFFFFF"
  shows "a - b = 0 \<longleftrightarrow> unat (a - t) = unat (b - t)"
  by (metis diff_add_cancel diff_self eq_iff_diff_eq_0 word_unat_eq_iff)

lemma timer_insert_split:
  assumes "\<forall>p\<in>set ps. unat (timeout_tick (tm p) - n) < 0x7FFFFFFF" "unat (timeout_tick (tm x) - n) < 0x7FFFFFFF"
  shows "timer_insert tm x ps = takeWhile (\<lambda>p. unat (timeout_tick (tm p) - n) \<le> unat (timeout_tick (tm x) - n)) ps
    @ x # dropWhile (\<lambda>p. unat (timeout_tick (tm p) - n) \<le> unat (timeout_tick (tm x) - n)) ps"
  using assms(1)
proof (induction ps)
  case (Cons p ps)
  then have p: "unat (timeout_tick (tm p) - n) < 0x7FFFFFFF" by simp
  show ?case
    using Cons later_iff [OF p assms(2)] later_eq [OF p assms(2)] by (auto simp: Let_def)
qed simp

lemma sorted_insert:
  "sorted (map f ps) \<Longrightarrow> sorted (map f (takeWhile (\<lambda>p. f p \<le> (k::nat)) ps @ x # dropWhile (\<lambda>p. f p \<le> k) ps))"
  if "f x = k"
  using that
proof (induction ps)
  case (Cons p ps)
  then show ?case by (auto dest: set_takeWhileD set_dropWhileD)
qed simp

lemma activated_upd [simp]:
  "activated (upd_timer x f s) y \<longleftrightarrow> (if y = x then tm_flag (f (tmr s x)) AND 1 \<noteq> 0 else activated s y)"
  "periodic (upd_timer x f s) y \<longleftrightarrow> (if y = x then tm_flag (f (tmr s x)) AND 2 \<noteq> 0 else periodic s y)"
  by (simp_all add: activated_def periodic_def)

lemma mask_simps [simp]:
  "((f :: u8) AND - 2) AND 1 = 0" "(f AND - 2) AND 2 = f AND 2"
  using flag_simps(1,3) [of f] by simp_all

lemma rem_at_upd [simp]:
  "rem_at n (upd_timer x f s) y = (if y = x then unat (timeout_tick (f (tmr s x)) - n) else rem_at n s y)"
  by (simp add: rem_at_def)

lemma row_upd [simp]:
  "activated (s\<lparr>timer_row := r\<rparr>) = activated s" "periodic (s\<lparr>timer_row := r\<rparr>) = periodic s" "rem_at n (s\<lparr>timer_row := r\<rparr>) = rem_at n s"
  "activated (s\<lparr>rt_tick := k\<rparr>) = activated s" "periodic (s\<lparr>rt_tick := k\<rparr>) = periodic s" "rem_at n (s\<lparr>rt_tick := k\<rparr>) = rem_at n s"
  by (simp_all add: activated_def periodic_def rem_at_def fun_eq_iff)

text \<open>Starting a timer puts it behind all that time out no later, seen from tick n.\<close>

lemma rt_timer_start_at:
  assumes ok: "ok_at n s" and x: "\<not> activated s x" and i: "init_tick (tmr s x) < TICK_HALF"
    and r: "unat (rt_tick s + init_tick (tmr s x) - n) = r" "r < 0x7FFFFFFF"
  shows "\<exists>t. rt_timer_start x s = Some (True, t) \<and> ok_at n t \<and> rt_tick t = rt_tick s \<and> timers.more t = timers.more s
    \<and> timer_row t = takeWhile (\<lambda>p. rem_at n s p \<le> r) (timer_row s) @ x # dropWhile (\<lambda>p. rem_at n s p \<le> r) (timer_row s)
    \<and> (\<forall>y. rem_at n t y = (if y = x then r else rem_at n s y))
    \<and> (\<forall>y. init_tick (tmr t y) = init_tick (tmr s y) \<and> periodic t y = periodic s y)"
proof -
  let ?s1 = "upd_timer x (\<lambda>t. t\<lparr>timeout_tick := rt_tick s + init_tick t\<rparr>) s"
  let ?t = "upd_timer x (\<lambda>t. t\<lparr>tm_flag := tm_flag t OR FLAG_ACTIVATED\<rparr>)
     (?s1\<lparr>timer_row := timer_insert (tmr ?s1) x (timer_row ?s1)\<rparr>)"
  have nx: "x \<notin> set (timer_row s)" using ok x by (auto simp: ok_at_def)
  have small: "\<forall>p\<in>set (timer_row s). unat (timeout_tick (tmr ?s1 p) - n) < 0x7FFFFFFF"
    using ok nx by (auto simp: ok_at_def rem_at_def)
  have rx: "unat (timeout_tick (tmr ?s1 x) - n) = r" using r(1) by simp
  have eq: "unat (timeout_tick (tmr ?s1 p) - n) = rem_at n s p" if "p \<in> set (timer_row s)" for p
    using that nx by (auto simp: rem_at_def)
  have tw: "takeWhile (\<lambda>p. unat (timeout_tick (tmr ?s1 p) - n) \<le> r) (timer_row s) = takeWhile (\<lambda>p. rem_at n s p \<le> r) (timer_row s)"
    by (rule takeWhile_cong [OF refl]) (simp only: eq)
  have dw: "dropWhile (\<lambda>p. unat (timeout_tick (tmr ?s1 p) - n) \<le> r) (timer_row s) = dropWhile (\<lambda>p. rem_at n s p \<le> r) (timer_row s)"
    by (rule dropWhile_cong [OF refl]) (simp only: eq)
  have "timer_row ?t = timer_insert (tmr ?s1) x (timer_row s)"
    by (rule trans [OF upd_timer_simps(2)]) simp
  also have "\<dots> = takeWhile (\<lambda>p. rem_at n s p \<le> r) (timer_row s) @ x # dropWhile (\<lambda>p. rem_at n s p \<le> r) (timer_row s)"
    using timer_insert_split [OF small, of x] r(2) unfolding rx tw dw by (simp only: simp_thms)
  finally have row: "timer_row ?t = takeWhile (\<lambda>p. rem_at n s p \<le> r) (timer_row s) @ x # dropWhile (\<lambda>p. rem_at n s p \<le> r) (timer_row s)" .
  have rem: "rem_at n ?t y = (if y = x then r else rem_at n s y)" for y using rx by (simp add: rem_at_def)
  have set: "set (timer_row ?t) = insert x (set (timer_row s))"
    unfolding row by (metis set_append list.simps(15) Un_insert_right takeWhile_dropWhile_id)
  have "distinct (timer_row ?t)"
  proof -
    have "distinct (takeWhile (\<lambda>p. rem_at n s p \<le> r) (timer_row s) @ dropWhile (\<lambda>p. rem_at n s p \<le> r) (timer_row s))"
      using ok by (simp only: takeWhile_dropWhile_id ok_at_def)
    then show ?thesis unfolding row distinct_append using nx by (auto dest: set_takeWhileD set_dropWhileD)
  qed
  moreover have "sorted (map (rem_at n ?t) (timer_row ?t))"
  proof -
    let ?f = "\<lambda>y. if y = x then r else rem_at n s y"
    have "map ?f (timer_row s) = map (rem_at n s) (timer_row s)" using nx by auto
    then have m: "sorted (map ?f (timer_row s))" using ok by (simp only: ok_at_def)
    have w: "takeWhile (\<lambda>p. rem_at n s p \<le> r) (timer_row s) = takeWhile (\<lambda>p. ?f p \<le> r) (timer_row s)"
      "dropWhile (\<lambda>p. rem_at n s p \<le> r) (timer_row s) = dropWhile (\<lambda>p. ?f p \<le> r) (timer_row s)"
      using nx by (auto intro: takeWhile_cong dropWhile_cong)
    have f: "rem_at n ?t = ?f" using rem by auto
    have "sorted (map ?f (takeWhile (\<lambda>p. ?f p \<le> r) (timer_row s) @ x # dropWhile (\<lambda>p. ?f p \<le> r) (timer_row s)))"
      by (rule sorted_insert) (use m in simp_all)
    then show ?thesis unfolding row w f .
  qed
  moreover have "\<forall>y\<in>set (timer_row ?t). rem_at n ?t y < 0x7FFFFFFF" unfolding set using ok r(2) rem by (auto simp: ok_at_def)
  moreover have "\<forall>y\<in>set (timer_row ?t). activated ?t y" unfolding set using ok by (auto simp: ok_at_def)
  ultimately have "ok_at n ?t" unfolding ok_at_def by blast
  moreover have "rt_timer_start x s = Some (True, ?t)" using x i by (simp add: rt_timer_start_def Let_def)
  moreover have "\<forall>y. init_tick (tmr ?t y) = init_tick (tmr s y) \<and> periodic ?t y = periodic s y" by (auto simp: periodic_def)
  moreover have "rt_tick ?t = rt_tick s" "timers.more ?t = timers.more s" by simp_all
  moreover have "\<forall>y. rem_at n ?t y = (if y = x then r else rem_at n s y)" using rem by blast
  ultimately show ?thesis using row by (intro exI [of _ ?t] conjI)
qed

text \<open>A timer is due at the tick after n exactly if, seen from n, at most one tick was left.\<close>

lemma due_iff:
  assumes "rt_tick s = n + 1" "rem_at n s x < 0x7FFFFFFF"
  shows "rt_tick s - timeout_tick (tmr s x) < TICK_HALF \<longleftrightarrow> rem_at n s x \<le> 1"
proof -
  define m where "m = timeout_tick (tmr s x) - n"
  have e: "rt_tick s - timeout_tick (tmr s x) = 1 - m" using assms(1) by (simp add: m_def)
  have "unat (1 - m) = (if unat m \<le> 1 then 1 - unat m else 1 + 4294967296 - unat m)"
    using unat_sub_if' [of 1 m] by simp
  then show ?thesis using assms(2) unfolding e by (auto simp: word_less_nat_alt rem_at_def m_def [symmetric])
qed

lemma rem_at_next:
  assumes "1 \<le> rem_at n s x" shows "rem_at (n + 1) s x = rem_at n s x - 1"
proof -
  have "unat (timeout_tick (tmr s x) - n - 1) = unat (timeout_tick (tmr s x) - n) - 1"
    using assms by (subst unat_sub) (auto simp: word_le_nat_alt rem_at_def)
  then show ?thesis by (simp add: rem_at_def diff_diff_eq)
qed

definition restarts :: "'a timers_scheme \<Rightarrow> bool" where
  "restarts s \<longleftrightarrow> (\<forall>x. periodic s x \<longrightarrow> 0 < init_tick (tmr s x) \<and> init_tick (tmr s x) < 0x7FFFFFFE)"

lemma clear_active_simps [simp]:
  "rt_tick (clear_active x s) = rt_tick s" "timer_row (clear_active x s) = timer_row s" "timers.more (clear_active x s) = timers.more s"
  "activated (clear_active x s) y \<longleftrightarrow> y \<noteq> x \<and> activated s y" "periodic (clear_active x s) y = periodic s y"
  "rem_at n (clear_active x s) y = rem_at n s y" "init_tick (tmr (clear_active x s) y) = init_tick (tmr s y)"
  by (auto simp: clear_active_def periodic_def rem_at_def)

lemma timer_remove_simps [simp]:
  "rt_tick (timer_remove x s) = rt_tick s" "timer_row (timer_remove x s) = remove1 x (timer_row s)" "tmr (timer_remove x s) = tmr s"
  "timers.more (timer_remove x s) = timers.more s" "activated (timer_remove x s) = activated s" "periodic (timer_remove x s) = periodic s"
  "rem_at n (timer_remove x s) = rem_at n s"
  by (simp_all add: timer_remove_def)

lemma takeWhile_insert_later:
  assumes "\<And>p. q p \<Longrightarrow> q' p" "\<not> q x"
  shows "takeWhile q (takeWhile q' xs @ x # dropWhile q' xs) = takeWhile q xs"
  using assms by (induction xs) auto

text \<open>
  What the timers may rely on of the functions they call (cb): such a function leaves the timers alone. good xs s
  states what else is known of the state when the functions of xs have run; the functions, and a restart, keep it.
\<close>

locale timeout_functions =
  fixes cb :: "nat \<Rightarrow> 'a timers_scheme \<Rightarrow> 'a timers_scheme option" and good :: "nat list \<Rightarrow> 'a timers_scheme \<Rightarrow> bool"
  assumes call: "good xs s \<Longrightarrow> timer_row s = x # r \<Longrightarrow> activated s x \<Longrightarrow> x \<notin> set r \<Longrightarrow>
      \<exists>u. cb x (timer_remove x s) = Some u \<and> rt_tick u = rt_tick s \<and> timer_row u = r \<and> tmr u = tmr s \<and> good (xs @ [x]) (clear_active x u)"
    and restart: "good xs s \<Longrightarrow> \<not> activated s x \<Longrightarrow> periodic s x \<Longrightarrow> rt_timer_start x s = Some (True, t) \<Longrightarrow>
      timers.more t = timers.more s \<Longrightarrow> good xs t"
begin

lemma timer_expire_at:
  assumes ok: "ok_at n s" and n: "rt_tick s = n + 1" and row: "timer_row s = x # r" and p: "restarts s" and g: "good xs s"
  shows "\<exists>t. timer_expire cb x s = Some t \<and> ok_at n t \<and> rt_tick t = rt_tick s \<and> good (xs @ [x]) t
    \<and> takeWhile (\<lambda>p. rem_at n t p \<le> 1) (timer_row t) = takeWhile (\<lambda>p. rem_at n s p \<le> 1) r
    \<and> set (timer_row t) = set r \<union> (if periodic s x then {x} else {})
    \<and> (\<forall>y. rem_at n t y = (if y = x \<and> periodic s x then unat (init_tick (tmr s x)) + 1 else rem_at n s y))
    \<and> (\<forall>y. init_tick (tmr t y) = init_tick (tmr s y) \<and> periodic t y = periodic s y)"
proof -
  have a: "activated s x" and nr: "x \<notin> set r" using ok row by (auto simp: ok_at_def)
  obtain v where c: "cb x (timer_remove x s) = Some v" and v: "rt_tick v = rt_tick s" "timer_row v = r" "tmr v = tmr s"
    and gv: "good (xs @ [x]) (clear_active x v)"
    using call [OF g row a nr] by blast
  let ?s2 = "clear_active x v"
  have av: "activated v = activated s" "periodic v = periodic s" "rem_at n v = rem_at n s"
    using v(3) by (simp_all add: activated_def periodic_def rem_at_def fun_eq_iff)
  have r2: "timer_row ?s2 = r" using v by simp
  have rem2: "rem_at n ?s2 y = rem_at n s y" for y by (simp add: av)
  have ok2: "ok_at n ?s2"
  proof -
    have "rem_at n ?s2 = rem_at n s" using rem2 by blast
    then show ?thesis unfolding ok_at_def r2 using ok row nr by (auto simp: ok_at_def av)
  qed
  have same2: "\<forall>y. init_tick (tmr ?s2 y) = init_tick (tmr s y) \<and> periodic ?s2 y = periodic s y" by (simp add: av v)
  show ?thesis
  proof (cases "periodic s x")
    case False
    then have "timer_expire cb x s = Some ?s2" using c by (simp add: timer_expire_def Let_def av)
    moreover have "rt_tick ?s2 = rt_tick s" using v by simp
    moreover have "\<forall>y. rem_at n ?s2 y = (if y = x \<and> periodic s x then unat (init_tick (tmr s x)) + 1 else rem_at n s y)"
      using False rem2 by (simp only:) simp
    moreover have "takeWhile (\<lambda>p. rem_at n ?s2 p \<le> 1) (timer_row ?s2) = takeWhile (\<lambda>p. rem_at n s p \<le> 1) r"
      unfolding r2 rem2 ..
    moreover have "set (timer_row ?s2) = set r \<union> (if periodic s x then {x} else {})" unfolding r2 using False by simp
    ultimately show ?thesis using ok2 same2 gv by (intro exI [of _ ?s2] conjI)
  next
    case True
    then have i: "0 < init_tick (tmr s x)" "init_tick (tmr s x) < 0x7FFFFFFE" using p by (auto simp: restarts_def)
    let ?k = "unat (init_tick (tmr s x)) + 1"
    have k: "1 < ?k" "?k < 0x7FFFFFFF" using i by (simp_all add: word_less_nat_alt)
    have "unat (init_tick (tmr s x) + 1) = ?k" using k by (subst unat_add_lem [THEN iffD1]) simp_all
    then have u: "unat (rt_tick ?s2 + init_tick (tmr ?s2 x) - n) = ?k" using n v by (simp add: add.commute)
    have h: "init_tick (tmr ?s2 x) < TICK_HALF" "\<not> activated ?s2 x" using i v by (simp_all add: word_less_nat_alt)
    obtain t where t: "rt_timer_start x ?s2 = Some (True, t)" "ok_at n t" "rt_tick t = rt_tick ?s2" "timers.more t = timers.more ?s2"
      and rowt: "timer_row t = takeWhile (\<lambda>p. rem_at n ?s2 p \<le> ?k) (timer_row ?s2) @ x # dropWhile (\<lambda>p. rem_at n ?s2 p \<le> ?k) (timer_row ?s2)"
      and remt: "\<forall>y. rem_at n t y = (if y = x then ?k else rem_at n ?s2 y)"
      and same: "\<forall>y. init_tick (tmr t y) = init_tick (tmr ?s2 y) \<and> periodic t y = periodic ?s2 y"
      using rt_timer_start_at [OF ok2 h(2,1) u k(2)] by blast
    have remt': "rem_at n t y = (if y = x then ?k else rem_at n s y)" for y
      using remt [rule_format, of y] unfolding rem2 .
    have e: "timer_expire cb x s = Some t" using True a c t(1) by (simp add: timer_expire_def Let_def av)
    have "good (xs @ [x]) t" by (rule restart [OF gv h(2) _ t(1,4)]) (simp add: av True)
    have tw: "takeWhile (\<lambda>p. rem_at n t p \<le> 1) (timer_row t) = takeWhile (\<lambda>p. rem_at n s p \<le> 1) r"
    proof -
      have "takeWhile (\<lambda>p. rem_at n t p \<le> 1) (timer_row t) = takeWhile (\<lambda>p. rem_at n t p \<le> 1) r"
        unfolding rowt r2 rem2 by (rule takeWhile_insert_later) (use k remt' in \<open>auto split: if_splits\<close>)
      also have "\<dots> = takeWhile (\<lambda>p. rem_at n s p \<le> 1) r"
        by (rule takeWhile_cong [OF refl]) (use nr remt' in auto)
      finally show ?thesis .
    qed
    have set: "set (timer_row t) = set r \<union> (if periodic s x then {x} else {})"
    proof -
      have "set (a @ x # b) = set (a @ b) \<union> {x}" for a b by simp
      then show ?thesis unfolding rowt r2 rem2 using True by (simp only: takeWhile_dropWhile_id if_True)
    qed
    have "rt_tick t = rt_tick s" using t v by simp
    moreover have "\<forall>y. rem_at n t y = (if y = x \<and> periodic s x then ?k else rem_at n s y)" using remt' True by simp
    moreover have "\<forall>y. init_tick (tmr t y) = init_tick (tmr s y) \<and> periodic t y = periodic s y"
      using same same2 by presburger
    ultimately show ?thesis using e t(2) tw set \<open>good (xs @ [x]) t\<close> by blast
  qed
qed

lemma rt_timer_check_at:
  assumes "ok_at n s" "rt_tick s = n + 1" "restarts s" "takeWhile (\<lambda>p. rem_at n s p \<le> 1) (timer_row s) = due" "good xs s"
  shows "\<exists>t. rt_timer_check cb s = Some t \<and> ok_at n t \<and> rt_tick t = rt_tick s \<and> good (xs @ due) t
    \<and> takeWhile (\<lambda>p. rem_at n t p \<le> 1) (timer_row t) = []
    \<and> set (timer_row t) = {x \<in> set (timer_row s). x \<in> set due \<longrightarrow> periodic s x}
    \<and> (\<forall>y. rem_at n t y = (if y \<in> set due \<and> periodic s y then unat (init_tick (tmr s y)) + 1 else rem_at n s y))
    \<and> (\<forall>y. init_tick (tmr t y) = init_tick (tmr s y) \<and> periodic t y = periodic s y)"
  using assms
proof (induction due arbitrary: s xs)
  case Nil
  have "rt_timer_check cb s = Some s"
  proof (cases "timer_row s")
    case (Cons x r)
    then have "1 < rem_at n s x" "rem_at n s x < 0x7FFFFFFF" using Nil by (auto simp: ok_at_def split: if_splits)
    then show ?thesis using due_iff [OF Nil.prems(2)] Cons by (simp add: rt_timer_check.simps)
  qed (simp add: rt_timer_check.simps)
  then show ?case using Nil by (intro exI [of _ s]) simp
next
  case (Cons x due)
  then obtain r where row: "timer_row s = x # r" and x: "rem_at n s x \<le> 1"
    and due: "takeWhile (\<lambda>p. rem_at n s p \<le> 1) r = due"
    by (cases "timer_row s") (auto split: if_splits)
  have small: "rem_at n s x < 0x7FFFFFFF" and d: "distinct (x # r)" using Cons.prems(1) row by (auto simp: ok_at_def)
  obtain u where e: "timer_expire cb x s = Some u" and u: "ok_at n u" "rt_tick u = rt_tick s" "good (xs @ [x]) u"
    and tw: "takeWhile (\<lambda>p. rem_at n u p \<le> 1) (timer_row u) = due"
    and su: "set (timer_row u) = set r \<union> (if periodic s x then {x} else {})"
    and ru: "\<forall>y. rem_at n u y = (if y = x \<and> periodic s x then unat (init_tick (tmr s x)) + 1 else rem_at n s y)"
    and pu: "\<forall>y. init_tick (tmr u y) = init_tick (tmr s y) \<and> periodic u y = periodic s y"
    using timer_expire_at [OF Cons.prems(1,2) row Cons.prems(3,5)] unfolding due by blast
  have "restarts u" using Cons.prems(3) pu by (simp add: restarts_def)
  then obtain t where t: "rt_timer_check cb u = Some t" "ok_at n t" "rt_tick t = rt_tick u" "good ((xs @ [x]) @ due) t"
    "takeWhile (\<lambda>p. rem_at n t p \<le> 1) (timer_row t) = []"
    and st: "set (timer_row t) = {x \<in> set (timer_row u). x \<in> set due \<longrightarrow> periodic u x}"
    and rt: "\<forall>y. rem_at n t y = (if y \<in> set due \<and> periodic u y then unat (init_tick (tmr u y)) + 1 else rem_at n u y)"
    and pt: "\<forall>y. init_tick (tmr t y) = init_tick (tmr u y) \<and> periodic t y = periodic u y"
    using Cons.IH [OF u(1) _ _ tw u(3)] Cons.prems(2) u(2) by auto
  have c: "rt_timer_check cb s = Some t"
    using row e t(1) due_iff [OF Cons.prems(2) small] x by (subst rt_timer_check.simps) simp
  have nd: "x \<notin> set due" using d due by (auto dest: set_takeWhileD)
  have "set (timer_row t) = {y \<in> set (timer_row s). y \<in> set (x # due) \<longrightarrow> periodic s y}"
    unfolding st su using row nd pu d by auto
  moreover have "\<forall>y. rem_at n t y = (if y \<in> set (x # due) \<and> periodic s y then unat (init_tick (tmr s y)) + 1 else rem_at n s y)"
    using rt ru pu nd by auto
  moreover have "\<forall>y. init_tick (tmr t y) = init_tick (tmr s y) \<and> periodic t y = periodic s y" using pt pu by simp
  ultimately show ?case using c t u by (intro exI [of _ t]) simp
qed

end

lemma filter_sorted: "sorted (map f xs) \<Longrightarrow> filter (\<lambda>p. f p \<le> (k::nat)) xs = takeWhile (\<lambda>p. f p \<le> k) xs"
proof (induction xs)
  case (Cons a xs)
  then show ?case by (cases xs) (auto simp: filter_empty_conv)
qed simp

text \<open>One tick: those that have at most one tick left fire, in order; the others wait one tick less.\<close>

context timeout_functions begin

lemma tick_timers_spec:
  assumes ok: "timers_ok s" and p: "restarts s" and g: "good xs (s\<lparr>rt_tick := rt_tick s + 1\<rparr>)"
  shows "\<exists>t. tick_timers cb s = Some t \<and> timers_ok t \<and> restarts t \<and> rt_tick t = rt_tick s + 1
    \<and> good (xs @ filter (\<lambda>x. remaining s x \<le> 1) (timer_row s)) t
    \<and> set (timer_row t) = {x \<in> set (timer_row s). remaining s x \<le> 1 \<longrightarrow> periodic s x}
    \<and> (\<forall>x\<in>set (timer_row t). remaining t x = (if remaining s x \<le> 1 then unat (init_tick (tmr s x)) else remaining s x - 1))
    \<and> (\<forall>x. init_tick (tmr t x) = init_tick (tmr s x) \<and> periodic t x = periodic s x)"
proof -
  let ?n = "rt_tick s" and ?s = "s\<lparr>rt_tick := rt_tick s + 1\<rparr>"
  let ?due = "filter (\<lambda>x. remaining s x \<le> 1) (timer_row s)"
  have ok': "ok_at ?n ?s" using ok by (simp add: ok_at_def)
  have p': "restarts ?s" using p by (simp add: restarts_def)
  have due: "takeWhile (\<lambda>x. rem_at ?n ?s x \<le> 1) (timer_row ?s) = ?due"
    using ok by (subst filter_sorted) (simp_all add: ok_at_def)
  obtain t where t: "rt_timer_check cb ?s = Some t" "ok_at ?n t" "rt_tick t = rt_tick ?s" "good (xs @ ?due) t"
    and tw: "takeWhile (\<lambda>p. rem_at ?n t p \<le> 1) (timer_row t) = []"
    and st: "set (timer_row t) = {x \<in> set (timer_row ?s). x \<in> set ?due \<longrightarrow> periodic ?s x}"
    and rt: "\<forall>y. rem_at ?n t y = (if y \<in> set ?due \<and> periodic ?s y then unat (init_tick (tmr ?s y)) + 1 else rem_at ?n ?s y)"
    and pt: "\<forall>y. init_tick (tmr t y) = init_tick (tmr ?s y) \<and> periodic t y = periodic ?s y"
    using rt_timer_check_at [OF ok' _ p' due g] by auto
  have later: "\<forall>x\<in>set (timer_row t). 1 < rem_at ?n t x"
  proof -
    have "filter (\<lambda>p. rem_at ?n t p \<le> 1) (timer_row t) = []" using t(2) tw by (subst filter_sorted) (simp_all add: ok_at_def)
    then show ?thesis by (auto simp: filter_empty_conv not_le)
  qed
  have nx: "remaining t x = rem_at ?n t x - 1" if "x \<in> set (timer_row t)" for x
    using rem_at_next [of ?n t x] later that t(3) by force
  have "sorted (map (remaining t) (timer_row t))"
  proof -
    have "map (remaining t) (timer_row t) = map (\<lambda>k. k - 1) (map (rem_at ?n t) (timer_row t))" using nx by simp
    moreover have "sorted (map (\<lambda>k. k - 1) ks)" if "sorted ks" for ks :: "nat list"
      using that by (induction ks) (auto intro: diff_le_mono)
    ultimately show ?thesis using t(2) by (simp only: ok_at_def)
  qed
  then have "timers_ok t" using t(2) nx by (auto simp: ok_at_def intro: less_imp_diff_less)
  moreover have "restarts t" using p pt by (simp add: restarts_def)
  moreover have "\<forall>x\<in>set (timer_row t). remaining t x = (if remaining s x \<le> 1 then unat (init_tick (tmr s x)) else remaining s x - 1)"
    using nx rt st by (auto simp: rem_at_def)
  ultimately show ?thesis using t st pt by (intro exI [of _ t]) (auto simp: tick_timers_def)
qed

end

lemma fired_more: "timers.more t = timers.more s \<Longrightarrow> fired t = fired s"
  by (cases s; cases t) simp

lemma fired_upd [simp]: "activated (fired_update f s) = activated s" "periodic (fired_update f s) = periodic s"
  by (simp_all add: fun_eq_iff activated_def periodic_def)

interpretation fired_note: timeout_functions note_fired "\<lambda>xs s. fired s = fs @ xs" for fs
proof unfold_locales
  fix xs x r and s :: fired_log
  assume "fired s = fs @ xs" "timer_row s = x # r" "activated s x" "x \<notin> set r"
  then show "\<exists>u. note_fired x (timer_remove x s) = Some u \<and> rt_tick u = rt_tick s \<and> timer_row u = r \<and> tmr u = tmr s \<and>
      fired (clear_active x u) = fs @ xs @ [x]"
    by (simp add: note_fired_def timer_remove_def clear_active_def upd_timer_def)
next
  fix xs x and s t :: fired_log
  assume "fired s = fs @ xs" "timers.more t = timers.more s"
  then show "fired t = fs @ xs" using fired_more [of t s] by metis
qed

fun ticks :: "nat \<Rightarrow> fired_log \<Rightarrow> fired_log option" where
  "ticks 0 s = Some s"
| "ticks (Suc n) s = Option.bind (tick_timers note_fired s) (ticks n)"

lemma count_fired:
  assumes "timers_ok s"
  shows "count_list (filter P (timer_row s)) x = (if x \<in> set (timer_row s) \<and> P x then 1 else 0)"
proof -
  have "count_list xs x = (if x \<in> set xs then 1 else 0)" if "distinct xs" for xs
    using that by (induction xs) auto
  then show ?thesis using assms by (simp add: ok_at_def)
qed

lemma ticks_fire:
  assumes "timers_ok s" "restarts s"
  shows "\<exists>t. ticks n s = Some t \<and> timers_ok t \<and> rt_tick t = rt_tick s + of_nat n
    \<and> (x \<notin> set (timer_row s) \<longrightarrow> count_list (fired t) x = count_list (fired s) x)
    \<and> (x \<in> set (timer_row s) \<and> 0 < remaining s x \<longrightarrow> count_list (fired t) x = count_list (fired s) x +
        (if n < remaining s x then 0 else if periodic s x then 1 + (n - remaining s x) div unat (init_tick (tmr s x)) else 1))"
  using assms
proof (induction n arbitrary: s)
  case (Suc n)
  let ?i = "unat (init_tick (tmr s x))"
  obtain u where u: "tick_timers note_fired s = Some u" "timers_ok u" "restarts u" "rt_tick u = rt_tick s + 1"
    and fu: "fired u = fired s @ filter (\<lambda>x. remaining s x \<le> 1) (timer_row s)"
    and su: "set (timer_row u) = {x \<in> set (timer_row s). remaining s x \<le> 1 \<longrightarrow> periodic s x}"
    and ru: "\<forall>x\<in>set (timer_row u). remaining u x = (if remaining s x \<le> 1 then unat (init_tick (tmr s x)) else remaining s x - 1)"
    and pu: "\<forall>x. init_tick (tmr u x) = init_tick (tmr s x) \<and> periodic u x = periodic s x"
    using fired_note.tick_timers_spec [OF Suc.prems, of "fired s" "[]"] by auto
  obtain t where t: "ticks n u = Some t" "timers_ok t" "rt_tick t = rt_tick u + of_nat n"
    and out: "x \<notin> set (timer_row u) \<longrightarrow> count_list (fired t) x = count_list (fired u) x"
    and inn: "x \<in> set (timer_row u) \<and> 0 < remaining u x \<longrightarrow> count_list (fired t) x = count_list (fired u) x +
        (if n < remaining u x then 0 else if periodic u x then 1 + (n - remaining u x) div unat (init_tick (tmr u x)) else 1)"
    using Suc.IH [OF u(2,3)] by blast
  have c: "count_list (fired u) x = count_list (fired s) x + (if x \<in> set (timer_row s) \<and> remaining s x \<le> 1 then 1 else 0)"
    unfolding fu count_list_append count_fired [OF Suc.prems(1)] ..
  have "count_list (fired t) x = count_list (fired s) x +
      (if Suc n < remaining s x then 0 else if periodic s x then 1 + (Suc n - remaining s x) div ?i else 1)"
    if x: "x \<in> set (timer_row s)" "0 < remaining s x"
  proof (cases "remaining s x \<le> 1")
    case False
    then have "x \<in> set (timer_row u)" "remaining u x = remaining s x - 1" using x su ru by auto
    then show ?thesis using inn c False pu by (auto simp: Suc_diff_le)
  next
    case True
    then have one: "remaining s x = 1" using x by simp
    show ?thesis
    proof (cases "periodic s x")
      case False
      then show ?thesis using out c su x one by simp
    next
      case per: True
      then have i: "0 < ?i" using Suc.prems(2) by (simp add: restarts_def word_less_nat_alt)
      have "x \<in> set (timer_row u)" "remaining u x = ?i" using x su ru per one by auto
      then have "count_list (fired t) x = count_list (fired s) x + 1 + (if n < ?i then 0 else 1 + (n - ?i) div ?i)"
        using inn c i per pu x one by simp
      also have "(if n < ?i then 0 else 1 + (n - ?i) div ?i) = n div ?i" using i by (simp add: le_div_geq)
      finally show ?thesis using per one by simp
    qed
  qed
  moreover have "count_list (fired t) x = count_list (fired s) x" if "x \<notin> set (timer_row s)" using that out c su by auto
  ultimately show ?case using u t by auto
qed simp

lemma rt_timer_stop_ok:
  assumes "ok_at n s" shows "ok_at n (snd (rt_timer_stop x s)) \<and> timer_row (snd (rt_timer_stop x s)) = remove1 x (timer_row s)"
proof (cases "activated s x")
  case False
  then show ?thesis using assms by (auto simp: rt_timer_stop_def ok_at_def remove1_idem)
next
  case True
  let ?t = "clear_active x (timer_remove x s)"
  have e: "rt_timer_stop x s = (True, ?t)" using True by (simp add: rt_timer_stop_def)
  have r: "rem_at n ?t = rem_at n s" by (simp add: fun_eq_iff)
  have row: "timer_row ?t = remove1 x (timer_row s)" by simp
  have "sorted (map f (remove1 x xs))" if "sorted (map f xs)" for f :: "nat \<Rightarrow> nat" and xs
    using that by (induction xs) (auto dest: set_remove1_subset [THEN subsetD])
  then have "sorted (map (rem_at n s) (remove1 x (timer_row s)))" using assms by (simp only: ok_at_def)
  then show ?thesis unfolding e snd_conv ok_at_def r row using assms by (auto simp: ok_at_def)
qed

text \<open>
  Property C24 (timer_on_time): a timer started with a time of n ticks (0 < n) fires for the first time at the n-th tick from
  then on, exactly once if it is a one-shot timer and at every n-th tick after it if it is periodic, however many
  other timers run and also when the tick counter wraps; the row of timers keeps its order and no check hangs.
\<close>

theorem timer_on_time:
  assumes "timers_ok s" "restarts s" "\<not> activated s x" "0 < init_tick (tmr s x)" "init_tick (tmr s x) < TICK_HALF"
  shows "\<exists>u t. rt_timer_start x s = Some (True, u) \<and> ticks n u = Some t \<and> timers_ok t \<and> rt_tick t = rt_tick s + of_nat n
    \<and> count_list (fired t) x = count_list (fired s) x +
        (if n < unat (init_tick (tmr s x)) then 0 else if periodic s x then n div unat (init_tick (tmr s x)) else 1)"
proof -
  let ?i = "unat (init_tick (tmr s x))"
  have i: "unat (rt_tick s + init_tick (tmr s x) - rt_tick s) = ?i" "?i < 0x7FFFFFFF" "0 < ?i"
    using assms(4,5) by (simp_all add: word_less_nat_alt)
  obtain u where u: "rt_timer_start x s = Some (True, u)" "timers_ok u" "rt_tick u = rt_tick s" "timers.more u = timers.more s"
    and row: "timer_row u = takeWhile (\<lambda>p. remaining s p \<le> ?i) (timer_row s) @ x # dropWhile (\<lambda>p. remaining s p \<le> ?i) (timer_row s)"
    and r: "remaining u x = ?i" and p: "\<forall>y. init_tick (tmr u y) = init_tick (tmr s y) \<and> periodic u y = periodic s y"
    using rt_timer_start_at [OF assms(1,3,5) i(1,2)] by auto
  have "fired u = fired s" by (rule fired_more) (rule u(4))
  have x: "x \<in> set (timer_row u) \<and> 0 < remaining u x" using row r i(3) by simp
  have "restarts u" using assms(2) p by (simp add: restarts_def)
  then obtain t where t: "ticks n u = Some t" "timers_ok t" "rt_tick t = rt_tick u + of_nat n"
    "count_list (fired t) x = count_list (fired u) x +
        (if n < remaining u x then 0 else if periodic u x then 1 + (n - remaining u x) div unat (init_tick (tmr u x)) else 1)"
    using ticks_fire [OF u(2), of n x] x by blast
  have same: "init_tick (tmr u x) = init_tick (tmr s x)" "periodic u x = periodic s x" using p by blast+
  have d: "1 + (n - ?i) div ?i = n div ?i" if "\<not> n < ?i" using that i(3) by (simp add: le_div_geq)
  have "count_list (fired t) x = count_list (fired s) x + (if n < ?i then 0 else if periodic s x then n div ?i else 1)"
    unfolding t(4) r same \<open>fired u = fired s\<close> using d by (cases "n < ?i") (simp_all only: if_True if_False simp_thms)
  then show ?thesis using u(1) t(1,2,3) unfolding u(3) by blast
qed

definition two_timers :: fired_log where
  "two_timers = \<lparr>rt_tick = 0xFFFFFFFE, timer_row = [2],
     tmr = (\<lambda>x. if x = 1 then \<lparr>tm_flag = 2, init_tick = 3, timeout_tick = 0\<rparr> else \<lparr>tm_flag = (if x = 2 then 1 else 0), init_tick = 5, timeout_tick = 1\<rparr>),
     fired = []\<rparr>"

text \<open>A periodic timer of three ticks beside a running one, started two ticks before the counter wraps: three times in ten ticks.\<close>

theorem timer_on_time_witness:
  "\<exists>u t. rt_timer_start 1 two_timers = Some (True, u) \<and> ticks 10 u = Some t \<and> count_list (fired t) 1 = 3 \<and> rt_tick t = 8"
proof -
  have "timers_ok two_timers" "restarts two_timers" "\<not> activated two_timers 1"
    by (simp_all add: two_timers_def ok_at_def restarts_def rem_at_def activated_def periodic_def)
  moreover have "0 < init_tick (tmr two_timers 1)" "init_tick (tmr two_timers 1) < TICK_HALF" by (simp_all add: two_timers_def)
  ultimately obtain u t where "rt_timer_start 1 two_timers = Some (True, u)" "ticks 10 u = Some t" "rt_tick t = rt_tick two_timers + of_nat 10"
    "count_list (fired t) 1 = count_list (fired two_timers) 1 + (if (10::nat) < unat (init_tick (tmr two_timers 1)) then 0
       else if periodic two_timers 1 then 10 div unat (init_tick (tmr two_timers 1)) else 1)"
    using timer_on_time [of two_timers 1 10] by blast
  then show ?thesis by (intro exI [of _ u] exI [of _ t]) (simp add: two_timers_def periodic_def)
qed

text \<open>A periodic timer of no ticks keeps the check busy for ever.\<close>

definition zero_period :: "nat \<Rightarrow> fired_log \<Rightarrow> bool" where
  "zero_period x s \<longleftrightarrow> timer_row s = [x] \<and> timeout_tick (tmr s x) = rt_tick s \<and> activated s x \<and> periodic s x \<and> init_tick (tmr s x) = 0"

lemma zero_period_step: "zero_period x s \<Longrightarrow> \<exists>t. timer_expire note_fired x s = Some t \<and> zero_period x t"
  by (simp add: zero_period_def timer_expire_def rt_timer_start_def Let_def note_fired_def clear_active_def) (simp add: periodic_def)

lemma zero_period_hangs:
  assumes "zero_period x s" shows "rt_timer_check note_fired s = None"
proof -
  have "rt_timer_check cb s = Some t \<Longrightarrow> cb = note_fired \<Longrightarrow> \<not> zero_period x s" for cb s t
  proof (rule rt_timer_check.raw_induct [rotated, where P = "\<lambda>cb s t. cb = note_fired \<longrightarrow> \<not> zero_period x s", rule_format])
    fix check cb s t
    assume 1: "\<And>cb s t. check cb s = Some t \<Longrightarrow> cb = note_fired \<Longrightarrow> \<not> zero_period x s"
      "(case timer_row s of [] \<Rightarrow> Some s | x # _ \<Rightarrow> if rt_tick s - timeout_tick (tmr s x) < TICK_HALF
         then Option.bind (timer_expire cb x s) (check cb) else Some s) = Some t" "cb = note_fired"
    show "\<not> zero_period x s"
    proof
      assume z: "zero_period x s"
      then obtain u where u: "timer_expire note_fired x s = Some u" "zero_period x u" using zero_period_step by blast
      then have "check cb u = Some t" using 1(2,3) z by (simp add: zero_period_def)
      then show False using 1(1,3) u by blast
    qed
  qed
  then show ?thesis using assms by (cases "rt_timer_check note_fired s") auto
qed

text \<open>Detaching a running timer leaves its flag set, so the timer cannot be started again before it is initialised.\<close>

lemma detach_blocks_start: "activated s x \<Longrightarrow> rt_timer_start x (rt_timer_detach x s) = Some (False, rt_timer_detach x s)"
  by (simp add: rt_timer_start_def rt_timer_detach_def)

text \<open>Milliseconds are ticks as long as the product with the ticks per second does not wrap.\<close>

lemma ms_to_ticks: "unat ms \<le> 4294966 \<Longrightarrow> rt_tick_from_millisecond ms = ms" "rt_tick_from_millisecond 4294967 = 0"
proof -
  assume ms: "unat ms \<le> 4294966"
  have "unat (1000 * ms + 999) = 1000 * unat ms + 999" using ms by (simp add: unat_word_ariths)
  then have "unat ((1000 * ms + 999) div 1000) = unat ms" by (simp add: unat_div)
  then show "rt_tick_from_millisecond ms = ms" by (simp add: rt_tick_from_millisecond_def word_unat_eq_iff)
qed (simp add: rt_tick_from_millisecond_def)

end
