(* ===== verification/Bounded_Fifo.thy ===== *)
theory Bounded_Fifo
  imports Cash_Prelude
begin

text \<open>
  The interface every queue of the firmware offers its clients: the kernel mailbox and message
  queue (src/src/ipc.c).
  The locale states what a provider promises (put appends or reports that the queue is full, get
  removes the oldest element or reports that it is empty); the client lemma proved inside it is
  that any sequence of puts and gets behaves like a list of bounded length.
\<close>

datatype 'a qop = Put 'a | Get

datatype 'a qres = Done | Full | Empty | Item 'a

text \<open>Running a sequence of operations on an implementation, with the answers in order.\<close>

fun run_queue :: "('a \<Rightarrow> 'q \<Rightarrow> 'q option) \<Rightarrow> ('q \<Rightarrow> ('a \<times> 'q) option) \<Rightarrow> 'a qop list \<Rightarrow> 'q \<Rightarrow> 'a qres list \<times> 'q" where
  "run_queue put get [] q = ([], q)"
| "run_queue put get (Put x # ops) q =
     (case put x q of
        None \<Rightarrow> (let (rs, q') = run_queue put get ops q in (Full # rs, q'))
      | Some q1 \<Rightarrow> (let (rs, q') = run_queue put get ops q1 in (Done # rs, q')))"
| "run_queue put get (Get # ops) q =
     (case get q of
        None \<Rightarrow> (let (rs, q') = run_queue put get ops q in (Empty # rs, q'))
      | Some (x, q1) \<Rightarrow> (let (rs, q') = run_queue put get ops q1 in (Item x # rs, q')))"

text \<open>The specification: the same run on a list of at most n elements.\<close>

fun run_spec :: "nat \<Rightarrow> 'a qop list \<Rightarrow> 'a list \<Rightarrow> 'a qres list \<times> 'a list" where
  "run_spec n [] xs = ([], xs)"
| "run_spec n (Put x # ops) xs =
     (if length xs < n then (let (rs, ys) = run_spec n ops (xs @ [x]) in (Done # rs, ys))
      else (let (rs, ys) = run_spec n ops xs in (Full # rs, ys)))"
| "run_spec n (Get # ops) xs =
     (case xs of
        [] \<Rightarrow> (let (rs, ys) = run_spec n ops [] in (Empty # rs, ys))
      | x # xs' \<Rightarrow> (let (rs, ys) = run_spec n ops xs' in (Item x # rs, ys)))"

fun puts_of :: "'a qop list \<Rightarrow> 'a list" where
  "puts_of [] = []"
| "puts_of (Put x # ops) = x # puts_of ops"
| "puts_of (Get # ops) = puts_of ops"

locale bounded_fifo =
  fixes put :: "'a \<Rightarrow> 'q \<Rightarrow> 'q option"
    and get :: "'q \<Rightarrow> ('a \<times> 'q) option"
    and contents :: "'q \<Rightarrow> 'a list"
    and cap :: "'q \<Rightarrow> nat"
    and inv :: "'q \<Rightarrow> bool"
    and ok :: "'a \<Rightarrow> bool"
  assumes put_room: "inv q \<Longrightarrow> ok x \<Longrightarrow> length (contents q) < cap q \<Longrightarrow>
      \<exists>q'. put x q = Some q' \<and> inv q' \<and> contents q' = contents q @ [x] \<and> cap q' = cap q"
    and put_full: "inv q \<Longrightarrow> ok x \<Longrightarrow> \<not> length (contents q) < cap q \<Longrightarrow> put x q = None"
    and get_item: "inv q \<Longrightarrow> contents q = x # xs \<Longrightarrow>
      \<exists>q'. get q = Some (x, q') \<and> inv q' \<and> contents q' = xs \<and> cap q' = cap q"
    and get_empty: "inv q \<Longrightarrow> contents q = [] \<Longrightarrow> get q = None"
begin

lemma put_never_loses:
  assumes "inv q" "ok x" "put x q = Some q'"
  shows "contents q' = contents q @ [x]" "inv q'" "cap q' = cap q"
  using assms put_room [of q x] put_full [of q x] by (cases "length (contents q) < cap q"; auto)+

text \<open>The refinement: every sequence of operations answers as the bounded list does.\<close>

lemma run_refines:
  assumes "inv q" "\<forall>x \<in> set (puts_of ops). ok x"
  shows "\<exists>q'. run_queue put get ops q = (fst (run_spec (cap q) ops (contents q)), q')
    \<and> inv q' \<and> contents q' = snd (run_spec (cap q) ops (contents q)) \<and> cap q' = cap q"
  using assms
proof (induction ops arbitrary: q)
  case Nil
  then show ?case by simp
next
  case (Cons op ops)
  show ?case
  proof (cases op)
    case (Put x)
    with Cons.prems have ok: "ok x" and rest: "\<forall>x \<in> set (puts_of ops). ok x" by simp_all
    show ?thesis
    proof (cases "length (contents q) < cap q")
      case True
      then obtain q1 where q1: "put x q = Some q1" "inv q1" "contents q1 = contents q @ [x]" "cap q1 = cap q"
        using put_room [OF Cons.prems(1) ok] by blast
      with Cons.IH [OF q1(2) rest] True Put show ?thesis by (auto split: prod.splits)
    next
      case False
      then have "put x q = None" using put_full [OF Cons.prems(1) ok] by simp
      with Cons.IH [OF Cons.prems(1) rest] False Put show ?thesis by (auto split: prod.splits)
    qed
  next
    case Get
    with Cons.prems have rest: "\<forall>x \<in> set (puts_of ops). ok x" by simp
    show ?thesis
    proof (cases "contents q")
      case Nil
      then have "get q = None" using get_empty [OF Cons.prems(1)] by simp
      with Cons.IH [OF Cons.prems(1) rest] Nil Get show ?thesis by (auto split: prod.splits)
    next
      case (Cons x xs)
      then obtain q1 where q1: "get q = Some (x, q1)" "inv q1" "contents q1 = xs" "cap q1 = cap q"
        using get_item [OF Cons.prems(1)] by blast
      with Cons.IH [OF q1(2) rest] Cons Get show ?thesis by (auto split: prod.splits)
    qed
  qed
qed

end

text \<open>A consequence on lists: what fits is delivered in the order it was put.\<close>

lemma run_spec_puts: "length xs + length ys \<le> n \<Longrightarrow>
  run_spec n (map Put ys) xs = (replicate (length ys) Done, xs @ ys)"
  by (induction ys arbitrary: xs) simp_all

lemma run_spec_gets: "run_spec n (replicate (length ys) Get) (ys @ zs) = (map Item ys, zs)"
  by (induction ys) simp_all

end
