(* ===== verification/Rt_MessageQueue.thy ===== *)
theory Rt_MessageQueue
  imports Bounded_Fifo "HOL-Library.Multiset"
begin

text \<open>
  The kernel message queue of src/src/ipc.c: a pool of max_msgs nodes, threaded by their next
  pointers into a free list and a queue with head and tail pointers. Nodes are numbered by their
  position in msg_pool, pointers are nat option (None is RT_NULL), and slot n is the memory of
  msg_size bytes that follows the header of node n.

  rt_mq_send and rt_mq_recv drop the interrupt lock between unlinking a node and linking it again,
  so each is first written as its critical sections; the whole calls compose them, and the relation
  mq_step interleaves the critical sections of any number of callers. The counters are the C
  uint16 fields; entry is at most max_msgs, so it never wraps.
\<close>

section \<open>State\<close>

datatype rt_err = RT_EOK | RT_ERROR | RT_ETIMEOUT | RT_EFULL | RT_EEMPTY

record rt_mq =
  msg_size :: nat
  max_msgs :: nat
  entry :: nat
  next_of :: "nat \<Rightarrow> nat option"
  slot :: "nat \<Rightarrow> u8 list"
  queue_head :: "nat option"
  queue_tail :: "nat option"
  queue_free :: "nat option"
  suspended :: "nat list"

definition rt_align :: "nat \<Rightarrow> nat" where
  "rt_align sz = (sz + 7) div 8 * 8"

definition mq_push_free :: "nat \<Rightarrow> rt_mq \<Rightarrow> rt_mq" where
  "mq_push_free n mq = mq\<lparr>next_of := (next_of mq)(n := queue_free mq), queue_free := Some n\<rparr>"

text \<open>
  rt_mq_create: the slots hold whatever the allocated pool held (mem), the free list is built by
  pushing the nodes in order.
\<close>

definition rt_mq_create :: "(nat \<Rightarrow> u8 list) \<Rightarrow> nat \<Rightarrow> nat \<Rightarrow> rt_mq" where
  "rt_mq_create mem sz cnt =
     fold mq_push_free [0..<cnt]
       \<lparr>msg_size = rt_align sz, max_msgs = cnt, entry = 0, next_of = (\<lambda>_. None), slot = mem,
        queue_head = None, queue_tail = None, queue_free = None, suspended = []\<rparr>"

text \<open>rt_mq_init computes the number of messages from the size of the pool it is given.\<close>

definition rt_mq_init :: "(nat \<Rightarrow> u8 list) \<Rightarrow> nat \<Rightarrow> nat \<Rightarrow> rt_mq" where
  "rt_mq_init mem sz pool_size = rt_mq_create mem sz (pool_size div (rt_align sz + 4))"

section \<open>Operations\<close>

definition mq_take_free :: "rt_mq \<Rightarrow> (nat \<times> rt_mq) option" where
  "mq_take_free mq = (case queue_free mq of None \<Rightarrow> None
     | Some n \<Rightarrow> Some (n, mq\<lparr>queue_free := next_of mq n\<rparr>))"

definition mq_fill :: "nat \<Rightarrow> u8 list \<Rightarrow> rt_mq \<Rightarrow> rt_mq" where
  "mq_fill n buf mq = mq\<lparr>slot := (slot mq)(n := overlay (slot mq n) 0 buf)\<rparr>"

definition mq_clear_next :: "nat \<Rightarrow> rt_mq \<Rightarrow> rt_mq" where
  "mq_clear_next n mq = mq\<lparr>next_of := (next_of mq)(n := None)\<rparr>"

definition mq_link_tail :: "nat \<Rightarrow> rt_mq \<Rightarrow> rt_mq" where
  "mq_link_tail n mq = mq\<lparr>
     next_of := (case queue_tail mq of None \<Rightarrow> next_of mq | Some t \<Rightarrow> (next_of mq)(t := Some n)),
     queue_tail := Some n,
     queue_head := (case queue_head mq of None \<Rightarrow> Some n | Some h \<Rightarrow> Some h),
     entry := entry mq + 1\<rparr>"

definition mq_link_head :: "nat \<Rightarrow> rt_mq \<Rightarrow> rt_mq" where
  "mq_link_head n mq = mq\<lparr>
     next_of := (next_of mq)(n := queue_head mq),
     queue_head := Some n,
     queue_tail := (case queue_tail mq of None \<Rightarrow> Some n | Some t \<Rightarrow> Some t),
     entry := entry mq + 1\<rparr>"

text \<open>rt_ipc_list_resume on the suspend list: the first waiting thread, if any, becomes ready.\<close>

definition mq_wake :: "rt_mq \<Rightarrow> rt_mq \<times> nat option" where
  "mq_wake mq = (case suspended mq of [] \<Rightarrow> (mq, None)
     | t # ts \<Rightarrow> (mq\<lparr>suspended := ts\<rparr>, Some t))"

text \<open>
  rt_mq_send and rt_mq_urgent: the answer is the error code, the new queue and the thread that
  became ready. None is a failed RT_ASSERT (an empty message).
\<close>

definition rt_mq_send :: "rt_mq \<Rightarrow> u8 list \<Rightarrow> (rt_err \<times> rt_mq \<times> nat option) option" where
  "rt_mq_send mq buf =
     (if buf = [] then None
      else if length buf > msg_size mq then Some (RT_ERROR, mq, None)
      else case mq_take_free mq of
        None \<Rightarrow> Some (RT_EFULL, mq, None)
      | Some (n, mq1) \<Rightarrow>
          let mq2 = mq_link_tail n (mq_fill n buf (mq_clear_next n mq1))
          in Some (RT_EOK, mq_wake mq2))"

definition rt_mq_urgent :: "rt_mq \<Rightarrow> u8 list \<Rightarrow> (rt_err \<times> rt_mq \<times> nat option) option" where
  "rt_mq_urgent mq buf =
     (if buf = [] then None
      else if length buf > msg_size mq then Some (RT_ERROR, mq, None)
      else case mq_take_free mq of
        None \<Rightarrow> Some (RT_EFULL, mq, None)
      | Some (n, mq1) \<Rightarrow> Some (RT_EOK, mq_wake (mq_link_head n (mq_fill n buf mq1))))"

definition mq_take_head :: "rt_mq \<Rightarrow> (nat \<times> rt_mq) option" where
  "mq_take_head mq = (case queue_head mq of None \<Rightarrow> None
     | Some n \<Rightarrow> Some (n, mq\<lparr>queue_head := next_of mq n,
         queue_tail := (if queue_tail mq = Some n then None else queue_tail mq),
         entry := entry mq - 1\<rparr>))"

datatype recv_res = Received "u8 list" | RecvFailed rt_err | Suspended

text \<open>
  rt_mq_recv by the thread self into a buffer dst: a call on an empty queue returns at once when
  the timeout is 0 and otherwise puts the thread on the suspend list. A resumed thread runs the
  same function again.
\<close>

definition rt_mq_recv :: "rt_mq \<Rightarrow> u8 list \<Rightarrow> int \<Rightarrow> nat \<Rightarrow> (recv_res \<times> rt_mq) option" where
  "rt_mq_recv mq dst timeout self =
     (if dst = [] then None
      else if entry mq = 0 then
        (if timeout = 0 then Some (RecvFailed RT_ETIMEOUT, mq)
         else Some (Suspended, mq\<lparr>suspended := suspended mq @ [self]\<rparr>))
      else case mq_take_head mq of
        None \<Rightarrow> None
      | Some (n, mq1) \<Rightarrow>
          Some (Received (overlay dst 0 (take (min (length dst) (msg_size mq)) (slot mq1 n))),
                mq_push_free n mq1))"

section \<open>Representation invariant\<close>

text \<open>path nx p ns: following the next pointers nx from p visits the nodes ns and ends in NULL.\<close>

fun path :: "(nat \<Rightarrow> nat option) \<Rightarrow> nat option \<Rightarrow> nat list \<Rightarrow> bool" where
  "path nx p [] = (p = None)"
| "path nx p (n # ns) = (p = Some n \<and> path nx (nx n) ns)"

lemma path_upd [simp]: "n \<notin> set ns \<Longrightarrow> path (nx(n := q)) p ns = path nx p ns"
  by (induction ns arbitrary: p) auto

lemma path_snoc: "path nx p ns \<Longrightarrow> ns \<noteq> [] \<Longrightarrow> distinct ns \<Longrightarrow> n \<notin> set ns \<Longrightarrow> nx n = None \<Longrightarrow>
  path (nx(last ns := Some n)) p (ns @ [n])"
  by (induction ns arbitrary: p) (auto split: if_splits)

lemma path_last_None: "path nx p ns \<Longrightarrow> ns \<noteq> [] \<Longrightarrow> nx (last ns) = None"
  by (induction ns arbitrary: p) (auto split: if_splits)

lemma path_None_iff: "path nx None ns \<longleftrightarrow> ns = []"
  by (cases ns) auto

lemma path_Some: "path nx (Some n) ns \<Longrightarrow> \<exists>ms. ns = n # ms \<and> path nx (nx n) ms"
  by (cases ns) auto

lemma path_unique: "path nx p ns \<Longrightarrow> path nx p ms \<Longrightarrow> ns = ms"
proof (induction ns arbitrary: p ms)
  case Nil
  then show ?case by (cases ms) auto
next
  case (Cons n ns)
  then show ?case by (cases ms) auto
qed

text \<open>
  mq_rep mq fs qs is: fs is the free list, qs the queue, and is the nodes that some caller has
  unlinked and not yet linked again; together they are exactly the pool.
\<close>

definition mq_rep :: "rt_mq \<Rightarrow> nat list \<Rightarrow> nat list \<Rightarrow> nat list \<Rightarrow> bool" where
  "mq_rep mq fs qs is \<longleftrightarrow>
     path (next_of mq) (queue_free mq) fs \<and> path (next_of mq) (queue_head mq) qs \<and>
     queue_tail mq = (if qs = [] then None else Some (last qs)) \<and>
     entry mq = length qs \<and>
     distinct (fs @ qs @ is) \<and> set (fs @ qs @ is) = {0..<max_msgs mq} \<and>
     (\<forall>n < max_msgs mq. length (slot mq n) = msg_size mq)"

lemma mq_rep_count: "mq_rep mq fs qs is \<Longrightarrow> length fs + length qs + length is = max_msgs mq"
proof -
  assume "mq_rep mq fs qs is"
  then have "card (set (fs @ qs @ is)) = max_msgs mq" "distinct (fs @ qs @ is)"
    by (auto simp: mq_rep_def simp del: set_append)
  then have "length (fs @ qs @ is) = max_msgs mq" by (metis distinct_card)
  then show ?thesis by simp
qed

lemma mq_rep_node: "mq_rep mq fs qs is \<Longrightarrow> n \<in> set (fs @ qs @ is) \<longleftrightarrow> n < max_msgs mq"
  unfolding mq_rep_def by (metis atLeastLessThan_iff zero_le)

lemma mq_rep_slot: "mq_rep mq fs qs is \<Longrightarrow> n \<in> set (fs @ qs @ is) \<Longrightarrow> length (slot mq n) = msg_size mq"
  using mq_rep_node by (simp add: mq_rep_def)

lemma mq_rep_flight: "mq_rep mq fs qs is \<Longrightarrow> n \<in> set is \<Longrightarrow> n \<notin> set fs \<and> n \<notin> set qs \<and> n < max_msgs mq"
  using mq_rep_node [of mq fs qs "is" n] by (auto simp: mq_rep_def)

text \<open>Every critical section keeps the representation.\<close>

lemma rep_take_free:
  assumes "mq_rep mq (n # fs) qs is"
  shows "mq_take_free mq = Some (n, mq\<lparr>queue_free := next_of mq n\<rparr>)"
    and "mq_rep (mq\<lparr>queue_free := next_of mq n\<rparr>) fs qs (n # is)"
  using assms by (auto simp: mq_rep_def mq_take_free_def)

lemma rep_take_free_None: "mq_rep mq fs qs is \<Longrightarrow> mq_take_free mq = None \<longleftrightarrow> fs = []"
  by (cases fs) (auto simp: mq_rep_def mq_take_free_def)

lemma rep_fill:
  assumes "mq_rep mq fs qs is" "n \<in> set is" "length buf \<le> msg_size mq"
  shows "mq_rep (mq_fill n buf mq) fs qs is"
  using assms by (auto simp: mq_rep_def mq_fill_def)

lemma rep_clear_next:
  assumes "mq_rep mq fs qs is" "n \<in> set is"
  shows "mq_rep (mq_clear_next n mq) fs qs is"
  using assms mq_rep_flight [OF assms] by (simp add: mq_rep_def mq_clear_next_def)

lemma rep_link_tail:
  assumes rep: "mq_rep mq fs qs is" and n: "n \<in> set is" and nx: "next_of mq n = None"
  shows "mq_rep (mq_link_tail n mq) fs (qs @ [n]) (remove1 n is)"
proof -
  have d: "distinct fs" "distinct qs" "distinct is" "n \<notin> set fs" "n \<notin> set qs"
    using rep n by (auto simp: mq_rep_def)
  have part: "distinct (fs @ (qs @ [n]) @ remove1 n is)"
    "set (fs @ (qs @ [n]) @ remove1 n is) = {0..<max_msgs mq}"
    using rep n d by (auto simp: mq_rep_def)
  show ?thesis
  proof (cases "qs = []")
    case True
    with rep nx part show ?thesis
      by (auto simp: mq_rep_def mq_link_tail_def path_None_iff)
  next
    case False
    then have t: "queue_tail mq = Some (last qs)" "last qs \<notin> set fs"
      using rep by (auto simp: mq_rep_def)
    have h: "\<exists>h. queue_head mq = Some h" using rep False by (cases qs) (auto simp: mq_rep_def)
    with rep t False d nx part show ?thesis
      by (auto simp: mq_rep_def mq_link_tail_def intro: path_snoc)
  qed
qed

lemma rep_link_head:
  assumes rep: "mq_rep mq fs qs is" and n: "n \<in> set is"
  shows "mq_rep (mq_link_head n mq) fs (n # qs) (remove1 n is)"
proof -
  have d: "n \<notin> set fs" "n \<notin> set qs" "distinct is" using rep n by (auto simp: mq_rep_def)
  have "distinct (fs @ (n # qs) @ remove1 n is)" "set (fs @ (n # qs) @ remove1 n is) = {0..<max_msgs mq}"
    using rep n d by (auto simp: mq_rep_def)
  with rep d show ?thesis by (auto simp: mq_rep_def mq_link_head_def)
qed

lemma rep_take_head:
  assumes "mq_rep mq fs (n # qs) is"
  shows "\<exists>mq1. mq_take_head mq = Some (n, mq1) \<and> mq_rep mq1 fs qs (n # is) \<and> slot mq1 = slot mq
    \<and> msg_size mq1 = msg_size mq \<and> max_msgs mq1 = max_msgs mq"
  using assms by (auto simp: mq_rep_def mq_take_head_def split: if_splits)

lemma rep_take_head_None: "mq_rep mq fs qs is \<Longrightarrow> mq_take_head mq = None \<longleftrightarrow> qs = []"
  by (cases qs) (auto simp: mq_rep_def mq_take_head_def)

lemma rep_push_free:
  assumes rep: "mq_rep mq fs qs is" and n: "n \<in> set is"
  shows "mq_rep (mq_push_free n mq) (n # fs) qs (remove1 n is)"
proof -
  have d: "n \<notin> set fs" "n \<notin> set qs" "distinct is" using rep n by (auto simp: mq_rep_def)
  have "distinct ((n # fs) @ qs @ remove1 n is)" "set ((n # fs) @ qs @ remove1 n is) = {0..<max_msgs mq}"
    using rep n d by (auto simp: mq_rep_def)
  with rep d show ?thesis by (auto simp: mq_rep_def mq_push_free_def)
qed

lemmas mq_rep_intros = rep_take_free rep_fill rep_clear_next rep_link_tail rep_link_head rep_push_free

lemma rep_waiters [simp]: "mq_rep (mq\<lparr>suspended := ts\<rparr>) fs qs is = mq_rep mq fs qs is"
  by (simp add: mq_rep_def)

lemma rep_wake [simp]: "mq_rep (fst (mq_wake mq)) fs qs is = mq_rep mq fs qs is"
  by (cases "suspended mq") (simp_all add: mq_wake_def)

text \<open>What the critical sections leave alone.\<close>

lemma mq_frame [simp]:
  "msg_size (mq_fill n b mq) = msg_size mq" "max_msgs (mq_fill n b mq) = max_msgs mq"
  "msg_size (mq_clear_next n mq) = msg_size mq" "max_msgs (mq_clear_next n mq) = max_msgs mq"
  "msg_size (mq_link_tail n mq) = msg_size mq" "max_msgs (mq_link_tail n mq) = max_msgs mq"
  "msg_size (mq_link_head n mq) = msg_size mq" "max_msgs (mq_link_head n mq) = max_msgs mq"
  "msg_size (mq_push_free n mq) = msg_size mq" "max_msgs (mq_push_free n mq) = max_msgs mq"
  "msg_size (fst (mq_wake mq)) = msg_size mq" "max_msgs (fst (mq_wake mq)) = max_msgs mq"
  "slot (mq_clear_next n mq) = slot mq" "slot (mq_link_tail n mq) = slot mq"
  "slot (mq_link_head n mq) = slot mq" "slot (mq_push_free n mq) = slot mq"
  "slot (fst (mq_wake mq)) = slot mq"
  "slot (mq_fill n b mq) = (slot mq)(n := overlay (slot mq n) 0 b)"
  "next_of (mq_fill n b mq) = next_of mq"
  "next_of (mq_clear_next n mq) = (next_of mq)(n := None)"
  by (simp_all add: mq_fill_def mq_clear_next_def mq_link_tail_def mq_link_head_def
      mq_push_free_def mq_wake_def split: list.split)

lemma rep_create:
  assumes "\<And>n. n < cnt \<Longrightarrow> length (mem n) = rt_align sz"
  shows "\<exists>fs. mq_rep (rt_mq_create mem sz cnt) fs [] [] \<and> length fs = cnt"
    and "msg_size (rt_mq_create mem sz cnt) = rt_align sz" "max_msgs (rt_mq_create mem sz cnt) = cnt"
proof -
  let ?m0 = "\<lparr>msg_size = rt_align sz, max_msgs = cnt, entry = 0, next_of = (\<lambda>_. None), slot = mem,
        queue_head = None, queue_tail = None, queue_free = None, suspended = []\<rparr>"
  have *: "k \<le> cnt \<Longrightarrow> mq_rep (fold mq_push_free [0..<k] ?m0) (rev [0..<k]) [] [k..<cnt]
      \<and> msg_size (fold mq_push_free [0..<k] ?m0) = rt_align sz
      \<and> max_msgs (fold mq_push_free [0..<k] ?m0) = cnt" for k
  proof (induction k)
    case 0
    then show ?case using assms by (auto simp: mq_rep_def)
  next
    case (Suc k)
    then have "mq_rep (mq_push_free k (fold mq_push_free [0..<k] ?m0)) (k # rev [0..<k]) [] (remove1 k [k..<cnt])"
      by (intro rep_push_free) auto
    with Suc show ?case by (simp add: upt_conv_Cons)
  qed
  from * [of cnt] show "msg_size (rt_mq_create mem sz cnt) = rt_align sz"
    "max_msgs (rt_mq_create mem sz cnt) = cnt" by (simp_all add: rt_mq_create_def)
  from * [of cnt] show "\<exists>fs. mq_rep (rt_mq_create mem sz cnt) fs [] [] \<and> length fs = cnt"
    by (auto simp: rt_mq_create_def intro: exI [of _ "rev [0..<cnt]"])
qed


section \<open>Functional behaviour of the calls\<close>

text \<open>The messages in the queue, oldest first, read off the pointers.\<close>

fun follow :: "(nat \<Rightarrow> nat option) \<Rightarrow> nat option \<Rightarrow> nat \<Rightarrow> nat list" where
  "follow nx p 0 = []"
| "follow nx None (Suc k) = []"
| "follow nx (Some n) (Suc k) = n # follow nx (nx n) k"

lemma follow_path: "path nx p ns \<Longrightarrow> follow nx p (length ns) = ns"
  by (induction ns arbitrary: p) auto

definition mq_messages :: "rt_mq \<Rightarrow> u8 list list" where
  "mq_messages mq = map (slot mq) (follow (next_of mq) (queue_head mq) (entry mq))"

definition mq_wf :: "rt_mq \<Rightarrow> bool" where
  "mq_wf mq \<longleftrightarrow> (\<exists>fs qs. mq_rep mq fs qs [])"

lemma mq_messages_rep: "mq_rep mq fs qs is \<Longrightarrow> mq_messages mq = map (slot mq) qs"
  by (simp add: mq_rep_def mq_messages_def follow_path)

lemma mq_entry_rep: "mq_rep mq fs qs is \<Longrightarrow> entry mq = length qs"
  by (simp add: mq_rep_def)

lemma mq_wf_create:
  assumes "\<And>n. n < cnt \<Longrightarrow> length (mem n) = rt_align sz"
  shows "mq_wf (rt_mq_create mem sz cnt)" "mq_messages (rt_mq_create mem sz cnt) = []"
  using rep_create [of cnt mem sz] assms by (auto simp: mq_wf_def mq_messages_rep)

text \<open>A message that fits is appended; the slot keeps its old bytes behind the message.\<close>

lemma rt_mq_send_room:
  assumes wf: "mq_wf mq" and b: "buf \<noteq> []" "length buf \<le> msg_size mq"
    and room: "length (mq_messages mq) < max_msgs mq"
  shows "\<exists>mq' w m. rt_mq_send mq buf = Some (RT_EOK, mq', w) \<and> mq_wf mq' \<and>
    mq_messages mq' = mq_messages mq @ [m] \<and> take (length buf) m = buf \<and> length m = msg_size mq \<and>
    msg_size mq' = msg_size mq \<and> max_msgs mq' = max_msgs mq"
proof -
  from wf obtain fs qs where rep: "mq_rep mq fs qs []" by (auto simp: mq_wf_def)
  have "fs \<noteq> []" using mq_rep_count [OF rep] room mq_messages_rep [OF rep] by auto
  then obtain n fs' where fs: "fs = n # fs'" by (cases fs) auto
  let ?m1 = "mq\<lparr>queue_free := next_of mq n\<rparr>"
  let ?m2 = "mq_fill n buf (mq_clear_next n ?m1)"
  let ?m3 = "mq_link_tail n ?m2"
  have r1: "mq_rep ?m1 fs' qs [n]" and t: "mq_take_free mq = Some (n, ?m1)"
    using rep_take_free rep fs by blast+
  have r2: "mq_rep ?m2 fs' qs [n]"
    using r1 b by (intro rep_fill rep_clear_next) simp_all
  have r3: "mq_rep ?m3 fs' (qs @ [n]) []"
    using rep_link_tail [OF r2, of n] by simp
  have nq: "n \<notin> set qs" using mq_rep_flight [OF r1] by simp
  have sl: "length (slot mq n) = msg_size mq" using mq_rep_slot [OF rep, of n] fs by simp
  obtain w where w: "mq_wake ?m3 = (fst (mq_wake ?m3), w)" by (metis surj_pair fst_conv)
  have "rt_mq_send mq buf = Some (RT_EOK, fst (mq_wake ?m3), w)"
    using b t w by (simp add: rt_mq_send_def Let_def)
  moreover have r4: "mq_rep (fst (mq_wake ?m3)) fs' (qs @ [n]) []" using r3 by simp
  moreover have "mq_messages (fst (mq_wake ?m3)) = mq_messages mq @ [overlay (slot mq n) 0 buf]"
    using mq_messages_rep [OF r4] mq_messages_rep [OF rep] nq by auto
  ultimately show ?thesis
    using sl b unfolding mq_wf_def
    by (intro exI [of _ "fst (mq_wake ?m3)"] exI [of _ w] exI [of _ "overlay (slot mq n) 0 buf"])
      (auto simp: overlay_def)
qed

lemma rt_mq_send_full:
  assumes wf: "mq_wf mq" and b: "buf \<noteq> []" "length buf \<le> msg_size mq"
    and full: "\<not> length (mq_messages mq) < max_msgs mq"
  shows "rt_mq_send mq buf = Some (RT_EFULL, mq, None)"
proof -
  from wf obtain fs qs where rep: "mq_rep mq fs qs []" by (auto simp: mq_wf_def)
  have "length fs + length qs = max_msgs mq" "\<not> length qs < max_msgs mq"
    using mq_rep_count [OF rep] full mq_messages_rep [OF rep] by simp_all
  then have "fs = []" by (cases fs) simp_all
  then have "mq_take_free mq = None" using rep_take_free_None [OF rep] by simp
  with b show ?thesis by (simp add: rt_mq_send_def)
qed

lemma rt_mq_recv_item:
  assumes wf: "mq_wf mq" and d: "dst \<noteq> []" and ms: "mq_messages mq = m # ms"
  shows "\<exists>mq'. rt_mq_recv mq dst timeout self =
      Some (Received (overlay dst 0 (take (min (length dst) (msg_size mq)) m)), mq') \<and>
    mq_wf mq' \<and> mq_messages mq' = ms \<and> msg_size mq' = msg_size mq \<and> max_msgs mq' = max_msgs mq"
proof -
  from wf obtain fs qs where rep: "mq_rep mq fs qs []" by (auto simp: mq_wf_def)
  from mq_messages_rep [OF rep] ms obtain n qs' where qs: "qs = n # qs'" "slot mq n = m" "map (slot mq) qs' = ms"
    by auto
  then obtain mq1 where t: "mq_take_head mq = Some (n, mq1)" and r1: "mq_rep mq1 fs qs' [n]"
    and f: "slot mq1 = slot mq" "msg_size mq1 = msg_size mq" "max_msgs mq1 = max_msgs mq"
    using rep_take_head rep by blast
  have r2: "mq_rep (mq_push_free n mq1) (n # fs) qs' []"
    using rep_push_free [OF r1, of n] by simp
  have "entry mq \<noteq> 0" using rep qs by (simp add: mq_entry_rep)
  with t d f qs have "rt_mq_recv mq dst timeout self =
      Some (Received (overlay dst 0 (take (min (length dst) (msg_size mq)) m)), mq_push_free n mq1)"
    by (simp add: rt_mq_recv_def)
  then show ?thesis
    using r2 f qs mq_messages_rep [OF r2] by (auto simp: mq_wf_def)
qed

lemma rt_mq_recv_empty:
  assumes wf: "mq_wf mq" and d: "dst \<noteq> []" and ms: "mq_messages mq = []"
  shows "rt_mq_recv mq dst timeout self =
    (if timeout = 0 then Some (RecvFailed RT_ETIMEOUT, mq)
     else Some (Suspended, mq\<lparr>suspended := suspended mq @ [self]\<rparr>))"
proof -
  from wf obtain fs qs where rep: "mq_rep mq fs qs []" by (auto simp: mq_wf_def)
  with ms have "entry mq = 0" by (simp add: mq_entry_rep mq_messages_rep)
  with d show ?thesis by (simp add: rt_mq_recv_def)
qed

text \<open>
  The queue as the clients of the firmware use it: every message of a queue is sent and received
  with the same length k.
\<close>

definition mq_put :: "u8 list \<Rightarrow> rt_mq \<Rightarrow> rt_mq option" where
  "mq_put buf mq = (case rt_mq_send mq buf of Some (RT_EOK, mq', _) \<Rightarrow> Some mq' | _ \<Rightarrow> None)"

definition mq_get :: "nat \<Rightarrow> rt_mq \<Rightarrow> (u8 list \<times> rt_mq) option" where
  "mq_get k mq = (case rt_mq_recv mq (replicate k 0) 0 0 of
     Some (Received b, mq') \<Rightarrow> Some (b, mq') | _ \<Rightarrow> None)"

definition mq_client :: "nat \<Rightarrow> rt_mq \<Rightarrow> bool" where
  "mq_client k mq \<longleftrightarrow> mq_wf mq \<and> 0 < k \<and> k \<le> msg_size mq"

interpretation mq_fifo: bounded_fifo mq_put "mq_get k" "\<lambda>mq. map (take k) (mq_messages mq)"
  max_msgs "mq_client k" "\<lambda>b. length b = k" for k
proof unfold_locales
  fix mq and b :: "u8 list"
  assume c: "mq_client k mq" "length b = k"
  then have b: "b \<noteq> []" "length b \<le> msg_size mq" "mq_wf mq" by (auto simp: mq_client_def)
  show "\<exists>q'. mq_put b mq = Some q' \<and> mq_client k q' \<and>
      map (take k) (mq_messages q') = map (take k) (mq_messages mq) @ [b] \<and> max_msgs q' = max_msgs mq"
    if room: "length (map (take k) (mq_messages mq)) < max_msgs mq"
  proof -
    from room have "length (mq_messages mq) < max_msgs mq" by simp
    from rt_mq_send_room [OF b(3) b(1,2) this] obtain mq' w m where
      "rt_mq_send mq b = Some (RT_EOK, mq', w)" "mq_wf mq'" "mq_messages mq' = mq_messages mq @ [m]"
      "take (length b) m = b" "msg_size mq' = msg_size mq" "max_msgs mq' = max_msgs mq" by blast
    with c show ?thesis by (simp add: mq_put_def mq_client_def)
  qed
  show "mq_put b mq = None" if "\<not> length (map (take k) (mq_messages mq)) < max_msgs mq"
    using rt_mq_send_full [OF b(3) b(1,2)] that by (simp add: mq_put_def)
next
  fix mq and x :: "u8 list" and xs
  assume c: "mq_client k mq" and m: "map (take k) (mq_messages mq) = x # xs"
  then obtain m ms where ms: "mq_messages mq = m # ms" "take k m = x" "map (take k) ms = xs" by auto
  have wf: "mq_wf mq" and k: "replicate k (0::u8) \<noteq> []" "min k (msg_size mq) = k" using c by (auto simp: mq_client_def)
  obtain fs qs where rep: "mq_rep mq fs qs []" using wf by (auto simp: mq_wf_def)
  have "m \<in> set (mq_messages mq)" using ms by simp
  then obtain n where "n \<in> set qs" "m = slot mq n" using mq_messages_rep [OF rep] by auto
  then have "length m = msg_size mq" using mq_rep_slot [OF rep, of n] by simp
  with c have "overlay (replicate k 0) 0 (take k m) = x" using ms by (auto simp: overlay_def mq_client_def)
  with rt_mq_recv_item [OF wf k(1) ms(1), of 0 0] k ms c
  show "\<exists>q'. mq_get k mq = Some (x, q') \<and> mq_client k q' \<and>
      map (take k) (mq_messages q') = xs \<and> max_msgs q' = max_msgs mq"
    by (auto simp: mq_get_def mq_client_def)
next
  fix mq
  assume "mq_client k mq" "map (take k) (mq_messages mq) = []"
  then show "mq_get k mq = None"
    using rt_mq_recv_empty [of mq "replicate k 0" 0 0] by (auto simp: mq_client_def mq_get_def)
qed


section \<open>Interleaved callers\<close>

text \<open>
  The system state: the queue, the senders that hold a node (with their message and whether the
  copy is done), the receivers that hold a node (with the message it carried when it was taken),
  and two ghost lists, the messages linked so far and the messages taken so far.
\<close>

record mq_sys =
  the_mq :: rt_mq
  senders :: "(nat \<times> u8 list \<times> bool) list"
  receivers :: "(nat \<times> u8 list) list"
  linked :: "u8 list list"
  taken :: "u8 list list"

inductive mq_step :: "mq_sys \<Rightarrow> mq_sys \<Rightarrow> bool" where
  send_take: "buf \<noteq> [] \<Longrightarrow> length buf \<le> msg_size (the_mq s) \<Longrightarrow> mq_take_free (the_mq s) = Some (n, mq') \<Longrightarrow>
    mq_step s (s\<lparr>the_mq := mq', senders := (n, buf, False) # senders s\<rparr>)"
| send_copy: "(n, buf, False) \<in> set (senders s) \<Longrightarrow>
    mq_step s (s\<lparr>the_mq := mq_fill n buf (mq_clear_next n (the_mq s)),
      senders := (n, buf, True) # remove1 (n, buf, False) (senders s)\<rparr>)"
| send_link: "(n, buf, True) \<in> set (senders s) \<Longrightarrow>
    mq_step s (s\<lparr>the_mq := fst (mq_wake (mq_link_tail n (the_mq s))),
      senders := remove1 (n, buf, True) (senders s),
      linked := linked s @ [slot (the_mq s) n]\<rparr>)"
| recv_take: "mq_take_head (the_mq s) = Some (n, mq') \<Longrightarrow>
    mq_step s (s\<lparr>the_mq := mq', receivers := (n, slot (the_mq s) n) # receivers s,
      taken := taken s @ [slot (the_mq s) n]\<rparr>)"
| recv_free: "(n, m) \<in> set (receivers s) \<Longrightarrow>
    mq_step s (s\<lparr>the_mq := mq_push_free n (the_mq s), receivers := remove1 (n, m) (receivers s)\<rparr>)"
| wait: "mq_step s (s\<lparr>the_mq := (the_mq s)\<lparr>suspended := suspended (the_mq s) @ [t]\<rparr>\<rparr>)"

inductive_cases mq_step_cases: "mq_step s t"

inductive mq_reachable :: "rt_mq \<Rightarrow> mq_sys \<Rightarrow> bool" for mq0 where
  mq_start: "mq_reachable mq0 \<lparr>the_mq = mq0, senders = [], receivers = [], linked = [], taken = []\<rparr>"
| mq_next: "mq_reachable mq0 s \<Longrightarrow> mq_step s t \<Longrightarrow> mq_reachable mq0 t"

definition flight :: "mq_sys \<Rightarrow> nat list" where
  "flight s = map fst (senders s) @ map fst (receivers s)"

definition send_ok :: "rt_mq \<Rightarrow> nat \<times> u8 list \<times> bool \<Rightarrow> bool" where
  "send_ok mq x = (case x of (n, b, copied) \<Rightarrow> b \<noteq> [] \<and> length b \<le> msg_size mq \<and>
     (copied \<longrightarrow> next_of mq n = None \<and> take (length b) (slot mq n) = b))"

definition recv_ok :: "rt_mq \<Rightarrow> nat \<times> u8 list \<Rightarrow> bool" where
  "recv_ok mq x = (slot mq (fst x) = snd x)"

definition sys_inv :: "mq_sys \<Rightarrow> bool" where
  "sys_inv s \<longleftrightarrow> (\<exists>fs qs. mq_rep (the_mq s) fs qs (flight s) \<and>
     linked s = taken s @ map (slot (the_mq s)) qs \<and>
     (\<forall>x \<in> set (receivers s). recv_ok (the_mq s) x) \<and>
     (\<forall>x \<in> set (senders s). send_ok (the_mq s) x))"

lemma send_ok_frame: "msg_size mq' = msg_size mq \<Longrightarrow> slot mq' (fst x) = slot mq (fst x) \<Longrightarrow>
  next_of mq' (fst x) = next_of mq (fst x) \<Longrightarrow> send_ok mq' x = send_ok mq x"
  by (cases x) (simp add: send_ok_def)

lemma recv_ok_frame: "slot mq' (fst x) = slot mq (fst x) \<Longrightarrow> recv_ok mq' x = recv_ok mq x"
  by (simp add: recv_ok_def)

lemma rep_flight_perm: "mset xs = mset ys \<Longrightarrow> mq_rep mq fs qs xs \<longleftrightarrow> mq_rep mq fs qs ys"
proof -
  assume m: "mset xs = mset ys"
  then have "mset (fs @ qs @ xs) = mset (fs @ qs @ ys)" by simp
  then have "distinct (fs @ qs @ xs) = distinct (fs @ qs @ ys)" "set (fs @ qs @ xs) = set (fs @ qs @ ys)"
    by (blast dest: mset_eq_imp_distinct_iff mset_eq_setD)+
  then show ?thesis unfolding mq_rep_def by simp
qed

lemma sender_in_flight: "x \<in> set (senders s) \<Longrightarrow> fst x \<in> set (flight s)"
  by (simp add: flight_def)

lemma receiver_in_flight: "x \<in> set (receivers s) \<Longrightarrow> fst x \<in> set (flight s)"
  by (simp add: flight_def)

text \<open>A node in flight belongs to one caller only.\<close>

lemma other_callers:
  assumes d: "distinct (flight s)"
  shows "x \<in> set (senders s) \<Longrightarrow> y \<in> set (remove1 x (senders s)) \<Longrightarrow> y \<in> set (senders s) \<and> fst y \<noteq> fst x"
    and "u \<in> set (receivers s) \<Longrightarrow> v \<in> set (remove1 u (receivers s)) \<Longrightarrow> v \<in> set (receivers s) \<and> fst v \<noteq> fst u"
    and "x \<in> set (senders s) \<Longrightarrow> u \<in> set (receivers s) \<Longrightarrow> fst x \<noteq> fst u"
proof -
  have ds: "distinct (map fst (senders s))" "distinct (map fst (receivers s))"
    "set (map fst (senders s)) \<inter> set (map fst (receivers s)) = {}"
    using d by (simp_all add: flight_def)
  have *: "distinct (map fst zs) \<Longrightarrow> z \<in> set zs \<Longrightarrow> w \<in> set (remove1 z zs) \<Longrightarrow> w \<in> set zs \<and> fst w \<noteq> fst z"
    for z w :: "'z \<times> 'w" and zs
    by (induction zs) (auto split: if_splits dest: notin_set_remove1 simp: rev_image_eqI)
  show "x \<in> set (senders s) \<Longrightarrow> y \<in> set (remove1 x (senders s)) \<Longrightarrow> y \<in> set (senders s) \<and> fst y \<noteq> fst x"
    using * ds(1) by blast
  show "u \<in> set (receivers s) \<Longrightarrow> v \<in> set (remove1 u (receivers s)) \<Longrightarrow> v \<in> set (receivers s) \<and> fst v \<noteq> fst u"
    using * ds(2) by blast
  show "x \<in> set (senders s) \<Longrightarrow> u \<in> set (receivers s) \<Longrightarrow> fst x \<noteq> fst u"
    using ds(3) by auto
qed

lemma remove1_fst:
  "x \<in> set xs \<Longrightarrow> add_mset (fst x) (mset (map fst (remove1 x xs))) = mset (map fst xs)"
  by (induction xs) auto

text \<open>After a caller leaves, the nodes in flight are the others.\<close>

lemma flight_leave:
  "(n, x) \<in> set (senders s) \<Longrightarrow> add_mset n (mset (flight (s\<lparr>senders := remove1 (n, x) (senders s)\<rparr>))) = mset (flight s)"
  "(n, m) \<in> set (receivers s) \<Longrightarrow> add_mset n (mset (flight (s\<lparr>receivers := remove1 (n, m) (receivers s)\<rparr>))) = mset (flight s)"
  using remove1_fst [of "(n, x)" "senders s"] remove1_fst [of "(n, m)" "receivers s"]
  by (simp_all add: flight_def)

lemma flight_mq [simp]: "flight (s\<lparr>the_mq := q, linked := l, taken := t\<rparr>) = flight s"
  by (simp add: flight_def)

lemma rep_leave:
  assumes "mq_rep mq fs qs (remove1 n is)" "add_mset n (mset js) = mset is" "n \<in> set is"
  shows "mq_rep mq fs qs js"
proof -
  have "mset (remove1 n is) = mset js" using assms(2,3) by (metis add_mset_remove_trivial mset_remove1)
  with assms(1) rep_flight_perm show ?thesis by blast
qed

lemma rep_frees:
  assumes "mq_rep mq fs qs is" "mq_take_free mq = Some (n, mq')"
  shows "\<exists>fs'. fs = n # fs' \<and> mq' = mq\<lparr>queue_free := next_of mq n\<rparr> \<and> mq_rep mq' fs' qs (n # is)"
proof (cases fs)
  case Nil
  with assms rep_take_free_None [OF assms(1)] show ?thesis by simp
next
  case (Cons k ks)
  with assms rep_take_free [of mq k ks qs "is"] show ?thesis by auto
qed

lemma rep_heads:
  assumes "mq_rep mq fs qs is" "mq_take_head mq = Some (n, mq')"
  shows "\<exists>qs'. qs = n # qs' \<and> mq_rep mq' fs qs' (n # is) \<and> slot mq' = slot mq
    \<and> msg_size mq' = msg_size mq \<and> next_of mq' = next_of mq"
proof (cases qs)
  case Nil
  with assms rep_take_head_None [OF assms(1)] show ?thesis by simp
next
  case (Cons k ks)
  with assms rep_take_head [of mq fs k ks "is"] show ?thesis by (auto simp: mq_take_head_def split: option.splits)
qed

lemma step_send_take:
  assumes inv: "sys_inv s" and b: "buf \<noteq> []" "length buf \<le> msg_size (the_mq s)"
    and t: "mq_take_free (the_mq s) = Some (n, mq')"
  shows "sys_inv (s\<lparr>the_mq := mq', senders := (n, buf, False) # senders s\<rparr>)"
proof -
  from inv obtain fs qs where i: "mq_rep (the_mq s) fs qs (flight s)"
    "linked s = taken s @ map (slot (the_mq s)) qs" "\<forall>x \<in> set (receivers s). recv_ok (the_mq s) x"
    "\<forall>x \<in> set (senders s). send_ok (the_mq s) x" unfolding sys_inv_def by blast
  from rep_frees [OF i(1) t] obtain fs' where m: "mq' = (the_mq s)\<lparr>queue_free := next_of (the_mq s) n\<rparr>"
    "mq_rep mq' fs' qs (n # flight s)" by blast
  have "\<forall>x \<in> set (senders s). send_ok mq' x" "\<forall>x \<in> set (receivers s). recv_ok mq' x"
    using i m(1) send_ok_frame [of mq' "the_mq s"] recv_ok_frame [of mq' _ "the_mq s"] by simp_all
  moreover have "send_ok mq' (n, buf, False)" using b m by (simp add: send_ok_def)
  ultimately show ?thesis
    using i(2) m unfolding sys_inv_def by (intro exI [of _ fs'] exI [of _ qs]) (simp add: flight_def)
qed

lemma step_send_copy:
  assumes inv: "sys_inv s" and m: "(n, buf, False) \<in> set (senders s)"
  shows "sys_inv (s\<lparr>the_mq := mq_fill n buf (mq_clear_next n (the_mq s)),
      senders := (n, buf, True) # remove1 (n, buf, False) (senders s)\<rparr>)" (is "sys_inv ?t")
proof -
  from inv obtain fs qs where i: "mq_rep (the_mq s) fs qs (flight s)"
    "linked s = taken s @ map (slot (the_mq s)) qs" "\<forall>x \<in> set (receivers s). recv_ok (the_mq s) x"
    "\<forall>x \<in> set (senders s). send_ok (the_mq s) x" unfolding sys_inv_def by blast
  have d: "distinct (flight s)" using i(1) by (simp add: mq_rep_def)
  have nf: "n \<in> set (flight s)" using sender_in_flight [OF m] by simp
  have b: "buf \<noteq> []" "length buf \<le> msg_size (the_mq s)" using i(4) m by (auto simp: send_ok_def)
  have sl: "length (slot (the_mq s) n) = msg_size (the_mq s)" using mq_rep_slot [OF i(1), of n] nf by simp
  have nq: "n \<notin> set qs" using mq_rep_flight [OF i(1) nf] by simp
  have fl: "mset (flight ?t) = mset (flight s)"
    using remove1_fst [OF m] by (simp add: flight_def)
  have "mq_rep (the_mq ?t) fs qs (flight s)"
    using i(1) nf b by (auto intro: rep_fill rep_clear_next)
  then have rep: "mq_rep (the_mq ?t) fs qs (flight ?t)" using rep_flight_perm [OF fl] by blast
  have "\<forall>x \<in> set (remove1 (n, buf, False) (senders s)). send_ok (the_mq ?t) x"
  proof
    fix x assume "x \<in> set (remove1 (n, buf, False) (senders s))"
    with other_callers(1) [OF d m] have "x \<in> set (senders s)" "fst x \<noteq> n" by auto
    with i(4) send_ok_frame [of "the_mq ?t" "the_mq s" x] show "send_ok (the_mq ?t) x" by simp
  qed
  moreover have "send_ok (the_mq ?t) (n, buf, True)" using b sl by (simp add: send_ok_def overlay_def)
  moreover have "\<forall>x \<in> set (receivers s). recv_ok (the_mq ?t) x"
    using other_callers(3) [OF d m] i(3) by (force simp: recv_ok_def)
  moreover have "map (slot (the_mq ?t)) qs = map (slot (the_mq s)) qs" using nq by simp
  ultimately show ?thesis
    using rep i(2) unfolding sys_inv_def by (intro exI [of _ fs] exI [of _ qs]) simp
qed

lemma link_tail_next: "mq_rep mq fs qs is \<Longrightarrow> k \<in> set is \<Longrightarrow>
  next_of (mq_link_tail n mq) k = next_of mq k"
proof -
  assume r: "mq_rep mq fs qs is" and k: "k \<in> set is"
  have "queue_tail mq = (if qs = [] then None else Some (last qs))" using r by (simp add: mq_rep_def)
  moreover have "k \<notin> set qs" using mq_rep_flight [OF r k] by simp
  ultimately show ?thesis by (auto simp: mq_link_tail_def)
qed

lemma wake_next [simp]: "next_of (fst (mq_wake mq)) = next_of mq"
  by (simp add: mq_wake_def split: list.split)

lemma step_send_link:
  assumes inv: "sys_inv s" and m: "(n, buf, True) \<in> set (senders s)"
  shows "sys_inv (s\<lparr>the_mq := fst (mq_wake (mq_link_tail n (the_mq s))),
      senders := remove1 (n, buf, True) (senders s), linked := linked s @ [slot (the_mq s) n]\<rparr>)" (is "sys_inv ?t")
proof -
  from inv obtain fs qs where i: "mq_rep (the_mq s) fs qs (flight s)"
    "linked s = taken s @ map (slot (the_mq s)) qs" "\<forall>x \<in> set (receivers s). recv_ok (the_mq s) x"
    "\<forall>x \<in> set (senders s). send_ok (the_mq s) x" unfolding sys_inv_def by blast
  have d: "distinct (flight s)" using i(1) by (simp add: mq_rep_def)
  have nf: "n \<in> set (flight s)" using sender_in_flight [OF m] by simp
  have "next_of (the_mq s) n = None" using i(4) m by (auto simp: send_ok_def)
  then have "mq_rep (mq_link_tail n (the_mq s)) fs (qs @ [n]) (remove1 n (flight s))"
    using rep_link_tail [OF i(1) nf] by simp
  moreover have "add_mset n (mset (flight ?t)) = mset (flight s)"
    using remove1_fst [OF m] by (simp add: flight_def)
  ultimately have rep: "mq_rep (the_mq ?t) fs (qs @ [n]) (flight ?t)"
    using rep_leave [OF _ _ nf] by simp
  have "\<forall>x \<in> set (senders ?t). send_ok (the_mq ?t) x"
  proof
    fix x assume "x \<in> set (senders ?t)"
    with other_callers(1) [OF d m] have x: "x \<in> set (senders s)" by auto
    with i(4) send_ok_frame [of "the_mq ?t" "the_mq s" x] link_tail_next [OF i(1) sender_in_flight [OF x], of n]
    show "send_ok (the_mq ?t) x" by simp
  qed
  moreover have "\<forall>x \<in> set (receivers s). recv_ok (the_mq ?t) x" using i(3) by (simp add: recv_ok_def)
  ultimately show ?thesis
    using rep i(2) unfolding sys_inv_def by (intro exI [of _ fs] exI [of _ "qs @ [n]"]) simp
qed

lemma step_recv_take:
  assumes inv: "sys_inv s" and t: "mq_take_head (the_mq s) = Some (n, mq')"
  shows "sys_inv (s\<lparr>the_mq := mq', receivers := (n, slot (the_mq s) n) # receivers s,
      taken := taken s @ [slot (the_mq s) n]\<rparr>)" (is "sys_inv ?t")
proof -
  from inv obtain fs qs where i: "mq_rep (the_mq s) fs qs (flight s)"
    "linked s = taken s @ map (slot (the_mq s)) qs" "\<forall>x \<in> set (receivers s). recv_ok (the_mq s) x"
    "\<forall>x \<in> set (senders s). send_ok (the_mq s) x" unfolding sys_inv_def by blast
  from rep_heads [OF i(1) t] obtain qs' where q: "qs = n # qs'" "mq_rep mq' fs qs' (n # flight s)"
    "slot mq' = slot (the_mq s)" "msg_size mq' = msg_size (the_mq s)" "next_of mq' = next_of (the_mq s)" by blast
  have fl: "mset (n # flight s) = mset (flight ?t)" by (simp add: flight_def)
  have rep: "mq_rep (the_mq ?t) fs qs' (flight ?t)" using q(2) rep_flight_perm [OF fl] by simp
  have "\<forall>x \<in> set (senders s). send_ok mq' x"
    using i(4) q(3-5) send_ok_frame [of mq' "the_mq s"] by simp
  moreover have "\<forall>x \<in> set (receivers s). recv_ok mq' x"
    using i(3) q(3) by (simp add: recv_ok_def)
  moreover have "recv_ok mq' (n, slot (the_mq s) n)" using q(3) by (simp add: recv_ok_def)
  moreover have "linked s = (taken s @ [slot (the_mq s) n]) @ map (slot mq') qs'" using i(2) q(1,3) by simp
  ultimately show ?thesis
    using rep unfolding sys_inv_def by (intro exI [of _ fs] exI [of _ qs']) simp
qed

lemma step_recv_free:
  assumes inv: "sys_inv s" and m: "(n, m) \<in> set (receivers s)"
  shows "sys_inv (s\<lparr>the_mq := mq_push_free n (the_mq s), receivers := remove1 (n, m) (receivers s)\<rparr>)" (is "sys_inv ?t")
proof -
  from inv obtain fs qs where i: "mq_rep (the_mq s) fs qs (flight s)"
    "linked s = taken s @ map (slot (the_mq s)) qs" "\<forall>x \<in> set (receivers s). recv_ok (the_mq s) x"
    "\<forall>x \<in> set (senders s). send_ok (the_mq s) x" unfolding sys_inv_def by blast
  have d: "distinct (flight s)" using i(1) by (simp add: mq_rep_def)
  have nf: "n \<in> set (flight s)" using receiver_in_flight [OF m] by simp
  have "add_mset n (mset (flight ?t)) = mset (flight s)"
    using remove1_fst [OF m] by (simp add: flight_def)
  then have rep: "mq_rep (the_mq ?t) (n # fs) qs (flight ?t)"
    using rep_leave [OF rep_push_free [OF i(1) nf]] nf by simp
  have "\<forall>x \<in> set (senders s). send_ok (the_mq ?t) x"
  proof
    fix x assume x: "x \<in> set (senders s)"
    then have "fst x \<noteq> n" using other_callers(3) [OF d x m] by simp
    with x i(4) send_ok_frame [of "the_mq ?t" "the_mq s" x]
    show "send_ok (the_mq ?t) x" by (simp add: mq_push_free_def)
  qed
  moreover have "\<forall>x \<in> set (receivers ?t). recv_ok (the_mq ?t) x"
    using i(3) by (auto simp: recv_ok_def dest: notin_set_remove1)
  ultimately show ?thesis
    using rep i(2) unfolding sys_inv_def by (intro exI [of _ "n # fs"] exI [of _ qs]) simp
qed

lemma step_wait: "sys_inv s \<Longrightarrow> sys_inv (s\<lparr>the_mq := (the_mq s)\<lparr>suspended := ts\<rparr>\<rparr>)"
  by (simp add: sys_inv_def flight_def send_ok_def recv_ok_def)

lemma mq_step_inv: "mq_step s t \<Longrightarrow> sys_inv s \<Longrightarrow> sys_inv t"
  by (erule mq_step_cases)
    (simp_all add: step_send_take step_send_copy step_send_link step_recv_take step_recv_free step_wait)

lemma mq_reachable_inv:
  assumes wf: "mq_wf mq0" "mq_messages mq0 = []" and r: "mq_reachable mq0 s"
  shows "sys_inv s"
  using r
proof (induction rule: mq_reachable.induct)
  case mq_start
  from wf obtain fs qs where "mq_rep mq0 fs qs []" "qs = []"
    using mq_messages_rep by (force simp: mq_wf_def)
  then show ?case by (auto simp: sys_inv_def flight_def)
next
  case (mq_next s t)
  then show ?case by (blast intro: mq_step_inv)
qed


section \<open>Properties\<close>

text \<open>
  Property C3 (mq_interleaving_fifo): however the critical sections of senders and receivers are
  interleaved, the messages taken so far followed by those in the queue are exactly the messages
  linked so far, in order; the entry counter counts the queued messages; no node is held by two
  callers; and a receiver that copies its message later still finds the bytes it took.
\<close>

theorem mq_interleaving_fifo:
  assumes "mq_wf mq0" "mq_messages mq0 = []" "mq_reachable mq0 s"
  shows "linked s = taken s @ mq_messages (the_mq s) \<and>
    entry (the_mq s) = length (mq_messages (the_mq s)) \<and> distinct (flight s) \<and>
    entry (the_mq s) + length (flight s) \<le> max_msgs (the_mq s) \<and>
    (\<forall>(n, m) \<in> set (receivers s). slot (the_mq s) n = m)"
proof -
  from mq_reachable_inv [OF assms] obtain fs qs where i: "mq_rep (the_mq s) fs qs (flight s)"
    "linked s = taken s @ map (slot (the_mq s)) qs" "\<forall>x \<in> set (receivers s). recv_ok (the_mq s) x"
    unfolding sys_inv_def by blast
  then have "distinct (flight s)" "mq_messages (the_mq s) = map (slot (the_mq s)) qs"
    "entry (the_mq s) = length qs" "length fs + length qs + length (flight s) = max_msgs (the_mq s)"
    by (simp_all add: mq_messages_rep mq_entry_rep mq_rep_count) (simp add: mq_rep_def)
  with i show ?thesis by (auto simp: recv_ok_def)
qed

definition demo_mq :: rt_mq where
  "demo_mq = rt_mq_create (\<lambda>_. replicate 16 0) 9 3"

lemma demo_mq_wf: "mq_wf demo_mq" "mq_messages demo_mq = []"
  unfolding demo_mq_def by (rule mq_wf_create; simp add: rt_align_def)+

lemma demo_take: "mq_take_free demo_mq = Some (2, demo_mq\<lparr>queue_free := Some 1\<rparr>)" "msg_size demo_mq = 16"
  by (simp_all add: demo_mq_def rt_mq_create_def mq_take_free_def mq_push_free_def rt_align_def numeral_3_eq_3)

theorem mq_interleaving_fifo_witness:
  "\<exists>s. mq_reachable demo_mq s \<and> flight s = [2] \<and> linked s = taken s @ mq_messages (the_mq s)
    \<and> entry (the_mq s) + 1 \<le> max_msgs (the_mq s)"
proof -
  let ?s0 = "\<lparr>the_mq = demo_mq, senders = [], receivers = [], linked = [], taken = []\<rparr>"
  let ?s1 = "?s0\<lparr>the_mq := demo_mq\<lparr>queue_free := Some 1\<rparr>, senders := [(2, [7], False)]\<rparr>"
  have "mq_step ?s0 ?s1"
    using send_take [of "[7]" ?s0 2 "demo_mq\<lparr>queue_free := Some 1\<rparr>"] demo_take by simp
  then have r: "mq_reachable demo_mq ?s1" using mq_start mq_next by blast
  have "flight ?s1 = [2]" by (simp add: flight_def)
  with mq_interleaving_fifo [OF demo_mq_wf r] r show ?thesis by fastforce
qed



end
