(* ===== verification/Rt_Semaphore.thy ===== *)
theory Rt_Semaphore
  imports Cash_Prelude
begin

text \<open>
  Waiting lists and semaphores of the kernel (src/src/ipc.c). Threads are numbers; prio gives
  their current priority, smaller numbers first. A call that has to wait puts its thread into the
  waiting list; it goes on when a release hands it the semaphore, or when its timer expires.
\<close>

section \<open>Waiting lists\<close>

type_synonym tid = nat

datatype ipc_flag = RT_IPC_FLAG_FIFO | RT_IPC_FLAG_PRIO

fun prio_insert :: "(tid \<Rightarrow> u8) \<Rightarrow> tid \<Rightarrow> tid list \<Rightarrow> tid list" where
  "prio_insert prio t [] = [t]"
| "prio_insert prio t (s # ss) = (if prio t < prio s then t # s # ss else s # prio_insert prio t ss)"

definition rt_ipc_list_suspend :: "(tid \<Rightarrow> u8) \<Rightarrow> ipc_flag \<Rightarrow> tid list \<Rightarrow> tid \<Rightarrow> tid list" where
  "rt_ipc_list_suspend prio flag ts t = (case flag of
     RT_IPC_FLAG_FIFO \<Rightarrow> ts @ [t]
   | RT_IPC_FLAG_PRIO \<Rightarrow> prio_insert prio t ts)"

text \<open>Resuming all threads: those that go on, each with an error, and the empty list.\<close>

fun rt_ipc_list_resume_all :: "tid list \<Rightarrow> tid list \<times> tid list" where
  "rt_ipc_list_resume_all [] = ([], [])"
| "rt_ipc_list_resume_all (t # ts) = (let (woken, rest) = rt_ipc_list_resume_all ts in (t # woken, rest))"

section \<open>Semaphores\<close>

record rt_sem =
  sem_value :: u16
  sem_flag :: ipc_flag
  sem_waiting :: "tid list"

definition rt_sem_init :: "u32 \<Rightarrow> ipc_flag \<Rightarrow> rt_sem" where
  "rt_sem_init v flag = \<lparr>sem_value = ucast v, sem_flag = flag, sem_waiting = []\<rparr>"

definition rt_sem_create :: "u32 \<Rightarrow> ipc_flag \<Rightarrow> rt_sem" where
  "rt_sem_create v flag = \<lparr>sem_value = ucast v, sem_flag = flag, sem_waiting = []\<rparr>"

text \<open>Detaching and deleting wake all waiting threads with an error.\<close>

definition rt_sem_detach :: "rt_sem \<Rightarrow> tid list" where
  "rt_sem_detach s = fst (rt_ipc_list_resume_all (sem_waiting s))"

definition rt_sem_delete :: "rt_sem \<Rightarrow> tid list" where
  "rt_sem_delete s = fst (rt_ipc_list_resume_all (sem_waiting s))"

datatype take_res = Taken | TimedOut | Waits

definition rt_sem_take :: "(tid \<Rightarrow> u8) \<Rightarrow> rt_sem \<Rightarrow> tid \<Rightarrow> int \<Rightarrow> take_res \<times> rt_sem" where
  "rt_sem_take prio s t time =
     (if 0 < sem_value s then (Taken, s\<lparr>sem_value := sem_value s - 1\<rparr>)
      else if time = 0 then (TimedOut, s)
      else (Waits, s\<lparr>sem_waiting := rt_ipc_list_suspend prio (sem_flag s) (sem_waiting s) t\<rparr>))"

definition rt_sem_trytake :: "(tid \<Rightarrow> u8) \<Rightarrow> rt_sem \<Rightarrow> tid \<Rightarrow> take_res \<times> rt_sem" where
  "rt_sem_trytake prio s t = rt_sem_take prio s t 0"

text \<open>A release answers the thread it wakes.\<close>

definition rt_sem_release :: "rt_sem \<Rightarrow> tid option \<times> rt_sem" where
  "rt_sem_release s = (case sem_waiting s of
     t # ts \<Rightarrow> (Some t, s\<lparr>sem_waiting := ts\<rparr>)
   | [] \<Rightarrow> (None, s\<lparr>sem_value := sem_value s + 1\<rparr>))"

definition RT_IPC_CMD_RESET :: u8 where "RT_IPC_CMD_RESET = 1"

definition rt_sem_control :: "rt_sem \<Rightarrow> u8 \<Rightarrow> u32 \<Rightarrow> (bool \<times> tid list \<times> rt_sem)" where
  "rt_sem_control s cmd arg =
     (if cmd = RT_IPC_CMD_RESET then
        let (woken, rest) = rt_ipc_list_resume_all (sem_waiting s) in
        (True, woken, s\<lparr>sem_waiting := rest, sem_value := ucast arg\<rparr>)
      else (False, [], s))"

section \<open>Threads on one semaphore\<close>

datatype sem_event = Granted tid | Expired tid | Refused tid

record sem_sys =
  sem :: rt_sem
  released :: nat
  log :: "sem_event list"

text \<open>
  The steps of the threads: taking, with any waiting time, by a thread that is not waiting;
  releasing; and the timer of a waiting thread, which takes it out of the list.
\<close>

inductive sem_step :: "(tid \<Rightarrow> u8) \<Rightarrow> sem_sys \<Rightarrow> sem_sys \<Rightarrow> bool" for prio where
  take_now: "t \<notin> set (sem_waiting (sem s)) \<Longrightarrow> rt_sem_take prio (sem s) t time = (Taken, m) \<Longrightarrow>
    sem_step prio s (s\<lparr>sem := m, log := log s @ [Granted t]\<rparr>)"
| take_fails: "t \<notin> set (sem_waiting (sem s)) \<Longrightarrow> rt_sem_take prio (sem s) t time = (TimedOut, m) \<Longrightarrow>
    sem_step prio s (s\<lparr>sem := m, log := log s @ [Refused t]\<rparr>)"
| take_waits: "t \<notin> set (sem_waiting (sem s)) \<Longrightarrow> rt_sem_take prio (sem s) t time = (Waits, m) \<Longrightarrow>
    sem_step prio s (s\<lparr>sem := m\<rparr>)"
| release: "rt_sem_release (sem s) = (None, m) \<Longrightarrow> sem_step prio s (s\<lparr>sem := m, released := released s + 1\<rparr>)"
| release_wakes: "rt_sem_release (sem s) = (Some t, m) \<Longrightarrow>
    sem_step prio s (s\<lparr>sem := m, released := released s + 1, log := log s @ [Granted t]\<rparr>)"
| timer: "t \<in> set (sem_waiting (sem s)) \<Longrightarrow>
    sem_step prio s (s\<lparr>sem := (sem s)\<lparr>sem_waiting := remove1 t (sem_waiting (sem s))\<rparr>, log := log s @ [Expired t]\<rparr>)"

inductive_cases sem_stepE: "sem_step prio s s'"

fun is_grant :: "sem_event \<Rightarrow> bool" where
  "is_grant (Granted t) = True"
| "is_grant _ = False"

definition grants :: "sem_sys \<Rightarrow> nat" where
  "grants s = length (filter is_grant (log s))"

definition sem_start :: "u32 \<Rightarrow> ipc_flag \<Rightarrow> sem_sys" where
  "sem_start v flag = \<lparr>sem = rt_sem_create v flag, released = 0, log = []\<rparr>"

section \<open>Lemmas\<close>

lemma resume_all [simp]: "rt_ipc_list_resume_all ts = (ts, [])"
  by (induction ts) simp_all

lemma prio_insert_set [simp]: "set (prio_insert prio t ts) = insert t (set ts)"
  by (induction ts) auto

lemma prio_insert_distinct [simp]: "distinct (prio_insert prio t ts) \<longleftrightarrow> t \<notin> set ts \<and> distinct ts"
  by (induction ts) auto

lemma prio_insert_sorted: "sorted (map prio ts) \<Longrightarrow> sorted (map prio (prio_insert prio t ts))"
  by (induction ts) (auto simp: not_less)

lemma suspend_set [simp]: "set (rt_ipc_list_suspend prio flag ts t) = insert t (set ts)"
  by (cases flag) (simp_all add: rt_ipc_list_suspend_def)

lemma suspend_distinct [simp]: "distinct (rt_ipc_list_suspend prio flag ts t) \<longleftrightarrow> t \<notin> set ts \<and> distinct ts"
  by (cases flag) (auto simp: rt_ipc_list_suspend_def)

lemma suspend_sorted:
  "sorted (map prio ts) \<Longrightarrow> sorted (map prio (rt_ipc_list_suspend prio RT_IPC_FLAG_PRIO ts t))"
  by (simp add: rt_ipc_list_suspend_def prio_insert_sorted)

text \<open>The invariant: the count of the semaphore, and nobody waits while it is available.\<close>

definition sem_inv :: "nat \<Rightarrow> sem_sys \<Rightarrow> bool" where
  "sem_inv v s \<longleftrightarrow> unat (sem_value (sem s)) + grants s = v + released s \<and>
     (0 < sem_value (sem s) \<longrightarrow> sem_waiting (sem s) = []) \<and> distinct (sem_waiting (sem s))"

lemma unat_dec: "0 < (x :: u16) \<Longrightarrow> unat (x - 1) = unat x - 1"
  by (simp add: unat_sub word_le_nat_alt Suc_leI word_less_nat_alt)

lemma unat_inc: "unat (x :: u16) + 1 < 65536 \<Longrightarrow> unat (x + 1) = unat x + 1"
  using unat_add_lem [of x 1] by simp

lemma sem_step_released: "sem_step prio s s' \<Longrightarrow> released s \<le> released s'"
  by (erule sem_stepE) auto

lemma sem_step_inv:
  assumes "sem_step prio s s'" "sem_inv v s" "v + released s' < 65536"
  shows "sem_inv v s'"
  using assms
proof (cases rule: sem_step.cases)
  case (release m)
  then show ?thesis using assms(2,3) unat_inc [of "sem_value (sem s)"]
    by (auto simp: sem_inv_def rt_sem_release_def grants_def split: list.splits)
qed (auto simp: sem_inv_def rt_sem_take_def rt_sem_release_def grants_def unat_dec word_less_nat_alt split: if_splits list.splits)

lemma sem_steps_released: "(sem_step prio)\<^sup>*\<^sup>* s s' \<Longrightarrow> released s \<le> released s'"
  by (induction rule: rtranclp_induct) (auto dest: sem_step_released)

lemma sem_steps_inv:
  "(sem_step prio)\<^sup>*\<^sup>* s s' \<Longrightarrow> sem_inv v s \<Longrightarrow> v + released s' < 65536 \<Longrightarrow> sem_inv v s'"
proof (induction rule: rtranclp_induct)
  case (step s1 s2)
  then have "v + released s1 < 65536" using sem_step_released [OF step.hyps(2)] by linarith
  then show ?case using step sem_step_inv by blast
qed

lemma sem_start_inv: "unat v < 65536 \<Longrightarrow> sem_inv (unat v) (sem_start v flag)"
  by (simp add: sem_inv_def sem_start_def rt_sem_create_def grants_def unat_ucast_u32_u16)

text \<open>A waiter of a first-come list: where it stands now, and what happened to it since.\<close>

definition served :: "tid \<Rightarrow> sem_event list \<Rightarrow> bool" where
  "served t es \<longleftrightarrow> Granted t \<in> set es \<or> Expired t \<in> set es"

definition ahead :: "tid \<Rightarrow> nat \<Rightarrow> sem_sys \<Rightarrow> bool" where
  "ahead t k s \<longleftrightarrow> (\<exists>xs ys. sem_waiting (sem s) = xs @ t # ys \<and> length xs \<le> k)"

lemma remove1_ahead:
  assumes "w = xs @ t # ys" "length xs \<le> k" "u \<noteq> t"
  shows "\<exists>xs' ys'. remove1 u w = xs' @ t # ys' \<and> length xs' \<le> k"
proof (cases "u \<in> set xs")
  case True
  then have "remove1 u w = remove1 u xs @ t # ys" by (simp add: assms(1) remove1_append)
  moreover have "length (remove1 u xs) \<le> length xs" by (simp add: length_remove1)
  then have "length (remove1 u xs) \<le> k" using assms(2) by (rule order_trans)
  ultimately show ?thesis by blast
next
  case False
  then have "remove1 u w = xs @ t # remove1 u ys" using assms(3) by (simp add: assms(1) remove1_append)
  then show ?thesis using assms(2) by blast
qed

lemma sem_step_ahead:
  assumes "sem_step prio s s'" "sem_flag (sem s) = RT_IPC_FLAG_FIFO" "ahead t k s"
  shows "sem_flag (sem s') = RT_IPC_FLAG_FIFO \<and> (\<exists>es. log s' = log s @ es \<and>
    (served t es \<or> (released s' = released s \<and> ahead t k s') \<or> (released s' = released s + 1 \<and> 0 < k \<and> ahead t (k - 1) s')))"
proof -
  from assms(3) obtain xs ys where w: "sem_waiting (sem s) = xs @ t # ys" "length xs \<le> k" by (auto simp: ahead_def)
  have keep: "ahead t k s'" if "sem_waiting (sem s') = sem_waiting (sem s)" using assms(3) that by (simp add: ahead_def)
  from assms(1) show ?thesis
  proof (cases rule: sem_step.cases)
    case (take_waits t' time m)
    then have "sem_waiting m = xs @ t # (ys @ [t'])" "sem_flag m = RT_IPC_FLAG_FIFO"
      using w assms(2) by (auto simp: rt_sem_take_def rt_ipc_list_suspend_def split: if_splits)
    then show ?thesis using take_waits(1) w(2) by (fastforce simp: ahead_def)
  next
    case (release m)
    then show ?thesis using w by (auto simp: rt_sem_release_def split: list.splits)
  next
    case (release_wakes t' m)
    show ?thesis
    proof (cases xs)
      case Nil
      then show ?thesis using release_wakes w assms(2) by (auto simp: rt_sem_release_def served_def)
    next
      case (Cons x xs')
      then have "sem_waiting m = xs' @ t # ys" "sem_flag m = RT_IPC_FLAG_FIFO" "length xs' \<le> k - 1" "0 < k"
        using release_wakes w assms(2) by (auto simp: rt_sem_release_def)
      then show ?thesis using release_wakes(1) by (auto simp: ahead_def)
    qed
  next
    case (timer t')
    show ?thesis
    proof (cases "t' = t")
      case True
      then show ?thesis using timer assms(2) by (auto simp: served_def)
    next
      case False
      then show ?thesis using timer(1) assms(2) remove1_ahead [OF w False] by (auto simp: ahead_def)
    qed
  qed (use assms(2) keep in \<open>auto simp: rt_sem_take_def split: if_splits\<close>)
qed

lemma sem_steps_ahead:
  assumes "(sem_step prio)\<^sup>*\<^sup>* s s'" "sem_flag (sem s) = RT_IPC_FLAG_FIFO" "ahead t k s"
  shows "sem_flag (sem s') = RT_IPC_FLAG_FIFO \<and> (\<exists>es. log s' = log s @ es \<and>
    (served t es \<or> (released s' \<le> released s + k \<and> ahead t (k - (released s' - released s)) s')))"
  using assms(1)
proof (induction rule: rtranclp_induct)
  case base
  then show ?case using assms(2,3) by simp
next
  case (step s1 s2)
  from step.IH obtain es where fl: "sem_flag (sem s1) = RT_IPC_FLAG_FIFO" and es: "log s1 = log s @ es"
    and d: "served t es \<or> (released s1 \<le> released s + k \<and> ahead t (k - (released s1 - released s)) s1)" by blast
  have mono: "released s \<le> released s1" using sem_steps_released [OF step.hyps(1)] .
  have log2: "\<exists>es2. log s2 = log s1 @ es2" using step.hyps(2) by (cases rule: sem_step.cases) auto
  have fl2: "sem_flag (sem s2) = RT_IPC_FLAG_FIFO"
    using step.hyps(2) fl by (cases rule: sem_step.cases) (auto simp: rt_sem_take_def rt_sem_release_def split: if_splits list.splits)
  show ?case
  proof (cases "served t es")
    case True
    then show ?thesis using fl2 log2 es by (auto simp: served_def)
  next
    case False
    with d have a: "released s1 \<le> released s + k" "ahead t (k - (released s1 - released s)) s1" by auto
    obtain es2 where es2: "log s2 = log s1 @ es2"
      "served t es2 \<or> (released s2 = released s1 \<and> ahead t (k - (released s1 - released s)) s2) \<or>
       (released s2 = released s1 + 1 \<and> 0 < k - (released s1 - released s) \<and> ahead t (k - (released s1 - released s) - 1) s2)"
      using sem_step_ahead [OF step.hyps(2) fl a(2)] by blast
    have l: "log s2 = log s @ (es @ es2)" using es es2(1) by simp
    from es2(2) show ?thesis
    proof (elim disjE conjE)
      assume "served t es2"
      then have "served t (es @ es2)" by (auto simp: served_def)
      then show ?thesis using fl2 l by blast
    next
      assume "released s2 = released s1" "ahead t (k - (released s1 - released s)) s2"
      then show ?thesis using fl2 l a(1) by auto
    next
      assume b: "released s2 = released s1 + 1" "0 < k - (released s1 - released s)" "ahead t (k - (released s1 - released s) - 1) s2"
      have "k - (released s1 - released s) - 1 = k - (released s2 - released s)" using b(1) mono by linarith
      moreover have "released s2 \<le> released s + k" using b(1,2) mono by linarith
      ultimately show ?thesis using b(3) fl2 l by auto
    qed
  qed
qed

section \<open>Properties\<close>

text \<open>
  Property C37 (sem_conservation): the count of a semaphore. However threads take, wait, time out
  and release, as long as the initial value and the releases together stay below 65536 (the
  counter has 16 bits and is not checked) the value plus the number of grants is the initial value
  plus the number of releases, and no thread waits while the semaphore is available.
\<close>

theorem sem_conservation:
  assumes "(sem_step prio)\<^sup>*\<^sup>* (sem_start v flag) s" "unat v + released s < 65536"
  shows "unat (sem_value (sem s)) + grants s = unat v + released s \<and>
    (0 < sem_value (sem s) \<longrightarrow> sem_waiting (sem s) = [])"
  using sem_steps_inv [OF assms(1) sem_start_inv assms(2)] assms(2) by (simp add: sem_inv_def)

text \<open>
  No waiter is overtaken. On a first-come semaphore a thread with
  k threads before it in the waiting list has got the semaphore, or its own timer has expired, once
  more than k releases have happened, whatever the other threads do in between.
\<close>

theorem sem_waiter_served:
  assumes "(sem_step prio)\<^sup>*\<^sup>* s s'" "sem_flag (sem s) = RT_IPC_FLAG_FIFO"
    and "sem_waiting (sem s) = xs @ t # ys" "released s + length xs < released s'"
  shows "\<exists>es. log s' = log s @ es \<and> (Granted t \<in> set es \<or> Expired t \<in> set es)"
proof -
  have "ahead t (length xs) s" using assms(3) by (auto simp: ahead_def)
  from sem_steps_ahead [OF assms(1,2) this] assms(4) show ?thesis by (auto simp: served_def)
qed

definition demo_sem :: sem_sys where
  "demo_sem = \<lparr>sem = \<lparr>sem_value = 0, sem_flag = RT_IPC_FLAG_FIFO, sem_waiting = [5]\<rparr>, released = 0, log = []\<rparr>"

lemma demo_sem_run: "(sem_step (\<lambda>_. 0))\<^sup>*\<^sup>* (sem_start 0 RT_IPC_FLAG_FIFO) demo_sem"
proof (rule r_into_rtranclp)
  have "sem_step (\<lambda>_. 0) (sem_start 0 RT_IPC_FLAG_FIFO) (sem_start 0 RT_IPC_FLAG_FIFO\<lparr>sem := sem demo_sem\<rparr>)"
    by (rule sem_step.take_waits [where t = 5 and time = "-1"])
      (simp_all add: sem_start_def rt_sem_create_def demo_sem_def rt_sem_take_def rt_ipc_list_suspend_def)
  then show "sem_step (\<lambda>_. 0) (sem_start 0 RT_IPC_FLAG_FIFO) demo_sem" by (simp add: sem_start_def demo_sem_def)
qed

theorem sem_conservation_witness:
  "unat (sem_value (sem demo_sem)) + grants demo_sem = 0 \<and> sem_waiting (sem demo_sem) = [5]"
  using sem_conservation [OF demo_sem_run] by (simp add: demo_sem_def)

theorem sem_waiter_served_witness:
  "\<exists>s' es. (sem_step (\<lambda>_. 0))\<^sup>*\<^sup>* demo_sem s' \<and> log s' = log demo_sem @ es \<and> (Granted 5 \<in> set es \<or> Expired 5 \<in> set es)"
proof -
  let ?s' = "demo_sem\<lparr>sem := (sem demo_sem)\<lparr>sem_waiting := []\<rparr>, released := released demo_sem + 1, log := log demo_sem @ [Granted 5]\<rparr>"
  have st: "(sem_step (\<lambda>_. 0))\<^sup>*\<^sup>* demo_sem ?s'"
    by (rule r_into_rtranclp, rule sem_step.release_wakes) (simp add: rt_sem_release_def demo_sem_def)
  have "\<exists>es. log ?s' = log demo_sem @ es \<and> (Granted 5 \<in> set es \<or> Expired 5 \<in> set es)"
    by (rule sem_waiter_served [OF st, where xs = "[]" and ys = "[]"]) (simp_all add: demo_sem_def)
  then show ?thesis using st by blast
qed

end
