(* ===== verification/Rt_Scheduler.thy ===== *)
theory Rt_Scheduler
  imports Rt_Timer Rt_Lib Rt_MessageQueue Rt_Semaphore
begin

text \<open>
  The scheduler and the threads of the kernel (src/src/scheduler.c, src/src/thread.c, the idle thread of src/src/idle.c and
  rt_tick_increase of src/src/clock.c), on top of the timers: the timer of thread x is timer x, and these are the only
  timers that the firmware uses. A thread's tlist links it into at most one list: a row of the priority table, the
  waiting list of an IPC object (numbered) or the list of defunct threads; rt_list_remove takes it out of
  whichever it is in (unlink). Which thread has the processor is rt_current_thread; the exchange of the registers, the
  stacks and their check, object names and hooks are left out.
\<close>

abbreviation RT_THREAD_PRIORITY_MAX :: nat where "RT_THREAD_PRIORITY_MAX \<equiv> 32"

datatype th_stat = RT_THREAD_INIT | RT_THREAD_READY | RT_THREAD_SUSPEND | RT_THREAD_CLOSE

record rt_thread =
  t_stat :: th_stat
  current_priority :: u8
  init_priority :: u8
  number_mask :: u32
  slice_ticks :: u32
  remaining_tick :: u32
  t_error :: rt_err
  t_system :: bool
  t_cleanup :: bool

record sched = timers +
  priority_table :: "nat list list"
  ready_group :: u32
  rt_current_thread :: "nat option"
  rt_current_priority :: u8
  lock_nest :: "16 word"
  wait_lists :: "nat \<Rightarrow> nat list"
  defunct :: "nat list"
  thr :: "nat \<Rightarrow> rt_thread"

abbreviation stat :: "sched \<Rightarrow> nat \<Rightarrow> th_stat" where "stat s x \<equiv> t_stat (thr s x)"
abbreviation prio :: "sched \<Rightarrow> nat \<Rightarrow> nat" where "prio s x \<equiv> unat (current_priority (thr s x))"

definition upd_thr :: "nat \<Rightarrow> (rt_thread \<Rightarrow> rt_thread) \<Rightarrow> sched \<Rightarrow> sched" where
  "upd_thr x f s = s\<lparr>thr := (thr s)(x := f (thr s x))\<rparr>"

abbreviation put_stat :: "nat \<Rightarrow> th_stat \<Rightarrow> sched \<Rightarrow> sched" where
  "put_stat x st s \<equiv> upd_thr x (\<lambda>t. t\<lparr>t_stat := st\<rparr>) s"

definition unlink :: "nat \<Rightarrow> sched \<Rightarrow> sched" where
  "unlink x s = s\<lparr>priority_table := map (remove1 x) (priority_table s),
     wait_lists := (\<lambda>w. remove1 x (wait_lists s w)), defunct := remove1 x (defunct s)\<rparr>"

section \<open>The scheduler\<close>

definition rt_system_scheduler_init :: "sched \<Rightarrow> sched" where
  "rt_system_scheduler_init s = s\<lparr>lock_nest := 0, priority_table := replicate RT_THREAD_PRIORITY_MAX [],
     rt_current_priority := of_nat (RT_THREAD_PRIORITY_MAX - 1), rt_current_thread := None, ready_group := 0, defunct := []\<rparr>"

text \<open>The first thread of the row of the lowest set bit; an empty row has no thread to switch to (None).\<close>

definition highest_ready :: "sched \<Rightarrow> (nat \<times> nat) option" where
  "highest_ready s = do {
     b \<leftarrow> rt_ffs (ready_group s);
     row \<leftarrow> (if b = 0 then None else rd (priority_table s) (b - 1));
     (case row of [] \<Rightarrow> None | x # _ \<Rightarrow> Some (b - 1, x))
   }"

definition rt_system_scheduler_start :: "sched \<Rightarrow> sched option" where
  "rt_system_scheduler_start s = do { (p, x) \<leftarrow> highest_ready s; Some (s\<lparr>rt_current_thread := Some x\<rparr>) }"

definition rt_schedule :: "sched \<Rightarrow> sched option" where
  "rt_schedule s =
     (if lock_nest s = 0 then do {
        (p, x) \<leftarrow> highest_ready s;
        Some (if Some x \<noteq> rt_current_thread s then s\<lparr>rt_current_priority := of_nat p, rt_current_thread := Some x\<rparr> else s)
      } else Some s)"

definition rt_schedule_insert_thread :: "nat \<Rightarrow> sched \<Rightarrow> sched option" where
  "rt_schedule_insert_thread x s = do {
     row \<leftarrow> rd (priority_table s) (prio s x);
     tab \<leftarrow> wr (priority_table s) (prio s x) (row @ [x]);
     Some ((put_stat x RT_THREAD_READY s)\<lparr>priority_table := tab, ready_group := ready_group s OR number_mask (thr s x)\<rparr>)
   }"

definition rt_schedule_remove_thread :: "nat \<Rightarrow> sched \<Rightarrow> sched option" where
  "rt_schedule_remove_thread x s = do {
     row \<leftarrow> rd (priority_table (unlink x s)) (prio s x);
     Some (if row = [] then (unlink x s)\<lparr>ready_group := ready_group s AND NOT (number_mask (thr s x))\<rparr> else unlink x s)
   }"

definition rt_enter_critical :: "sched \<Rightarrow> sched" where
  "rt_enter_critical s = s\<lparr>lock_nest := lock_nest s + 1\<rparr>"

definition rt_exit_critical :: "sched \<Rightarrow> sched option" where
  "rt_exit_critical s =
     (let n = lock_nest s - 1 in if n \<le>s 0 then rt_schedule (s\<lparr>lock_nest := 0\<rparr>) else Some (s\<lparr>lock_nest := n\<rparr>))"

section \<open>Threads\<close>

text \<open>_rt_thread_init; the mask of the priority is not set here.\<close>

definition rt_thread_init :: "nat \<Rightarrow> u8 \<Rightarrow> u32 \<Rightarrow> bool \<Rightarrow> sched \<Rightarrow> sched option" where
  "rt_thread_init x priority tick system s =
     (if unat priority < RT_THREAD_PRIORITY_MAX
      then Some (rt_timer_init x 0 0 (upd_thr x (\<lambda>t. t\<lparr>t_stat := RT_THREAD_INIT, current_priority := priority, init_priority := priority,
        slice_ticks := tick, remaining_tick := tick, t_error := RT_EOK, t_system := system, t_cleanup := False\<rparr>) s))
      else None)"

text \<open>mem and stack are the answers of the heap (None: no memory); without a stack the object is given back.\<close>

definition rt_thread_create :: "nat option \<Rightarrow> bool \<Rightarrow> u8 \<Rightarrow> u32 \<Rightarrow> sched \<Rightarrow> (nat option \<times> sched) option" where
  "rt_thread_create mem stack priority tick s =
     (case mem of None \<Rightarrow> Some (None, s)
      | Some x \<Rightarrow> if stack then map_option (Pair (Some x)) (rt_thread_init x priority tick False s) else Some (None, s))"

text \<open>1L << p for a priority p.\<close>

definition prio_mask :: "u8 \<Rightarrow> u32 option" where
  "prio_mask p = (if unat p < 32 then Some (push_bit (unat p) 1) else None)"

definition rt_thread_suspend :: "nat \<Rightarrow> sched \<Rightarrow> (bool \<times> sched) option" where
  "rt_thread_suspend x s =
     (if stat s x \<noteq> RT_THREAD_READY then Some (False, s)
      else map_option (Pair True) (rt_schedule_remove_thread x (put_stat x RT_THREAD_SUSPEND s)))"

definition rt_thread_resume :: "nat \<Rightarrow> sched \<Rightarrow> (bool \<times> sched) option" where
  "rt_thread_resume x s =
     (if stat s x \<noteq> RT_THREAD_SUSPEND then Some (False, s)
      else map_option (Pair True) (rt_schedule_insert_thread x (snd (rt_timer_stop x (unlink x s)))))"

definition rt_thread_startup :: "nat \<Rightarrow> sched \<Rightarrow> sched option" where
  "rt_thread_startup x s =
     (if stat s x \<noteq> RT_THREAD_INIT then None else do {
        m \<leftarrow> prio_mask (init_priority (thr s x));
        (_, s1) \<leftarrow> rt_thread_resume x (upd_thr x (\<lambda>t. t\<lparr>current_priority := init_priority t, number_mask := m, t_stat := RT_THREAD_SUSPEND\<rparr>) s);
        (if rt_current_thread s1 \<noteq> None then rt_schedule s1 else Some s1)
      })"

definition rt_thread_detach :: "nat \<Rightarrow> sched \<Rightarrow> sched option" where
  "rt_thread_detach x s = do {
     s1 \<leftarrow> rt_schedule_remove_thread x s;
     let s2 = put_stat x RT_THREAD_CLOSE (rt_timer_detach x s1);
     Some (if t_cleanup (thr s2 x) then s2\<lparr>defunct := x # defunct s2\<rparr> else s2)
   }"

definition rt_thread_delete :: "nat \<Rightarrow> sched \<Rightarrow> sched option" where
  "rt_thread_delete x s = do {
     s1 \<leftarrow> rt_schedule_remove_thread x s;
     let s2 = put_stat x RT_THREAD_CLOSE (rt_timer_detach x s1);
     Some (s2\<lparr>defunct := x # defunct s2\<rparr>)
   }"

definition rt_thread_exit :: "sched \<Rightarrow> sched option" where
  "rt_thread_exit s = do {
     x \<leftarrow> rt_current_thread s;
     s1 \<leftarrow> rt_schedule_remove_thread x s;
     let s2 = rt_timer_detach x (put_stat x RT_THREAD_CLOSE s1);
     rt_schedule (if t_system (thr s2 x) \<and> \<not> t_cleanup (thr s2 x) then s2 else s2\<lparr>defunct := x # defunct s2\<rparr>)
   }"

text \<open>tlist.next and tlist.prev of a thread of a row differ exactly if the row has more than one thread.\<close>

definition rt_thread_yield :: "sched \<Rightarrow> sched option" where
  "rt_thread_yield s = do {
     x \<leftarrow> rt_current_thread s;
     row \<leftarrow> rd (priority_table s) (prio s x);
     (if stat s x = RT_THREAD_READY \<and> 1 < length row then do {
        row' \<leftarrow> rd (priority_table (unlink x s)) (prio s x);
        tab \<leftarrow> wr (priority_table (unlink x s)) (prio s x) (row' @ [x]);
        rt_schedule ((unlink x s)\<lparr>priority_table := tab\<rparr>)
      } else Some s)
   }"

text \<open>Sleeping up to the point where the processor is given away, and what follows when the thread has it again.\<close>

definition rt_thread_sleep :: "u32 \<Rightarrow> sched \<Rightarrow> sched option" where
  "rt_thread_sleep tick s = do {
     x \<leftarrow> rt_current_thread s;
     (_, s1) \<leftarrow> rt_thread_suspend x s;
     (_, s2) \<leftarrow> rt_timer_start x (snd (rt_timer_control x 0 tick s1));
     rt_schedule s2
   }"

definition sleep_return :: "nat \<Rightarrow> sched \<Rightarrow> sched" where
  "sleep_return x s = (if t_error (thr s x) = RT_ETIMEOUT then upd_thr x (\<lambda>t. t\<lparr>t_error := RT_EOK\<rparr>) s else s)"

text \<open>rt_thread_control with RT_THREAD_CTRL_CHANGE_PRIORITY; the other commands call rt_thread_startup and rt_thread_delete.\<close>

definition rt_thread_control_prio :: "nat \<Rightarrow> u8 \<Rightarrow> sched \<Rightarrow> sched option" where
  "rt_thread_control_prio x p s =
     (if stat s x = RT_THREAD_READY then do {
        s1 \<leftarrow> rt_schedule_remove_thread x s;
        m \<leftarrow> prio_mask p;
        rt_schedule_insert_thread x (upd_thr x (\<lambda>t. t\<lparr>current_priority := p, number_mask := m\<rparr>) s1)
      } else do {
        m \<leftarrow> prio_mask p;
        Some (upd_thr x (\<lambda>t. t\<lparr>current_priority := p, number_mask := m\<rparr>) s)
      })"

definition rt_thread_timeout :: "nat \<Rightarrow> sched \<Rightarrow> sched option" where
  "rt_thread_timeout x s =
     (if stat s x \<noteq> RT_THREAD_SUSPEND then None else do {
        s1 \<leftarrow> rt_schedule_insert_thread x (unlink x (upd_thr x (\<lambda>t. t\<lparr>t_error := RT_ETIMEOUT\<rparr>) s));
        rt_schedule s1
      })"

text \<open>How an IPC call blocks (rt_sem_take and the like), and how one releases the first waiting thread.\<close>

definition ipc_block :: "nat \<Rightarrow> ipc_flag \<Rightarrow> int \<Rightarrow> sched \<Rightarrow> sched option" where
  "ipc_block w flag time s = do {
     x \<leftarrow> rt_current_thread s;
     (_, s1) \<leftarrow> rt_thread_suspend x (upd_thr x (\<lambda>t. t\<lparr>t_error := RT_EOK\<rparr>) s);
     let s2 = s1\<lparr>wait_lists := (wait_lists s1)(w := rt_ipc_list_suspend (\<lambda>y. current_priority (thr s1 y)) flag (wait_lists s1 w) x)\<rparr>;
     s3 \<leftarrow> (if 0 < time then map_option snd (rt_timer_start x (snd (rt_timer_control x 0 (of_int time) s2))) else Some s2);
     rt_schedule s3
   }"

definition ipc_release :: "nat \<Rightarrow> sched \<Rightarrow> sched option" where
  "ipc_release w s = (case wait_lists s w of [] \<Rightarrow> Some s | x # _ \<Rightarrow> map_option snd (rt_thread_resume x s))"

text \<open>
  The idle thread takes defunct threads out of their list and gives their memory back, up to the first that is a
  system object; the answer is the threads it takes.
\<close>

fun idle_taken :: "(nat \<Rightarrow> bool) \<Rightarrow> nat list \<Rightarrow> nat list" where
  "idle_taken system [] = []"
| "idle_taken system (x # xs) = (if system x then [x] else x # idle_taken system xs)"

definition rt_thread_idle_excute :: "sched \<Rightarrow> nat list \<times> sched" where
  "rt_thread_idle_excute s = (let xs = idle_taken (\<lambda>x. t_system (thr s x)) (defunct s) in (xs, fold unlink xs s))"

definition rt_thread_idle_init :: "nat \<Rightarrow> sched \<Rightarrow> sched option" where
  "rt_thread_idle_init idle s = Option.bind (rt_thread_init idle (of_nat (RT_THREAD_PRIORITY_MAX - 1)) 32 True s) (rt_thread_startup idle)"

definition rt_tick_increase :: "sched \<Rightarrow> sched option" where
  "rt_tick_increase s = do {
     x \<leftarrow> rt_current_thread (s\<lparr>rt_tick := rt_tick s + 1\<rparr>);
     let s1 = upd_thr x (\<lambda>t. t\<lparr>remaining_tick := remaining_tick t - 1\<rparr>) (s\<lparr>rt_tick := rt_tick s + 1\<rparr>);
     s2 \<leftarrow> (if remaining_tick (thr s1 x) = 0
            then rt_thread_yield (upd_thr x (\<lambda>t. t\<lparr>remaining_tick := slice_ticks t\<rparr>) s1) else Some s1);
     rt_timer_check rt_thread_timeout s2
   }"

section \<open>The invariant\<close>

text \<open>Row p holds exactly the ready threads of priority p, and bit p of the group says whether there are any.\<close>

definition rows_ok :: "sched \<Rightarrow> bool" where
  "rows_ok s \<longleftrightarrow> length (priority_table s) = 32 \<and> (\<forall>p<32. distinct (priority_table s ! p)
     \<and> set (priority_table s ! p) = {x. stat s x = RT_THREAD_READY \<and> prio s x = p}
     \<and> (bit (ready_group s) p \<longleftrightarrow> priority_table s ! p \<noteq> []))"

text \<open>Only suspended threads wait, each in one list; only closed threads are defunct.\<close>

definition lists_ok :: "sched \<Rightarrow> bool" where
  "lists_ok s \<longleftrightarrow> (\<forall>w. distinct (wait_lists s w) \<and> (\<forall>x\<in>set (wait_lists s w). stat s x = RT_THREAD_SUSPEND))
     \<and> (\<forall>w v. w \<noteq> v \<longrightarrow> set (wait_lists s w) \<inter> set (wait_lists s v) = {})
     \<and> distinct (defunct s) \<and> (\<forall>x\<in>set (defunct s). stat s x = RT_THREAD_CLOSE)"

definition prios_ok :: "sched \<Rightarrow> bool" where
  "prios_ok s \<longleftrightarrow> (\<forall>x. prio s x < 32 \<and> unat (init_priority (thr s x)) < 32
     \<and> (stat s x \<noteq> RT_THREAD_INIT \<longrightarrow> number_mask (thr s x) = 2 ^ prio s x))"

definition threads_ok :: "sched \<Rightarrow> bool" where
  "threads_ok s \<longleftrightarrow> rows_ok s \<and> lists_ok s \<and> prios_ok s"

lemma upd_thr_simps [simp]:
  "thr (upd_thr x f s) y = (if y = x then f (thr s x) else thr s y)" "priority_table (upd_thr x f s) = priority_table s"
  "ready_group (upd_thr x f s) = ready_group s" "wait_lists (upd_thr x f s) = wait_lists s" "defunct (upd_thr x f s) = defunct s"
  "lock_nest (upd_thr x f s) = lock_nest s" "rt_current_thread (upd_thr x f s) = rt_current_thread s"
  "rt_tick (upd_thr x f s) = rt_tick s" "timer_row (upd_thr x f s) = timer_row s" "tmr (upd_thr x f s) = tmr s"
  "rt_current_priority (upd_thr x f s) = rt_current_priority s"
  by (simp_all add: upd_thr_def)

lemma unlink_simps [simp]:
  "thr (unlink x s) = thr s" "priority_table (unlink x s) = map (remove1 x) (priority_table s)" "ready_group (unlink x s) = ready_group s"
  "wait_lists (unlink x s) w = remove1 x (wait_lists s w)" "defunct (unlink x s) = remove1 x (defunct s)"
  "lock_nest (unlink x s) = lock_nest s" "rt_current_thread (unlink x s) = rt_current_thread s"
  "rt_tick (unlink x s) = rt_tick s" "timer_row (unlink x s) = timer_row s" "tmr (unlink x s) = tmr s"
  by (simp_all add: unlink_def)

definition removed :: "nat \<Rightarrow> sched \<Rightarrow> sched" where
  "removed x s = (if remove1 x (priority_table s ! prio s x) = []
     then (unlink x s)\<lparr>ready_group := ready_group s AND NOT (number_mask (thr s x))\<rparr> else unlink x s)"

definition inserted :: "nat \<Rightarrow> sched \<Rightarrow> sched" where
  "inserted x s = (put_stat x RT_THREAD_READY s)\<lparr>priority_table := (priority_table s)[prio s x := priority_table s ! prio s x @ [x]],
     ready_group := ready_group s OR number_mask (thr s x)\<rparr>"

lemma removed_simps [simp]:
  "thr (removed x s) = thr s" "priority_table (removed x s) = map (remove1 x) (priority_table s)"
  "wait_lists (removed x s) w = remove1 x (wait_lists s w)" "defunct (removed x s) = remove1 x (defunct s)"
  "lock_nest (removed x s) = lock_nest s" "rt_current_thread (removed x s) = rt_current_thread s"
  "rt_tick (removed x s) = rt_tick s" "timer_row (removed x s) = timer_row s" "tmr (removed x s) = tmr s"
  by (simp_all add: removed_def)

lemma inserted_simps [simp]:
  "thr (inserted x s) y = (if y = x then (thr s x)\<lparr>t_stat := RT_THREAD_READY\<rparr> else thr s y)"
  "priority_table (inserted x s) = (priority_table s)[prio s x := priority_table s ! prio s x @ [x]]"
  "ready_group (inserted x s) = ready_group s OR number_mask (thr s x)"
  "wait_lists (inserted x s) = wait_lists s" "defunct (inserted x s) = defunct s"
  "lock_nest (inserted x s) = lock_nest s" "rt_current_thread (inserted x s) = rt_current_thread s"
  "rt_tick (inserted x s) = rt_tick s" "timer_row (inserted x s) = timer_row s" "tmr (inserted x s) = tmr s"
  by (simp_all add: inserted_def)

lemma remove_eq:
  "length (priority_table s) = 32 \<Longrightarrow> prio s x < 32 \<Longrightarrow> rt_schedule_remove_thread x s = Some (removed x s)"
  by (simp add: rt_schedule_remove_thread_def removed_def)

lemma insert_eq:
  "length (priority_table s) = 32 \<Longrightarrow> prio s x < 32 \<Longrightarrow> rt_schedule_insert_thread x s = Some (inserted x s)"
  by (simp add: rt_schedule_insert_thread_def inserted_def)

lemma bit_prio_clear: "q < 32 \<Longrightarrow> bit ((g::u32) AND NOT (2 ^ p)) q \<longleftrightarrow> bit g q \<and> q \<noteq> p"
  and bit_prio_set: "q < 32 \<Longrightarrow> p < 32 \<Longrightarrow> bit ((g::u32) OR 2 ^ p) q \<longleftrightarrow> bit g q \<or> q = p"
  by (auto simp: bit_and_iff bit_or_iff bit_not_iff bit_exp_iff)

text \<open>Taking a thread out of its list, and giving it a status other than ready.\<close>

lemma removed_ok:
  assumes ok: "threads_ok s" and st: "st \<noteq> RT_THREAD_READY" "st \<noteq> RT_THREAD_INIT"
    and x: "stat s x \<noteq> RT_THREAD_INIT"
  shows "threads_ok (put_stat x st (removed x s)) \<and> (\<forall>w. x \<notin> set (wait_lists (removed x s) w)) \<and> x \<notin> set (defunct (removed x s))"
proof -
  let ?u = "put_stat x st (removed x s)"
  have rows: "rows_ok s" and lists: "lists_ok s" and pr: "prios_ok s" using ok by (simp_all add: threads_ok_def)
  have len: "length (priority_table s) = 32" using rows by (simp add: rows_ok_def)
  have mask: "number_mask (thr s x) = 2 ^ prio s x" using pr x by (simp add: prios_ok_def)
  have "rows_ok ?u"
  proof -
    have g: "bit (ready_group (removed x s)) p \<longleftrightarrow> remove1 x (priority_table s ! p) \<noteq> []" if p: "p < 32" for p
    proof (cases "p = prio s x")
      case True
      then show ?thesis using rows p mask
        by (auto simp: removed_def rows_ok_def bit_prio_clear remove1_idem split: if_splits)
    next
      case False
      then have "x \<notin> set (priority_table s ! p)" using rows p by (simp add: rows_ok_def)
      then show ?thesis using rows p mask False by (auto simp: removed_def rows_ok_def bit_prio_clear remove1_idem)
    qed
    show ?thesis unfolding rows_ok_def
      using rows len g st by (auto simp: rows_ok_def)
  qed
  moreover have "lists_ok ?u" using lists unfolding lists_ok_def by (fastforce dest: set_remove1_subset [THEN subsetD])
  moreover have "prios_ok ?u" using pr x by (simp add: prios_ok_def)
  ultimately show ?thesis using lists by (auto simp: threads_ok_def lists_ok_def)
qed

text \<open>Making a suspended thread that waits nowhere ready.\<close>

lemma inserted_ok:
  assumes ok: "threads_ok s" and x: "stat s x = RT_THREAD_SUSPEND" "\<forall>w. x \<notin> set (wait_lists s w)"
  shows "threads_ok (inserted x s)"
proof -
  have rows: "rows_ok s" and lists: "lists_ok s" and pr: "prios_ok s" using ok by (simp_all add: threads_ok_def)
  have p: "prio s x < 32" "number_mask (thr s x) = 2 ^ prio s x" using pr x by (simp_all add: prios_ok_def)
  have "rows_ok (inserted x s)"
    using rows p x by (auto simp: rows_ok_def bit_prio_set nth_list_update)
  moreover have "lists_ok (inserted x s)" using lists x by (auto simp: lists_ok_def)
  moreover have "prios_ok (inserted x s)" using pr p by (simp add: prios_ok_def)
  ultimately show ?thesis by (simp add: threads_ok_def)
qed

text \<open>The running thread is the first of the ready threads of the highest priority (the lowest number).\<close>

definition runs_best :: "sched \<Rightarrow> bool" where
  "runs_best s \<longleftrightarrow> (\<exists>p x r. p < 32 \<and> priority_table s ! p = x # r \<and> (\<forall>q<p. priority_table s ! q = []) \<and> rt_current_thread s = Some x)"

lemma schedule_ok:
  assumes ok: "threads_ok s" and r: "stat s i = RT_THREAD_READY" and u: "lock_nest s = 0"
  shows "\<exists>c p. rt_schedule s = Some (s\<lparr>rt_current_thread := c, rt_current_priority := p\<rparr>) \<and> runs_best (s\<lparr>rt_current_thread := c, rt_current_priority := p\<rparr>)"
proof -
  have rows: "rows_ok s" and pr: "prios_ok s" using ok by (simp_all add: threads_ok_def)
  have len: "length (priority_table s) = 32" using rows by (simp add: rows_ok_def)
  have "bit (ready_group s) (prio s i)"
  proof -
    have p: "prio s i < 32" using pr by (simp add: prios_ok_def)
    then have "i \<in> set (priority_table s ! prio s i)" using rows r by (simp add: rows_ok_def)
    then have "priority_table s ! prio s i \<noteq> []" by auto
    then show ?thesis using rows p by (simp add: rows_ok_def)
  qed
  then have "ready_group s \<noteq> 0" by auto
  then obtain b where b: "rt_ffs (ready_group s) = Some (b + 1)" "lowest_bit (ready_group s) b" using rt_ffs_lowest(2) by blast
  have b32: "b < 32" using b(2) by (auto simp: lowest_bit_def dest: bit_imp_le_length)
  then obtain x r where row: "priority_table s ! b = x # r"
    using rows b(2) by (cases "priority_table s ! b") (auto simp: rows_ok_def lowest_bit_def)
  have below: "\<forall>q<b. priority_table s ! q = []" using rows b(2) b32 by (auto simp: rows_ok_def lowest_bit_def)
  have h: "highest_ready s = Some (b, x)" using b(1) b32 len row by (simp add: highest_ready_def)
  show ?thesis
  proof (cases "Some x = rt_current_thread s")
    case True
    then have "rt_schedule s = Some s" using h u by (simp add: rt_schedule_def)
    moreover have "runs_best s" unfolding runs_best_def using b32 row below True by (metis (no_types))
    ultimately show ?thesis by (intro exI [of _ "rt_current_thread s"] exI [of _ "rt_current_priority s"]) simp
  next
    case False
    then have "rt_schedule s = Some (s\<lparr>rt_current_priority := of_nat b, rt_current_thread := Some x\<rparr>)" using h u by (simp add: rt_schedule_def)
    moreover have "runs_best (s\<lparr>rt_current_priority := of_nat b, rt_current_thread := Some x\<rparr>)"
      unfolding runs_best_def using b32 row below by (intro exI [of _ b] exI [of _ x] exI [of _ r]) simp
    moreover have "s\<lparr>rt_current_priority := of_nat b, rt_current_thread := Some x\<rparr> = s\<lparr>rt_current_thread := Some x, rt_current_priority := of_nat b\<rparr>" by simp
    ultimately show ?thesis by metis
  qed
qed

lemma unlink_ok:
  assumes "threads_ok s" "stat s x \<noteq> RT_THREAD_READY"
  shows "threads_ok (unlink x s) \<and> (\<forall>w. x \<notin> set (wait_lists (unlink x s) w)) \<and> x \<notin> set (defunct (unlink x s))"
proof -
  have rows: "rows_ok s" and lists: "lists_ok s" and pr: "prios_ok s" using assms by (simp_all add: threads_ok_def)
  have "\<forall>p<32. remove1 x (priority_table s ! p) = priority_table s ! p"
    using rows assms(2) by (auto simp: rows_ok_def intro!: remove1_idem)
  then have "rows_ok (unlink x s)" using rows by (simp add: rows_ok_def)
  moreover have "lists_ok (unlink x s)" using lists unfolding lists_ok_def by (fastforce dest: set_remove1_subset [THEN subsetD])
  moreover have "prios_ok (unlink x s)" using pr by (simp add: prios_ok_def)
  ultimately show ?thesis using lists by (auto simp: threads_ok_def lists_ok_def)
qed

text \<open>Changing a thread that is not ready, but for its status: it needs a priority below 32 and the mask of it.\<close>

lemma upd_thr_ok:
  assumes "threads_ok s" "stat s x \<noteq> RT_THREAD_READY" "t_stat (f (thr s x)) = stat s x"
    "unat (current_priority (f (thr s x))) < 32" "unat (init_priority (f (thr s x))) < 32"
    "stat s x \<noteq> RT_THREAD_INIT \<longrightarrow> number_mask (f (thr s x)) = 2 ^ unat (current_priority (f (thr s x)))"
  shows "threads_ok (upd_thr x f s)"
proof -
  have "rows_ok s" "lists_ok s" "prios_ok s" using assms by (simp_all add: threads_ok_def)
  then have "rows_ok (upd_thr x f s)" "lists_ok (upd_thr x f s)" "prios_ok (upd_thr x f s)"
    using assms(2-) by (auto simp: rows_ok_def lists_ok_def prios_ok_def)
  then show ?thesis by (simp add: threads_ok_def)
qed

text \<open>The fields that the lists do not depend on.\<close>

lemma upd_thr_other:
  assumes "threads_ok s" "t_stat (f (thr s x)) = stat s x" "current_priority (f (thr s x)) = current_priority (thr s x)"
    "init_priority (f (thr s x)) = init_priority (thr s x)" "number_mask (f (thr s x)) = number_mask (thr s x)"
  shows "threads_ok (upd_thr x f s)"
  using assms by (auto simp: threads_ok_def rows_ok_def lists_ok_def prios_ok_def)

lemma sched_more:
  fixes s t :: sched
  assumes "timers.more t = timers.more s"
  shows "priority_table t = priority_table s" "ready_group t = ready_group s" "rt_current_thread t = rt_current_thread s"
    "lock_nest t = lock_nest s" "wait_lists t = wait_lists s" "defunct t = defunct s" "thr t = thr s"
  using assms by (cases s, cases t, simp)+

lemma threads_ok_cong:
  assumes "priority_table t = priority_table s" "ready_group t = ready_group s" "wait_lists t = wait_lists s" "defunct t = defunct s" "thr t = thr s"
  shows "threads_ok t = threads_ok s"
  unfolding threads_ok_def rows_ok_def lists_ok_def prios_ok_def assms ..

lemma runs_best_cong:
  assumes "priority_table t = priority_table s" "rt_current_thread t = rt_current_thread s"
  shows "runs_best t = runs_best s"
  unfolding runs_best_def assms ..

definition rest_inv :: "nat \<Rightarrow> sched \<Rightarrow> bool" where
  "rest_inv i s \<longleftrightarrow> threads_ok s \<and> (\<forall>x. \<not> periodic s x) \<and> (\<forall>x\<in>set (timer_row s). stat s x = RT_THREAD_SUSPEND)
     \<and> (\<forall>x. activated s x \<longrightarrow> x \<in> set (timer_row s) \<or> stat s x = RT_THREAD_CLOSE) \<and> stat s i = RT_THREAD_READY"

definition sched_inv :: "nat \<Rightarrow> sched \<Rightarrow> bool" where
  "sched_inv i s \<longleftrightarrow> rest_inv i s \<and> timers_ok s"

text \<open>The timers' fields of the state are those that the thread operations leave alone.\<close>

lemma timer_fields [simp]:
  "activated (upd_thr x f s) = activated s" "periodic (upd_thr x f s) = periodic s" "rem_at n (upd_thr x f s) = rem_at n s"
  "activated (unlink x s) = activated s" "periodic (unlink x s) = periodic s" "rem_at n (unlink x s) = rem_at n s"
  "activated (removed x s) = activated s" "periodic (removed x s) = periodic s" "rem_at n (removed x s) = rem_at n s"
  "activated (inserted x s) = activated s" "periodic (inserted x s) = periodic s" "rem_at n (inserted x s) = rem_at n s"
  by (simp_all add: fun_eq_iff activated_def periodic_def rem_at_def)

lemma timer_fields_upd [simp]:
  fixes s :: sched
  shows "activated (s\<lparr>rt_current_thread := c\<rparr>) = activated s" "periodic (s\<lparr>rt_current_thread := c\<rparr>) = periodic s" "rem_at n (s\<lparr>rt_current_thread := c\<rparr>) = rem_at n s"
    "activated (s\<lparr>rt_current_priority := p\<rparr>) = activated s" "periodic (s\<lparr>rt_current_priority := p\<rparr>) = periodic s" "rem_at n (s\<lparr>rt_current_priority := p\<rparr>) = rem_at n s"
    "activated (s\<lparr>lock_nest := l\<rparr>) = activated s" "periodic (s\<lparr>lock_nest := l\<rparr>) = periodic s" "rem_at n (s\<lparr>lock_nest := l\<rparr>) = rem_at n s"
    "activated (s\<lparr>defunct := d\<rparr>) = activated s" "periodic (s\<lparr>defunct := d\<rparr>) = periodic s" "rem_at n (s\<lparr>defunct := d\<rparr>) = rem_at n s"
    "activated (s\<lparr>wait_lists := w\<rparr>) = activated s" "periodic (s\<lparr>wait_lists := w\<rparr>) = periodic s" "rem_at n (s\<lparr>wait_lists := w\<rparr>) = rem_at n s"
    "activated (s\<lparr>priority_table := t\<rparr>) = activated s" "periodic (s\<lparr>priority_table := t\<rparr>) = periodic s" "rem_at n (s\<lparr>priority_table := t\<rparr>) = rem_at n s"
  by (simp_all add: fun_eq_iff activated_def periodic_def rem_at_def)

lemma threads_ok_upd [simp]:
  "threads_ok (s\<lparr>rt_current_thread := c\<rparr>) = threads_ok s" "threads_ok (s\<lparr>rt_current_priority := p\<rparr>) = threads_ok s"
  "threads_ok (s\<lparr>lock_nest := l\<rparr>) = threads_ok s" "threads_ok (s\<lparr>rt_tick := k\<rparr>) = threads_ok s"
  by (rule threads_ok_cong; simp)+

text \<open>What rt_schedule leaves alone, and what it gives.\<close>

definition same_but_current :: "sched \<Rightarrow> sched \<Rightarrow> bool" where
  "same_but_current s t \<longleftrightarrow> (\<exists>c p. t = s\<lparr>rt_current_thread := c, rt_current_priority := p\<rparr>)"

lemma same_but_current_inv:
  assumes "same_but_current s t" shows "rest_inv i t = rest_inv i s" "sched_inv i t = sched_inv i s" "thr t = thr s" "timer_row t = timer_row s"
    "rt_tick t = rt_tick s" "tmr t = tmr s" "lock_nest t = lock_nest s" "remaining t = remaining s" "activated t = activated s" "periodic t = periodic s"
    "priority_table t = priority_table s"
  using assms by (auto simp: same_but_current_def rest_inv_def sched_inv_def ok_at_def)

lemma schedule_inv:
  assumes "rest_inv i s" 
  shows "\<exists>t. rt_schedule s = Some t \<and> same_but_current s t \<and> (lock_nest s = 0 \<longrightarrow> runs_best t)
    \<and> (lock_nest s \<noteq> 0 \<longrightarrow> t = s) \<and> (rt_current_thread s \<noteq> None \<longrightarrow> rt_current_thread t \<noteq> None)"
proof (cases "lock_nest s = 0")
  case True
  obtain c p where "rt_schedule s = Some (s\<lparr>rt_current_thread := c, rt_current_priority := p\<rparr>)" and b: "runs_best (s\<lparr>rt_current_thread := c, rt_current_priority := p\<rparr>)"
    using schedule_ok [of s i] assms True by (auto simp: rest_inv_def)
  moreover have "c \<noteq> None" using b by (auto simp: runs_best_def)
  ultimately show ?thesis using True by (auto simp: same_but_current_def)
next
  case False
  have "same_but_current s s"
    unfolding same_but_current_def by (intro exI [of _ "rt_current_thread s"] exI [of _ "rt_current_priority s"]) simp
  then show ?thesis using False by (simp add: rt_schedule_def)
qed

end
