(* ===== verification/Rt_Printf.thy ===== *)
theory Rt_Printf
  imports Cash_Prelude
begin

text \<open>
  Formatted output of the kernel (rt_vsnprintf and print_number of src/src/kservice.c; RT_PRINTF_LONGLONG, RT_PRINTF_PRECISION
  and RT_PRINTF_SPECIAL are not defined). buf is the array at address a that the caller gives, str the offset of the next
  byte; a byte is written only up to the offset en of the last byte. A format is the list of its bytes without the
  terminator, and va_list a list of arguments: an argument of another kind than the format asks for, or a
  missing one, is None, as is a field width that does not fit an int.
\<close>

datatype va = Num u32 | Str "u8 list option"

abbreviation ZEROPAD :: u8 where "ZEROPAD \<equiv> 1"
abbreviation SIGN :: u8 where "SIGN \<equiv> 2"
abbreviation PLUS :: u8 where "PLUS \<equiv> 4"
abbreviation SPACE :: u8 where "SPACE \<equiv> 8"
abbreviation LEFT :: u8 where "LEFT \<equiv> 16"
abbreviation SPECIAL :: u8 where "SPECIAL \<equiv> 32"
abbreviation LARGE :: u8 where "LARGE \<equiv> 64"

definition has :: "u8 \<Rightarrow> u8 \<Rightarrow> bool" where
  "has flags f \<longleftrightarrow> flags AND f \<noteq> 0"

definition is_digit :: "u8 \<Rightarrow> bool" where
  "is_digit c \<longleftrightarrow> 0x30 \<le> c \<and> c \<le> 0x39"

section \<open>Writing\<close>

type_synonym out = "nat \<times> u8 list"

definition put :: "nat \<Rightarrow> u8 \<Rightarrow> out \<Rightarrow> out option" where
  "put en c o' = (case o' of (str, buf) \<Rightarrow>
     if str \<le> en then map_option (Pair (str + 1)) (wr buf str c) else Some (str + 1, buf))"

text \<open>The loops that write n times the same byte, and a whole string.\<close>

fun put_n :: "nat \<Rightarrow> nat \<Rightarrow> u8 \<Rightarrow> out \<Rightarrow> out option" where
  "put_n en 0 c st = Some st"
| "put_n en (Suc n) c st = Option.bind (put en c st) (put_n en n c)"

fun put_s :: "nat \<Rightarrow> u8 list \<Rightarrow> out \<Rightarrow> out option" where
  "put_s en [] st = Some st"
| "put_s en (c # cs) st = Option.bind (put en c st) (put_s en cs)"

section \<open>Numbers\<close>

text \<open>divide knows the bases 10 and 16 only: any other base counts as 16.\<close>

definition divide :: "u32 \<Rightarrow> nat \<Rightarrow> u32 \<times> u32" where
  "divide n base = (if base = 10 then (n mod 10, n div 10) else (n mod 16, n div 16))"

definition small_digits :: "u8 list" where
  "small_digits = [0x30, 0x31, 0x32, 0x33, 0x34, 0x35, 0x36, 0x37, 0x38, 0x39, 0x61, 0x62, 0x63, 0x64, 0x65, 0x66]"

definition large_digits :: "u8 list" where
  "large_digits = [0x30, 0x31, 0x32, 0x33, 0x34, 0x35, 0x36, 0x37, 0x38, 0x39, 0x41, 0x42, 0x43, 0x44, 0x45, 0x46]"

lemma divide_less: "n \<noteq> 0 \<Longrightarrow> unat (snd (divide n base)) < unat n"
proof -
  assume "n \<noteq> 0"
  then have "0 < unat n" by (simp add: unat_gt_0)
  then show ?thesis by (simp add: divide_def unat_div)
qed

text \<open>The digits in the order of tmp: the last digit first.\<close>

function tmp_digits :: "u8 list \<Rightarrow> nat \<Rightarrow> u32 \<Rightarrow> u8 list" where
  "tmp_digits digits base n = (if n = 0 then [] else digits ! unat (fst (divide n base)) # tmp_digits digits base (snd (divide n base)))"
  by pat_completeness auto
termination by (relation "measure (\<lambda>(_, _, n). unat n)") (auto simp: divide_less)

declare tmp_digits.simps [simp del]

text \<open>num is the bit pattern of the long argument.\<close>

definition print_number :: "nat \<Rightarrow> u32 \<Rightarrow> nat \<Rightarrow> int \<Rightarrow> u8 \<Rightarrow> out \<Rightarrow> out option" where
  "print_number en num base s type st = (
     let type = (if has type LEFT then type AND NOT ZEROPAD else type);
         c = (if has type ZEROPAD then 0x30 else 0x20);
         neg = has type SIGN \<and> num <s 0;
         sign = (if neg then Some 0x2D else if has type SIGN \<and> has type PLUS then Some 0x2B
                 else if has type SIGN \<and> has type SPACE then Some 0x20 else None);
         num = (if neg then - num else num);
         tmp = (if num = 0 then [0x30] else tmp_digits (if has type LARGE then large_digits else small_digits) base num);
         size0 = s - int (List.length tmp)
     in do {
       (size1, st1) \<leftarrow> (if has type ZEROPAD \<or> has type LEFT then Some (size0, st)
          else let size = (if sign \<noteq> None \<and> 0 < size0 then size0 - 1 else size0)
               in map_option (Pair (min size 0 - 1)) (put_n en (nat size) 0x20 st));
       (size2, st2) \<leftarrow> (case sign of None \<Rightarrow> Some (size1, st1)
          | Some g \<Rightarrow> map_option (Pair (if fst st1 \<le> en then size1 - 1 else size1)) (put en g st1));
       (size3, st3) \<leftarrow> (if has type LEFT then Some (size2, st2)
          else map_option (Pair (min size2 0 - 1)) (put_n en (nat size2) c st2));
       st4 \<leftarrow> put_s en (rev tmp) st3;
       put_n en (nat size3) 0x20 st4
     })"

section \<open>The format\<close>

text \<open>The flags after a percent sign.\<close>

fun fmt_flags :: "u8 \<Rightarrow> u8 list \<Rightarrow> u8 \<times> u8 list" where
  "fmt_flags f [] = (f, [])"
| "fmt_flags f (c # cs) =
     (if c = 0x2D then fmt_flags (f OR LEFT) cs
      else if c = 0x2B then fmt_flags (f OR PLUS) cs
      else if c = 0x20 then fmt_flags (f OR SPACE) cs
      else if c = 0x23 then fmt_flags (f OR SPECIAL) cs
      else if c = 0x30 then fmt_flags (f OR ZEROPAD) cs
      else (f, c # cs))"

fun skip_atoi :: "nat \<Rightarrow> u8 list \<Rightarrow> nat \<times> u8 list" where
  "skip_atoi i [] = (i, [])"
| "skip_atoi i (c # cs) = (if is_digit c then skip_atoi (i * 10 + unat (c - 0x30)) cs else (i, c # cs))"

definition int_arg :: "va list \<Rightarrow> (u32 \<times> va list) option" where
  "int_arg args = (case args of Num n # rest \<Rightarrow> Some (n, rest) | _ \<Rightarrow> None)"

definition str_arg :: "va list \<Rightarrow> (u8 list option \<times> va list) option" where
  "str_arg args = (case args of Str s # rest \<Rightarrow> Some (s, rest) | _ \<Rightarrow> None)"

text \<open>The field width: -1 if there is none; a negative width from the arguments means to the left.\<close>

definition fmt_width :: "u8 \<Rightarrow> u8 list \<Rightarrow> va list \<Rightarrow> (int \<times> u8 \<times> u8 list \<times> va list) option" where
  "fmt_width f fmt args = (case fmt of
     [] \<Rightarrow> Some (-1, f, fmt, args)
   | c # cs \<Rightarrow>
       if is_digit c then (case skip_atoi 0 fmt of (w, rest) \<Rightarrow> if w < 2 ^ 31 then Some (int w, f, rest, args) else None)
       else if c = 0x2A then do {
         (n, args') \<leftarrow> int_arg args;
         (if n = 0x80000000 then None
          else if n <s 0 then Some (- sint n, f OR LEFT, cs, args') else Some (sint n, f, cs, args'))
       }
       else Some (-1, f, fmt, args))"

definition fmt_qualifier :: "u8 list \<Rightarrow> u8 \<times> u8 list" where
  "fmt_qualifier fmt = (case fmt of c # cs \<Rightarrow> if c = 0x68 \<or> c = 0x6C then (c, cs) else (0, fmt) | [] \<Rightarrow> (0, []))"

text \<open>The conversions of integers: the base and the flags they add.\<close>

definition int_conv :: "u8 \<Rightarrow> (nat \<times> u8) option" where
  "int_conv c =
     (if c = 0x6F then Some (8, 0)
      else if c = 0x58 then Some (16, LARGE)
      else if c = 0x78 then Some (16, 0)
      else if c = 0x64 \<or> c = 0x69 then Some (10, SIGN)
      else if c = 0x75 then Some (10, 0)
      else None)"

definition num_arg :: "u8 \<Rightarrow> u8 \<Rightarrow> u32 \<Rightarrow> u32" where
  "num_arg qualifier flags n =
     (if qualifier = 0x68
      then (if has flags SIGN then of_int (sint (ucast n :: u16)) else of_nat (unat (ucast n :: u16)))
      else n)"

definition null_text :: "u8 list" where
  "null_text = [0x28, 0x4E, 0x55, 0x4C, 0x4C, 0x29]"

text \<open>One conversion: its character c (None: the format ends here) with the flags and the width before it.\<close>

definition convert :: "nat \<Rightarrow> u8 option \<Rightarrow> u8 \<Rightarrow> int \<Rightarrow> u8 \<Rightarrow> va list \<Rightarrow> out \<Rightarrow> (va list \<times> out) option" where
  "convert en co flags width qualifier args st = (case co of
     None \<Rightarrow> map_option (Pair args) (put en 0x25 st)
   | Some c \<Rightarrow>
     if c = 0x63 then do {
       st1 \<leftarrow> (if has flags LEFT then Some st else put_n en (nat (width - 1)) 0x20 st);
       (n, args') \<leftarrow> int_arg args;
       st2 \<leftarrow> put en (ucast n) st1;
       map_option (Pair args') (if has flags LEFT then put_n en (nat (width - 1)) 0x20 st2 else Some st2)
     }
     else if c = 0x73 then do {
       (so, args') \<leftarrow> str_arg args;
       let s = (case so of None \<Rightarrow> null_text | Some s \<Rightarrow> s);
       let pad = nat (width - int (List.length s));
       st1 \<leftarrow> (if has flags LEFT then Some st else put_n en pad 0x20 st);
       st2 \<leftarrow> put_s en s st1;
       map_option (Pair args') (if has flags LEFT then put_n en pad 0x20 st2 else Some st2)
     }
     else if c = 0x70 then do {
       (n, args') \<leftarrow> int_arg args;
       map_option (Pair args') (if width = -1 then print_number en n 16 8 (flags OR ZEROPAD) st else print_number en n 16 width flags st)
     }
     else if c = 0x25 then map_option (Pair args) (put en 0x25 st)
     else (case int_conv c of
         Some (base, add) \<Rightarrow> do {
           (n, args') \<leftarrow> int_arg args;
           map_option (Pair args') (print_number en (num_arg qualifier (flags OR add) n) base width (flags OR add) st)
         }
       | None \<Rightarrow> do { st1 \<leftarrow> put en 0x25 st; map_option (Pair args) (put en c st1) }))"

lemma fmt_flags_length: "length (snd (fmt_flags f cs)) \<le> length cs"
  by (induction f cs rule: fmt_flags.induct) auto

lemma skip_atoi_length: "length (snd (skip_atoi i cs)) \<le> length cs"
  by (induction i cs rule: skip_atoi.induct) auto

lemma fmt_width_length: "fmt_width f cs args = Some (w, f', rest, args') \<Longrightarrow> length rest \<le> length cs"
  using skip_atoi_length [of 0 cs]
  by (auto simp: fmt_width_def Option.bind_eq_Some_conv split: list.splits if_splits prod.splits)

lemma fmt_qualifier_length: "length (snd (fmt_qualifier cs)) \<le> length cs"
  by (auto simp: fmt_qualifier_def split: list.splits)

text \<open>A directive behind a percent sign: the conversion character, flags, width and qualifier, and what follows it.\<close>

definition directive :: "u8 list \<Rightarrow> va list \<Rightarrow> (u8 option \<times> u8 \<times> int \<times> u8 \<times> u8 list \<times> va list) option" where
  "directive fmt args = do {
     let (f, r1) = fmt_flags 0 fmt;
     (w, f', r2, args') \<leftarrow> fmt_width f r1 args;
     let (q, r3) = fmt_qualifier r2;
     Some (case r3 of [] \<Rightarrow> (None, f', w, q, [], args') | c # r4 \<Rightarrow> (Some c, f', w, q, r4, args'))
   }"

lemma directive_length: "directive cs args = Some (c, f, w, q, rest, args') \<Longrightarrow> length rest \<le> length cs"
proof -
  assume d: "directive cs args = Some (c, f, w, q, rest, args')"
  obtain f1 r1 where r1: "fmt_flags 0 cs = (f1, r1)" by force
  obtain w2 f2 r2 a2 where r2: "fmt_width f1 r1 args = Some (w2, f2, r2, a2)" using d r1 by (auto simp: directive_def Option.bind_eq_Some_conv)
  obtain q3 r3 where r3: "fmt_qualifier r2 = (q3, r3)" by force
  have "length rest \<le> length r3" using d r1 r2 r3 by (auto simp: directive_def split: list.splits)
  then show ?thesis
    using fmt_flags_length [of 0 cs] fmt_width_length [OF r2] fmt_qualifier_length [of r2] r1 r3 by simp
qed

function fmt_loop :: "nat \<Rightarrow> u8 list \<Rightarrow> va list \<Rightarrow> out \<Rightarrow> out option" where
  "fmt_loop en [] args st = Some st"
| "fmt_loop en (c # cs) args st =
     (if c \<noteq> 0x25 then Option.bind (put en c st) (fmt_loop en cs args)
      else (case directive cs args of None \<Rightarrow> None
        | Some (co, f, w, q, rest, args') \<Rightarrow>
            (case convert en co f w q args' st of None \<Rightarrow> None | Some (args'', st') \<Rightarrow> fmt_loop en rest args'' st')))"
  by pat_completeness auto
termination
  by (relation "measure (\<lambda>(_, cs, _, _). length cs)") (auto dest: directive_length)

text \<open>The offset of the last byte: a size of 0, or one that makes the end wrap below buf, is no limit but that of the addresses.\<close>

definition last_offset :: "u32 \<Rightarrow> u32 \<Rightarrow> nat" where
  "last_offset a sz = (let end = a + sz - 1 in if end < a then unat (0xFFFFFFFF - a) else unat (sz - 1))"

definition rt_vsnprintf :: "u32 \<Rightarrow> u8 list \<Rightarrow> u32 \<Rightarrow> u8 list \<Rightarrow> va list \<Rightarrow> (nat \<times> u8 list) option" where
  "rt_vsnprintf a buf sz fmt args = (let en = last_offset a sz in do {
     (str, b) \<leftarrow> fmt_loop en fmt args (0, buf);
     b' \<leftarrow> wr b (min str en) 0;
     Some (str, b')
   })"

definition rt_vsprintf :: "u32 \<Rightarrow> u8 list \<Rightarrow> u8 list \<Rightarrow> va list \<Rightarrow> (nat \<times> u8 list) option" where
  "rt_vsprintf a buf fmt args = rt_vsnprintf a buf 0xFFFFFFFF fmt args"

text \<open>rt_kprintf with its buffer of 128 bytes: the bytes that go to the console device, and the buffer.\<close>

definition rt_kprintf :: "u32 \<Rightarrow> u8 list \<Rightarrow> u8 list \<Rightarrow> va list \<Rightarrow> (u8 list \<times> u8 list) option" where
  "rt_kprintf a rt_log_buf fmt args = do {
     (n, b) \<leftarrow> rt_vsnprintf a rt_log_buf 127 fmt args;
     Some (take (if 127 < n then 127 else n) b, b)
   }"

section \<open>The text of a format\<close>

text \<open>The reference: numbers by their positional notation, and the three ways to fill a field.\<close>

function ref_digits :: "nat \<Rightarrow> nat \<Rightarrow> nat list" where
  "ref_digits b n = (if b < 2 \<or> n < b then [n] else ref_digits b (n div b) @ [n mod b])"
  by pat_completeness auto
termination by (relation "measure snd") auto

declare ref_digits.simps [simp del]

definition sign_text :: "u32 \<Rightarrow> u8 \<Rightarrow> u8 list" where
  "sign_text num f = (if \<not> has f SIGN then [] else if sint num < 0 then [0x2D] else if has f PLUS then [0x2B] else if has f SPACE then [0x20] else [])"

definition digit_text :: "u32 \<Rightarrow> nat \<Rightarrow> u8 \<Rightarrow> u8 list" where
  "digit_text num base f = map ((!) (if has f LARGE then large_digits else small_digits))
     (ref_digits (if base = 10 then 10 else 16) (if has f SIGN then nat \<bar>sint num\<bar> else unat num))"

definition number_text :: "u32 \<Rightarrow> nat \<Rightarrow> int \<Rightarrow> u8 \<Rightarrow> u8 list" where
  "number_text num base w f = (let sg = sign_text num f; ds = digit_text num base f; pad = nat (w - int (length sg + length ds)) in
     if has f LEFT then sg @ ds @ replicate pad 0x20
     else if has f ZEROPAD then sg @ replicate pad 0x30 @ ds
     else replicate pad 0x20 @ sg @ ds)"

definition field_text :: "u8 list \<Rightarrow> int \<Rightarrow> u8 \<Rightarrow> u8 list" where
  "field_text s w f = (let pad = replicate (nat (w - int (length s))) 0x20 in if has f LEFT then s @ pad else pad @ s)"

definition conv_text :: "u8 option \<Rightarrow> u8 \<Rightarrow> int \<Rightarrow> u8 \<Rightarrow> va list \<Rightarrow> (va list \<times> u8 list) option" where
  "conv_text co flags width qualifier args = (case co of
     None \<Rightarrow> Some (args, [0x25])
   | Some c \<Rightarrow>
     if c = 0x63 then map_option (\<lambda>(n, args'). (args', field_text [ucast n] width flags)) (int_arg args)
     else if c = 0x73 then map_option (\<lambda>(s, args'). (args', field_text (case s of None \<Rightarrow> null_text | Some s \<Rightarrow> s) width flags)) (str_arg args)
     else if c = 0x70 then map_option (\<lambda>(n, args'). (args', if width = -1 then number_text n 16 8 (flags OR ZEROPAD) else number_text n 16 width flags)) (int_arg args)
     else if c = 0x25 then Some (args, [0x25])
     else (case int_conv c of
         Some (base, add) \<Rightarrow> map_option (\<lambda>(n, args'). (args', number_text (num_arg qualifier (flags OR add) n) base width (flags OR add))) (int_arg args)
       | None \<Rightarrow> Some (args, [0x25, c])))"

function fmt_text :: "u8 list \<Rightarrow> va list \<Rightarrow> u8 list option" where
  "fmt_text [] args = Some []"
| "fmt_text (c # cs) args =
     (if c \<noteq> 0x25 then map_option ((#) c) (fmt_text cs args)
      else (case directive cs args of None \<Rightarrow> None
        | Some (co, f, w, q, rest, args') \<Rightarrow>
            (case conv_text co f w q args' of None \<Rightarrow> None | Some (args'', t) \<Rightarrow> map_option ((@) t) (fmt_text rest args''))))"
  by pat_completeness auto
termination
  by (relation "measure (\<lambda>(cs, _). length cs)") (auto dest: directive_length)

section \<open>Writing clips\<close>

fun clip :: "nat \<Rightarrow> nat \<Rightarrow> u8 list \<Rightarrow> u8 list \<Rightarrow> u8 list" where
  "clip en p [] b = b"
| "clip en p (c # cs) b = clip en (Suc p) cs (if p \<le> en then b[p := c] else b)"

lemma clip_length [simp]: "length (clip en p w b) = length b"
  by (induction en p w b rule: clip.induct) auto

lemma clip_append [simp]: "clip en p (u @ v) b = clip en (p + length u) v (clip en p u b)"
  by (induction en p u b rule: clip.induct) auto

lemma clip_out [simp]: "en < p \<Longrightarrow> clip en p w b = b"
  by (induction en p w b rule: clip.induct) auto

lemma clip_nth: "i < length b \<Longrightarrow> clip en p w b ! i = (if p \<le> i \<and> i < p + length w \<and> i \<le> en then w ! (i - p) else b ! i)"
proof (induction en p w b rule: clip.induct)
  case (2 en p c cs b)
  then show ?case by (cases "i = p") (auto simp: nth_Cons' Suc_le_eq)
qed auto

lemma put_ok: "en < length b \<Longrightarrow> put en c (p, b) = Some (Suc p, clip en p [c] b)"
  by (simp add: put_def)

lemma put_s_ok: "en < length b \<Longrightarrow> put_s en w (p, b) = Some (p + length w, clip en p w b)"
  by (induction w arbitrary: p b) (simp_all add: put_ok)

lemma put_n_s: "put_n en n c st = put_s en (replicate n c) st"
proof (induction n arbitrary: st)
  case (Suc n)
  then show ?case by (cases "put en c st") simp_all
qed simp

lemma put_n_ok: "en < length b \<Longrightarrow> put_n en n c (p, b) = Some (p + n, clip en p (replicate n c) b)"
  by (simp add: put_n_s put_s_ok)

text \<open>A run from offset p has the text w: its bytes up to the last offset are written, and the offset behind it is exact unless it is behind the end.\<close>

definition shows_text :: "nat \<Rightarrow> u8 list \<Rightarrow> out \<Rightarrow> out \<Rightarrow> bool" where
  "shows_text en w st st' \<longleftrightarrow> snd st' = clip en (fst st) w (snd st) \<and> fst st + length w \<le> fst st'
     \<and> (fst st + length w \<le> Suc en \<longrightarrow> fst st' = fst st + length w)"

lemma shows_exact: "shows_text en w (p, b) (p + length w, clip en p w b)"
  by (simp add: shows_text_def)

lemma shows_append:
  assumes "shows_text en u s t" "shows_text en v t r" shows "shows_text en (u @ v) s r"
proof (cases "fst s + length u \<le> Suc en")
  case True
  then show ?thesis using assms by (auto simp: shows_text_def)
next
  case False
  then show ?thesis using assms by (auto simp: shows_text_def)
qed

lemma shows_length: "shows_text en w s t \<Longrightarrow> length (snd t) = length (snd s)"
  by (simp add: shows_text_def)

section \<open>Numbers\<close>

lemma tmp_ref:
  "n \<noteq> 0 \<Longrightarrow> rev (tmp_digits ds base n) = map ((!) ds) (ref_digits (if base = 10 then 10 else 16) (unat n))"
proof (induction ds base n rule: tmp_digits.induct)
  case (1 ds base n)
  let ?b = "if base = 10 then 10 else 16 :: nat"
  have d: "unat (fst (divide n base)) = unat n mod ?b" "unat (snd (divide n base)) = unat n div ?b"
    by (simp_all add: divide_def unat_mod unat_div)
  show ?case
  proof (cases "snd (divide n base) = 0")
    case True
    then have "unat n div ?b = 0" using d(2) by simp
    then have small: "unat n < ?b" by (metis div_eq_0_iff zero_neq_numeral)
    have "tmp_digits ds base n = [ds ! (unat n mod ?b)]"
      using 1(2) True d by (subst tmp_digits.simps) (simp add: tmp_digits.simps [of ds base 0])
    then show ?thesis using small by (subst ref_digits.simps) simp
  next
    case False
    then have "unat n div ?b \<noteq> 0" using d(2) by (metis unat_eq_zero)
    then have big: "\<not> (?b < 2 \<or> unat n < ?b)" by auto
    have t: "tmp_digits ds base n = ds ! (unat n mod ?b) # tmp_digits ds base (snd (divide n base))"
      using 1(2) d by (subst tmp_digits.simps) simp
    show ?thesis unfolding t using 1(1) [OF 1(2) False] big
      by (subst ref_digits.simps) (simp add: d)
  qed
qed

lemma uint_of_int: "0 \<le> k \<Longrightarrow> k < 2 ^ 32 \<Longrightarrow> uint (word_of_int k :: u32) = k"
  by (simp add: uint_word_of_int_eq take_bit_eq_mod)

lemma abs_num:
  fixes num :: u32
  shows "num <s 0 \<longleftrightarrow> sint num < 0" "sint num < 0 \<Longrightarrow> unat (- num) = nat \<bar>sint num\<bar>" "0 \<le> sint num \<Longrightarrow> unat num = nat \<bar>sint num\<bar>"
proof -
  show "num <s 0 \<longleftrightarrow> sint num < 0" by (simp add: word_sless_alt)
  have r: "- (2 ^ 31) \<le> sint num" "sint num < 2 ^ 31" using sint_greater_eq [of num] sint_less [of num] by simp_all
  show "unat (- num) = nat \<bar>sint num\<bar>" if "sint num < 0"
  proof -
    have "- num = word_of_int (- sint num)" by simp
    moreover have "uint (word_of_int (- sint num) :: u32) = - sint num" by (rule uint_of_int) (use that r in simp_all)
    ultimately show ?thesis using that by (simp add: unat_eq_nat_uint)
  qed
  show "unat num = nat \<bar>sint num\<bar>" if "0 \<le> sint num"
  proof -
    have "uint (word_of_int (sint num) :: u32) = sint num" by (rule uint_of_int) (use that r in simp_all)
    then show ?thesis using that by (simp add: unat_eq_nat_uint)
  qed
qed

lemma has_clear [simp]:
  "has (f AND NOT ZEROPAD) SIGN = has f SIGN" "has (f AND NOT ZEROPAD) PLUS = has f PLUS" "has (f AND NOT ZEROPAD) SPACE = has f SPACE"
  "has (f AND NOT ZEROPAD) LEFT = has f LEFT" "has (f AND NOT ZEROPAD) LARGE = has f LARGE" "\<not> has (f AND NOT ZEROPAD) ZEROPAD"
  by (simp_all add: has_def and.assoc)

lemmas has_cleared [simp] = has_clear [simplified]

text \<open>What print_number has in its variables: the digits and the sign of the reference.\<close>

lemma number_parts:
  assumes "neg \<longleftrightarrow> has f SIGN \<and> num <s 0" "m = (if neg then - num else num)"
  shows "rev (if m = 0 then [0x30] else tmp_digits (if has f LARGE then large_digits else small_digits) base m) = digit_text num base f"
    and "(case (if neg then Some 0x2D else if has f SIGN \<and> has f PLUS then Some 0x2B else if has f SIGN \<and> has f SPACE then Some 0x20 else None) of
        None \<Rightarrow> [] | Some g \<Rightarrow> [g]) = sign_text num f"
proof -
  have m: "unat m = (if has f SIGN then nat \<bar>sint num\<bar> else unat num)"
    using assms abs_num [of num] by auto
  have z: "map ((!) (if has f LARGE then large_digits else small_digits)) (ref_digits b 0) = [0x30]" for b
  proof -
    have "b < 2 \<or> 0 < b" by arith
    then have "ref_digits b 0 = [0]" by (subst ref_digits.simps) simp
    then show ?thesis by (simp add: large_digits_def small_digits_def)
  qed
  show "rev (if m = 0 then [0x30] else tmp_digits (if has f LARGE then large_digits else small_digits) base m) = digit_text num base f"
  proof (cases "m = 0")
    case True
    then have "(if has f SIGN then nat \<bar>sint num\<bar> else unat num) = 0" using m by simp
    then show ?thesis using True z unfolding digit_text_def by simp
  next
    case False
    then show ?thesis using tmp_ref [OF False] m unfolding digit_text_def by simp
  qed
  show "(case (if neg then Some 0x2D else if has f SIGN \<and> has f PLUS then Some 0x2B else if has f SIGN \<and> has f SPACE then Some 0x20 else None) of
        None \<Rightarrow> [] | Some g \<Rightarrow> [g]) = sign_text num f"
    using assms abs_num(1) [of num] by (auto simp: sign_text_def)
qed

lemma digit_text_nonempty: "digit_text num base f \<noteq> []"
  unfolding digit_text_def by (subst ref_digits.simps) simp


text \<open>print_number writes the text of the reference.\<close>

lemma print_number_shows:
  assumes en: "en < length b"
  shows "\<exists>t. print_number en num base s f (p, b) = Some t \<and> shows_text en (number_text num base s f) (p, b) t"
proof -
  define f' where "f' = (if has f LEFT then f AND NOT ZEROPAD else f)"
  have f': "has f' SIGN = has f SIGN" "has f' PLUS = has f PLUS" "has f' SPACE = has f SPACE" "has f' LEFT = has f LEFT" "has f' LARGE = has f LARGE"
      "has f' ZEROPAD \<longleftrightarrow> has f ZEROPAD \<and> \<not> has f LEFT"
    by (simp_all add: f'_def)
  define neg where "neg \<longleftrightarrow> has f SIGN \<and> num <s 0"
  define m where "m = (if neg then - num else num)"
  define sign :: "u8 option" where "sign = (if neg then Some 0x2D else if has f SIGN \<and> has f PLUS then Some 0x2B
      else if has f SIGN \<and> has f SPACE then Some 0x20 else None)"
  define tmp where "tmp = (if m = 0 then [0x30] else tmp_digits (if has f LARGE then large_digits else small_digits) base m)"
  define sg where "sg = sign_text num f"
  define ds where "ds = digit_text num base f"
  have parts: "rev tmp = ds" "(case sign of None \<Rightarrow> [] | Some g \<Rightarrow> [g]) = sg"
    using number_parts(1) [OF neg_def m_def, of base] number_parts(2) [OF neg_def m_def] by (simp_all add: tmp_def sign_def ds_def sg_def)
  have L: "length tmp = length ds" using parts(1) by (metis length_rev)
  have nds: "ds \<noteq> []" by (simp add: ds_def digit_text_nonempty)
  let ?c = "if has f' ZEROPAD then 0x30 else 0x20 :: u8"
  define rest where "rest = (\<lambda>(size1, st1). do {
       (size2, st2) \<leftarrow> (case sign of None \<Rightarrow> Some (size1, st1)
          | Some g \<Rightarrow> map_option (Pair (if fst st1 \<le> en then size1 - 1 else size1)) (put en g st1));
       (size3, st3) \<leftarrow> (if has f' LEFT then Some (size2, st2)
          else map_option (Pair (min size2 0 - 1)) (put_n en (nat size2) ?c st2));
       st4 \<leftarrow> put_s en (rev tmp) st3;
       put_n en (nat size3) 0x20 st4
     })"
  let ?n0 = "s - int (length ds)"
  have pn: "print_number en num base s f (p, b) = Option.bind (if has f' ZEROPAD \<or> has f' LEFT then Some (?n0, (p, b))
          else let sz = (if sign \<noteq> None \<and> 0 < ?n0 then ?n0 - 1 else ?n0)
               in map_option (Pair (min sz 0 - 1)) (put_n en (nat sz) 0x20 (p, b))) rest"
    unfolding print_number_def Let_def rest_def f'_def [symmetric] neg_def [symmetric] f'(1-5)
      m_def [symmetric] sign_def [symmetric] tmp_def [symmetric] L ..
  text \<open>Sign, fill of the middle, digits and fill of the end, from offset q.\<close>
  have rest: "\<exists>t. rest (n, (q, c)) = Some t \<and> shows_text en (sg @ (if has f LEFT then [] else replicate (nat (n - int (length sg))) ?c) @ ds
      @ (if has f LEFT then replicate (nat (n - int (length sg))) 0x20 else [])) (q, c) t" if "en < length c" for n q c
  proof (cases sign)
    case None
    then have "sg = []" using parts(2) by simp
    then show ?thesis
      using that None f' unfolding rest_def parts(1) by (simp add: put_s_ok put_n_ok shows_text_def)
  next
    case (Some g)
    then have sg: "sg = [g]" using parts(2) by simp
    show ?thesis
    proof (cases "q \<le> en")
      case True
      then show ?thesis
        using that Some f' sg unfolding rest_def parts(1) by (simp add: put_s_ok put_n_ok put_ok shows_text_def)
    next
      case False
      then show ?thesis
        using that Some f' sg unfolding rest_def parts(1) by (simp add: put_s_ok put_n_ok put_ok shows_text_def)
    qed
  qed
  show ?thesis
  proof (cases "has f' ZEROPAD \<or> has f' LEFT")
    case True
    have e: "number_text num base s f = sg @ (if has f LEFT then [] else replicate (nat (?n0 - int (length sg))) ?c) @ ds
      @ (if has f LEFT then replicate (nat (?n0 - int (length sg))) 0x20 else [])"
    proof -
      have "s - int (length sg + length ds) = ?n0 - int (length sg)" by simp
      then show ?thesis unfolding number_text_def Let_def sg_def [symmetric] ds_def [symmetric] using True f' by auto
    qed
    show ?thesis unfolding pn e using rest [OF en, of ?n0 p] True by simp
  next
    case False
    let ?sz = "if sign \<noteq> None \<and> 0 < ?n0 then ?n0 - 1 else ?n0"
    have pad: "nat ?sz = nat (?n0 - int (length sg))" using parts(2) by (cases sign) auto
    let ?pre = "replicate (nat ?sz) (0x20 :: u8)"
    have e: "number_text num base s f = ?pre @ sg @ ds"
    proof -
      have "nat (s - int (length sg + length ds)) = nat ?sz" unfolding pad by simp
      moreover have "\<not> has f ZEROPAD" "\<not> has f LEFT" using False f' by auto
      ultimately show ?thesis unfolding number_text_def Let_def sg_def [symmetric] ds_def [symmetric] by simp
    qed
    obtain t where t: "rest (min ?sz 0 - 1, (p + nat ?sz, clip en p ?pre b)) = Some t"
      "shows_text en (sg @ ds) (p + nat ?sz, clip en p ?pre b) t"
      using rest [of "clip en p ?pre b" "min ?sz 0 - 1" "p + nat ?sz"] en False f' by auto
    have "print_number en num base s f (p, b) = Some t" unfolding pn using False t(1) en by (simp add: put_n_ok Let_def)
    moreover have "shows_text en (?pre @ sg @ ds) (p, b) t"
      using shows_append [OF shows_exact [of en ?pre p b], of "sg @ ds" t] t(2) by simp
    ultimately show ?thesis unfolding e by blast
  qed
qed


section \<open>Formats\<close>

lemma field_shows:
  assumes "en < length b"
  shows "\<exists>t. Option.bind (if has f LEFT then Some (p, b) else put_n en (nat (w - int (length s))) 0x20 (p, b))
      (\<lambda>st1. Option.bind (put_s en s st1) (\<lambda>st2. if has f LEFT then put_n en (nat (w - int (length s))) 0x20 st2 else Some st2)) = Some t
    \<and> shows_text en (field_text s w f) (p, b) t"
  using assms by (cases "has f LEFT") (simp_all add: put_s_ok put_n_ok shows_text_def field_text_def Let_def)

lemma put_one: "put en c st = put_s en [c] st"
  by (cases "put en c st") simp_all

lemma convert_shows:
  assumes en: "en < length b" and ct: "conv_text co f w q args = Some (args', tx)"
  shows "\<exists>t. convert en co f w q args (p, b) = Some (args', t) \<and> shows_text en tx (p, b) t"
proof (cases co)
  case None
  then show ?thesis using ct en by (auto simp: conv_text_def convert_def put_ok shows_text_def)
next
  case (Some c)
  consider "c = 0x63" | "c = 0x73" | "c = 0x70" | "c = 0x25" | base add where "int_conv c = Some (base, add)" "c \<notin> {0x63, 0x73, 0x70, 0x25}"
    | "int_conv c = None" "c \<notin> {0x63, 0x73, 0x70, 0x25}" by (cases "int_conv c") auto
  then show ?thesis
  proof cases
    case 1
    then obtain n where n: "int_arg args = Some (n, args')" "tx = field_text [ucast n] w f" using ct Some by (auto simp: conv_text_def)
    have nw: "nat (w - int (length [ucast n :: u8])) = nat (w - 1)" by simp
    show ?thesis using field_shows [OF en, of f p w "[ucast n]"] Some 1 n(1)
      unfolding nw n(2) put_one [symmetric] by (cases "has f LEFT") (auto simp: convert_def Option.bind_eq_Some_conv)
  next
    case 2
    then obtain so where n: "str_arg args = Some (so, args')" "tx = field_text (case so of None \<Rightarrow> null_text | Some s \<Rightarrow> s) w f"
      using ct Some by (auto simp: conv_text_def)
    show ?thesis using field_shows [OF en, of f p w "case so of None \<Rightarrow> null_text | Some s \<Rightarrow> s"] Some 2 n(1)
      unfolding n(2) by (cases "has f LEFT") (auto simp: convert_def Option.bind_eq_Some_conv Let_def)
  next
    case 3
    then obtain n where n: "int_arg args = Some (n, args')"
      "tx = (if w = -1 then number_text n 16 8 (f OR ZEROPAD) else number_text n 16 w f)" using ct Some by (auto simp: conv_text_def)
    show ?thesis using print_number_shows [OF en, of n 16 8 "f OR ZEROPAD" p] print_number_shows [OF en, of n 16 w f p] Some 3 n
      by (cases "w = -1") (auto simp: convert_def)
  next
    case 4
    then show ?thesis using ct Some en by (auto simp: conv_text_def convert_def put_ok shows_text_def)
  next
    case 5
    then obtain n where n: "int_arg args = Some (n, args')" "tx = number_text (num_arg q (f OR add) n) base w (f OR add)"
      using ct Some by (auto simp: conv_text_def)
    show ?thesis using print_number_shows [OF en, of "num_arg q (f OR add) n" base w "f OR add" p] Some 5 n by (auto simp: convert_def)
  next
    case 6
    then have "args' = args" "tx = [0x25, c]" using ct Some by (auto simp: conv_text_def)
    then show ?thesis using Some 6 en by (auto simp: convert_def put_ok shows_text_def)
  qed
qed

lemma fmt_loop_shows:
  "en < length b \<Longrightarrow> fmt_text fmt args = Some tx \<Longrightarrow> \<exists>t. fmt_loop en fmt args (p, b) = Some t \<and> shows_text en tx (p, b) t"
proof (induction fmt args arbitrary: p b tx rule: fmt_text.induct)
  case (1 args)
  then show ?case by (simp add: shows_text_def)
next
  case (2 c cs args)
  show ?case
  proof (cases "c = 0x25")
    case False
    then obtain v where t: "fmt_text cs args = Some v" "tx = [c] @ v" using 2(4) by auto
    obtain s1 where s1: "put en c (p, b) = Some s1" "shows_text en [c] (p, b) s1" using put_ok [OF 2(3)] shows_exact [of en "[c]" p b] by simp
    have "en < length (snd s1)" using shows_length [OF s1(2)] 2(3) by simp
    then obtain s2 where "fmt_loop en cs args (fst s1, snd s1) = Some s2" "shows_text en v (fst s1, snd s1) s2" using 2(1) [OF False _ t(1)] by blast
    then show ?thesis using False s1 shows_append [OF s1(2), of v s2] t(2) by simp
  next
    case True
    then obtain co f w q rest a1 where d: "directive cs args = Some (co, f, w, q, rest, a1)" using 2(4) by (cases "directive cs args") auto
    obtain a2 u where cv: "conv_text co f w q a1 = Some (a2, u)" using 2(4) True d by (cases "conv_text co f w q a1") auto
    obtain v where v: "fmt_text rest a2 = Some v" "tx = u @ v" using 2(4) True d cv by auto
    obtain s1 where s1: "convert en co f w q a1 (p, b) = Some (a2, s1)" "shows_text en u (p, b) s1" using convert_shows [OF 2(3) cv] by blast
    have "en < length (snd s1)" using shows_length [OF s1(2)] 2(3) by simp
    moreover have IH: "\<And>p b tx. en < length b \<Longrightarrow> fmt_text rest a2 = Some tx \<Longrightarrow> \<exists>t. fmt_loop en rest a2 (p, b) = Some t \<and> shows_text en tx (p, b) t"
      by (rule 2(2) [OF _ d refl refl refl refl refl cv refl]) (use True in simp_all)
    ultimately obtain s2 where "fmt_loop en rest a2 (fst s1, snd s1) = Some s2" "shows_text en v (fst s1, snd s1) s2"
      using IH [of "snd s1" v "fst s1"] v(1) by blast
    then show ?thesis using True d s1 shows_append [OF s1(2), of v s2] v(2) by simp
  qed
qed


lemma last_offset_ok:
  assumes "0 < sz" "unat a + unat sz \<le> 2 ^ 32" shows "last_offset a sz = unat sz - 1"
proof -
  have n: "unat (sz - 1) = unat sz - 1" using assms(1) by (simp add: unat_minus_one word_gt_0)
  have "unat (a + (sz - 1)) = unat a + unat (sz - 1)"
    using assms n by (subst unat_add_lem [symmetric]) (auto simp: word_less_nat_alt)
  then have "unat a \<le> unat (a + (sz - 1))" by linarith
  moreover have "a + sz - 1 = a + (sz - 1)" by simp
  ultimately have "\<not> a + sz - 1 < a" unfolding word_less_nat_alt by (simp only: not_less)
  then show ?thesis using n by (simp add: last_offset_def)
qed

lemma vsnprintf_ok:
  assumes "0 < sz" "unat a + unat sz \<le> 2 ^ 32" "unat sz \<le> length buf" "fmt_text fmt args = Some tx"
  shows "\<exists>n b. rt_vsnprintf a buf sz fmt args = Some (n, b) \<and> length b = length buf
    \<and> take (min (length tx) (unat sz - 1)) b = take (unat sz - 1) tx \<and> b ! min (length tx) (unat sz - 1) = 0
    \<and> (\<forall>i < length buf. unat sz \<le> i \<longrightarrow> b ! i = buf ! i)
    \<and> length tx \<le> n \<and> (length tx \<le> unat sz \<longrightarrow> n = length tx)"
proof -
  define en where "en = unat sz - 1"
  have e: "last_offset a sz = en" "unat sz = Suc en" using last_offset_ok [OF assms(1,2)] assms(1) by (simp_all add: en_def word_less_nat_alt)
  have en: "en < length buf" using assms(3) e(2) by simp
  obtain t where t: "fmt_loop en fmt args (0, buf) = Some t" "shows_text en tx (0, buf) t" using fmt_loop_shows [OF en assms(4)] by blast
  have s: "snd t = clip en 0 tx buf" "length tx \<le> fst t" "length tx \<le> Suc en \<longrightarrow> fst t = length tx" using t(2) by (simp_all add: shows_text_def)
  let ?k = "min (fst t) en" and ?b = "(clip en 0 tx buf)[min (fst t) en := 0]"
  have k: "?k = min (length tx) en" using s(2,3) by auto
  have "rt_vsnprintf a buf sz fmt args = Some (fst t, ?b)"
    using t(1) s(1) en e(1) by (cases t) (simp add: rt_vsnprintf_def Let_def)
  moreover have "take (min (length tx) en) ?b = take en tx"
    using en unfolding k by (intro nth_equalityI) (auto simp: clip_nth)
  moreover have "?b ! min (length tx) en = 0" using en unfolding k by simp
  moreover have "\<forall>i < length buf. Suc en \<le> i \<longrightarrow> ?b ! i = buf ! i" by (auto simp: clip_nth)
  ultimately show ?thesis using s(2,3) e(2) by (intro exI [of _ "fst t"] exI [of _ ?b]) simp
qed




text \<open>The digits denote the number.\<close>

lemma ref_digits_value: "2 \<le> b \<Longrightarrow> foldl (\<lambda>v d. v * b + d) 0 (ref_digits b n) = n \<and> (\<forall>d\<in>set (ref_digits b n). d < b)"
proof (induction b n rule: ref_digits.induct)
  case (1 b n)
  show ?case
  proof (cases "n < b")
    case True
    then show ?thesis using 1(2) by (subst (1 2) ref_digits.simps) simp
  next
    case False
    then have "ref_digits b n = ref_digits b (n div b) @ [n mod b]" using 1(2) by (subst ref_digits.simps) simp
    then show ?thesis using 1 False by simp
  qed
qed

text \<open>
  rt_kprintf sends the text when it has at most 126 bytes. Of a longer one it sends the first 126 bytes and the terminator
  behind them, which the length of the buffer counts in.
\<close>

theorem kprintf_output:
  assumes "unat a + 127 \<le> 2 ^ 32" "length log_buf = 128" "fmt_text fmt args = Some tx"
  shows "\<exists>b. rt_kprintf a log_buf fmt args = Some (if length tx < 127 then tx else take 126 tx @ [0], b)"
proof -
  have p: "(0::u32) < 127" "unat a + unat (127::u32) \<le> 2 ^ 32" "unat (127::u32) \<le> length log_buf" using assms by simp_all
  obtain n b where r: "rt_vsnprintf a log_buf 127 fmt args = Some (n, b)" "length b = length log_buf"
    and t: "take (min (length tx) 126) b = take 126 tx" "b ! min (length tx) 126 = 0" and n: "length tx \<le> n" "length tx \<le> 127 \<longrightarrow> n = length tx"
    using vsnprintf_ok [OF p assms(3)] by auto
  have "take (if 127 < n then 127 else n) b = (if length tx < 127 then tx else take 126 tx @ [0])"
  proof (cases "length tx < 127")
    case True
    then show ?thesis using t(1) n by simp
  next
    case False
    then have "take 127 b = take 126 b @ [b ! 126]" using r(2) assms(2) take_Suc_conv_app_nth [of 126 b] by simp
    moreover have "127 \<le> n" using False n by simp
    ultimately show ?thesis using t False by (auto simp: min_def)
  qed
  then show ?thesis using r(1) by (simp add: rt_kprintf_def)
qed

text \<open>A sign that falls behind the end of the buffer does not reduce the width: the answer is one more than the length of the text.\<close>

lemma vsnprintf_length_off:
  "fmt_text [0x61, 0x25, 0x30, 0x35, 0x64] [Num 0xFFFFFFFF] = Some [0x61, 0x2D, 0x30, 0x30, 0x30, 0x31]"
  "rt_vsnprintf 0x20000000 [0xFF] 1 [0x61, 0x25, 0x30, 0x35, 0x64] [Num 0xFFFFFFFF] = Some (7, [0])"
proof -
  have d: "ref_digits 10 (Suc 0) = [1]" "replicate 3 (0x30 :: u8) = [0x30, 0x30, 0x30]" by (simp_all add: ref_digits.simps numeral_3_eq_3)
  show "fmt_text [0x61, 0x25, 0x30, 0x35, 0x64] [Num 0xFFFFFFFF] = Some [0x61, 0x2D, 0x30, 0x30, 0x30, 0x31]"
    by (simp add: directive_def fmt_width_def is_digit_def fmt_qualifier_def conv_text_def int_conv_def int_arg_def
        num_arg_def number_text_def sign_text_def digit_text_def has_def d small_digits_def)
  have t: "tmp_digits small_digits 10 1 = [0x31]"
    by (subst tmp_digits.simps, simp add: divide_def small_digits_def, subst tmp_digits.simps, simp)
  have e: "last_offset 0x20000000 1 = 0" by (simp add: last_offset_def)
  have r: "replicate 4 c = [c, c, c, c]" for c :: u8 by (simp add: eval_nat_numeral)
  have m: "(0xFFFFFFFF :: u32) <s 0" "- (0xFFFFFFFF :: u32) = 1" by (simp_all add: word_sless_alt)
  show "rt_vsnprintf 0x20000000 [0xFF] 1 [0x61, 0x25, 0x30, 0x35, 0x64] [Num 0xFFFFFFFF] = Some (7, [0])"
    by (simp add: rt_vsnprintf_def e directive_def fmt_width_def is_digit_def fmt_qualifier_def convert_def int_conv_def int_arg_def
        num_arg_def print_number_def has_def t put_n_s put_def Let_def m r)
qed

end
