(* ===== verification/Rt_Mailbox.thy ===== *)
theory Rt_Mailbox
  imports Bounded_Fifo Rt_MessageQueue
begin

text \<open>
  The kernel mailbox of src/src/ipc.c: a ring of size words with an input offset, an output
  offset and an entry counter. pwd.c reads the password keys from one, and the link driver hands
  its send requests over in another. The suspend lists hold the numbers of the waiting threads.
\<close>

section \<open>State and operations\<close>

record rt_mailbox =
  mb_pool :: "u32 list"
  mb_size :: nat
  mb_entry :: nat
  in_offset :: nat
  out_offset :: nat
  mb_suspended :: "nat list"
  mb_senders :: "nat list"

text \<open>rt_mb_init (and rt_mb_create, which allocates the pool first).\<close>

definition rt_mb_init :: "u32 list \<Rightarrow> nat \<Rightarrow> rt_mailbox" where
  "rt_mb_init pool sz = \<lparr>mb_pool = pool, mb_size = sz, mb_entry = 0, in_offset = 0, out_offset = 0,
     mb_suspended = [], mb_senders = []\<rparr>"

datatype mb_res = MbOk "nat option" | MbErr rt_err | MbSuspended

text \<open>
  rt_mb_send_wait by the thread self: a full mailbox answers RT_EFULL when the timeout is 0 and
  suspends the sender otherwise; a stored mail wakes the first suspended receiver.
\<close>

definition rt_mb_send_wait :: "rt_mailbox \<Rightarrow> u32 \<Rightarrow> int \<Rightarrow> nat \<Rightarrow> (mb_res \<times> rt_mailbox) option" where
  "rt_mb_send_wait mb v timeout self =
     (if mb_entry mb = mb_size mb then
        (if timeout = 0 then Some (MbErr RT_EFULL, mb)
         else Some (MbSuspended, mb\<lparr>mb_senders := mb_senders mb @ [self]\<rparr>))
      else do {
        pool \<leftarrow> wr (mb_pool mb) (in_offset mb) v;
        let i = in_offset mb + 1;
        let mb1 = mb\<lparr>mb_pool := pool, in_offset := (if i \<ge> mb_size mb then 0 else i),
          mb_entry := mb_entry mb + 1\<rparr>;
        (case mb_suspended mb1 of
           [] \<Rightarrow> Some (MbOk None, mb1)
         | t # ts \<Rightarrow> Some (MbOk (Some t), mb1\<lparr>mb_suspended := ts\<rparr>))
      })"

definition rt_mb_send :: "rt_mailbox \<Rightarrow> u32 \<Rightarrow> (mb_res \<times> rt_mailbox) option" where
  "rt_mb_send mb v = rt_mb_send_wait mb v 0 0"

text \<open>rt_mb_recv: the answer also carries the mail; a taken mail wakes the first suspended sender.\<close>

definition rt_mb_recv :: "rt_mailbox \<Rightarrow> int \<Rightarrow> nat \<Rightarrow> (mb_res \<times> u32 \<times> rt_mailbox) option" where
  "rt_mb_recv mb timeout self =
     (if mb_entry mb = 0 then
        (if timeout = 0 then Some (MbErr RT_ETIMEOUT, 0, mb)
         else Some (MbSuspended, 0, mb\<lparr>mb_suspended := mb_suspended mb @ [self]\<rparr>))
      else do {
        v \<leftarrow> rd (mb_pool mb) (out_offset mb);
        let i = out_offset mb + 1;
        let mb1 = mb\<lparr>out_offset := (if i \<ge> mb_size mb then 0 else i), mb_entry := mb_entry mb - 1\<rparr>;
        (case mb_senders mb1 of
           [] \<Rightarrow> Some (MbOk None, v, mb1)
         | t # ts \<Rightarrow> Some (MbOk (Some t), v, mb1\<lparr>mb_senders := ts\<rparr>))
      })"

section \<open>Invariant\<close>

definition mb_inv :: "rt_mailbox \<Rightarrow> bool" where
  "mb_inv mb \<longleftrightarrow> 0 < mb_size mb \<and> length (mb_pool mb) = mb_size mb \<and> mb_entry mb \<le> mb_size mb \<and>
     out_offset mb < mb_size mb \<and> in_offset mb = (out_offset mb + mb_entry mb) mod mb_size mb"

definition mb_mails :: "rt_mailbox \<Rightarrow> u32 list" where
  "mb_mails mb = map (\<lambda>i. mb_pool mb ! ((out_offset mb + i) mod mb_size mb)) [0..<mb_entry mb]"

lemma mb_mails_length [simp]: "length (mb_mails mb) = mb_entry mb"
  by (simp add: mb_mails_def)

lemma mb_init_inv: "0 < length pool \<Longrightarrow> mb_inv (rt_mb_init pool (length pool)) \<and> mb_mails (rt_mb_init pool (length pool)) = []"
  by (simp add: mb_inv_def rt_mb_init_def mb_mails_def)

lemma mb_send_room:
  assumes inv: "mb_inv mb" and room: "mb_entry mb < mb_size mb"
  shows "\<exists>w mb'. rt_mb_send_wait mb v timeout self = Some (MbOk w, mb') \<and> mb_inv mb' \<and>
    mb_mails mb' = mb_mails mb @ [v] \<and> mb_size mb' = mb_size mb"
proof -
  let ?n = "mb_size mb" let ?o = "out_offset mb" let ?e = "mb_entry mb" let ?i = "in_offset mb"
  have i: "?i < ?n" "?i = (?o + ?e) mod ?n" and len: "length (mb_pool mb) = ?n"
    using inv by (simp_all add: mb_inv_def)
  let ?mb1 = "mb\<lparr>mb_pool := (mb_pool mb)[?i := v], in_offset := (?i + 1) mod ?n, mb_entry := ?e + 1\<rparr>"
  have inv1: "mb_inv ?mb1" using inv room by (simp add: mb_inv_def mod_Suc_eq)
  have old: "(mb_pool mb)[?i := v] ! ((?o + k) mod ?n) = mb_pool mb ! ((?o + k) mod ?n)" if "k < ?e" for k
    using ring_index_inj [of k ?n ?e ?o] that room i(2) by (metis less_trans nat_neq_iff nth_list_update_neq)
  have new: "(mb_pool mb)[?i := v] ! ((?o + ?e) mod ?n) = v" using inv i by (simp add: mb_inv_def)
  have mails: "mb_mails ?mb1 = mb_mails mb @ [v]" using old new by (simp add: mb_mails_def)
  have "rt_mb_send_wait mb v timeout self = (case mb_suspended ?mb1 of
           [] \<Rightarrow> Some (MbOk None, ?mb1) | t # ts \<Rightarrow> Some (MbOk (Some t), ?mb1\<lparr>mb_suspended := ts\<rparr>))"
    using room i(1) len by (simp add: rt_mb_send_wait_def Let_def wrap_step split: list.split split del: if_split)
  moreover have "mb_inv (?mb1\<lparr>mb_suspended := ts\<rparr>)" "mb_mails (?mb1\<lparr>mb_suspended := ts\<rparr>) = mb_mails ?mb1" for ts
    using inv1 by (simp_all add: mb_inv_def mb_mails_def)
  ultimately show ?thesis using inv1 mails by (cases "mb_suspended mb") auto
qed

lemma mb_recv_item:
  assumes inv: "mb_inv mb" and m: "mb_mails mb = v # vs"
  shows "\<exists>w mb'. rt_mb_recv mb timeout self = Some (MbOk w, v, mb') \<and> mb_inv mb' \<and>
    mb_mails mb' = vs \<and> mb_size mb' = mb_size mb"
proof -
  let ?n = "mb_size mb" let ?o = "out_offset mb" let ?e = "mb_entry mb"
  have e: "?e \<noteq> 0" using m mb_mails_length [of mb] by auto
  have o: "?o < ?n" "?n = length (mb_pool mb)" "?e \<le> ?n" using inv by (simp_all add: mb_inv_def)
  let ?mb1 = "mb\<lparr>out_offset := (?o + 1) mod ?n, mb_entry := ?e - 1\<rparr>"
  have v: "mb_pool mb ! ?o = v" and vs: "vs = tl (mb_mails mb)"
    using m e o by (simp_all add: mb_mails_def upt_conv_Cons)
  have "(?o + ?e) mod ?n = ((?o + 1) mod ?n + (?e - 1)) mod ?n" 
  proof -
    obtain k where "?e = Suc k" using e not0_implies_Suc by blast
    then show ?thesis by (simp add: mod_add_left_eq)
  qed
  then have inv1: "mb_inv ?mb1" using inv o by (simp add: mb_inv_def)
  have "mb_mails ?mb1 = map (\<lambda>i. mb_pool mb ! ((?o + i) mod ?n)) (map Suc [0..<?e - 1])"
    by (simp add: mb_mails_def mod_add_left_eq o_def)
  also have "\<dots> = vs" using vs e by (simp add: mb_mails_def map_Suc_upt upt_conv_Cons flip: map_map)
  finally have mails: "mb_mails ?mb1 = vs" .
  have "rt_mb_recv mb timeout self = (case mb_senders ?mb1 of
           [] \<Rightarrow> Some (MbOk None, v, ?mb1) | t # ts \<Rightarrow> Some (MbOk (Some t), v, ?mb1\<lparr>mb_senders := ts\<rparr>))"
    using e o v by (simp add: rt_mb_recv_def Let_def wrap_step split: list.split split del: if_split)
  moreover have "mb_inv (?mb1\<lparr>mb_senders := ts\<rparr>)" "mb_mails (?mb1\<lparr>mb_senders := ts\<rparr>) = mb_mails ?mb1" for ts
    using inv1 by (simp_all add: mb_inv_def mb_mails_def)
  ultimately show ?thesis using inv1 mails by (cases "mb_senders mb") auto
qed

section \<open>The mailbox as a bounded queue\<close>

definition mb_put :: "u32 \<Rightarrow> rt_mailbox \<Rightarrow> rt_mailbox option" where
  "mb_put v mb = (case rt_mb_send mb v of Some (MbOk _, mb') \<Rightarrow> Some mb' | _ \<Rightarrow> None)"

definition mb_get :: "rt_mailbox \<Rightarrow> (u32 \<times> rt_mailbox) option" where
  "mb_get mb = (case rt_mb_recv mb 0 0 of Some (MbOk _, v, mb') \<Rightarrow> Some (v, mb') | _ \<Rightarrow> None)"

interpretation mb_fifo: bounded_fifo mb_put mb_get mb_mails mb_size mb_inv "\<lambda>_. True"
proof unfold_locales
  fix mb v
  assume inv: "mb_inv mb"
  show "\<exists>q'. mb_put v mb = Some q' \<and> mb_inv q' \<and> mb_mails q' = mb_mails mb @ [v] \<and> mb_size q' = mb_size mb"
    if "length (mb_mails mb) < mb_size mb"
    using mb_send_room [OF inv, of v 0 0] that by (auto simp: mb_put_def rt_mb_send_def)
  show "mb_put v mb = None" if "\<not> length (mb_mails mb) < mb_size mb"
    using inv that by (auto simp: mb_put_def rt_mb_send_def rt_mb_send_wait_def mb_inv_def)
next
  fix mb x xs
  assume "mb_inv mb" "mb_mails mb = x # xs"
  then show "\<exists>q'. mb_get mb = Some (x, q') \<and> mb_inv q' \<and> mb_mails q' = xs \<and> mb_size q' = mb_size mb"
    using mb_recv_item [of mb x xs 0 0] by (auto simp: mb_get_def)
next
  fix mb
  assume "mb_inv mb" "mb_mails mb = []"
  then show "mb_get mb = None"
    using mb_mails_length [of mb] by (simp add: mb_get_def rt_mb_recv_def)
qed

section \<open>Properties\<close>



end
