(* ===== verification/Rt_Queue_Control.thy ===== *)
theory Rt_Queue_Control
  imports Rt_Mailbox Rt_Semaphore
begin

text \<open>
  The remaining calls of the kernel mailbox and message queue (src/src/ipc.c): creation from the
  heap, detaching, deleting and the reset by control. Detaching and deleting answer the threads
  they wake; a reset wakes them too and empties the queue. The woken threads go on with an error.
\<close>

section \<open>Mailbox\<close>

text \<open>rt_mb_create: malloc n is the pool of n words, or None when the heap has no room.\<close>

definition rt_mb_create :: "(nat \<Rightarrow> u32 list option) \<Rightarrow> nat \<Rightarrow> rt_mailbox option" where
  "rt_mb_create malloc n = (case malloc n of None \<Rightarrow> None
     | Some pool \<Rightarrow> Some \<lparr>mb_pool = pool, mb_size = n, mb_entry = 0, in_offset = 0, out_offset = 0,
         mb_suspended = [], mb_senders = []\<rparr>)"

definition rt_mb_detach :: "rt_mailbox \<Rightarrow> tid list" where
  "rt_mb_detach mb = fst (rt_ipc_list_resume_all (mb_suspended mb)) @ fst (rt_ipc_list_resume_all (mb_senders mb))"

text \<open>rt_mb_delete also hands the pool back to the heap.\<close>

definition rt_mb_delete :: "rt_mailbox \<Rightarrow> tid list \<times> u32 list" where
  "rt_mb_delete mb =
     (fst (rt_ipc_list_resume_all (mb_suspended mb)) @ fst (rt_ipc_list_resume_all (mb_senders mb)), mb_pool mb)"

definition rt_mb_control :: "rt_mailbox \<Rightarrow> u8 \<Rightarrow> rt_err \<times> tid list \<times> rt_mailbox" where
  "rt_mb_control mb cmd =
     (if cmd = RT_IPC_CMD_RESET then
        let (w1, r1) = rt_ipc_list_resume_all (mb_suspended mb); (w2, r2) = rt_ipc_list_resume_all (mb_senders mb) in
        (RT_EOK, w1 @ w2, mb\<lparr>mb_suspended := r1, mb_senders := r2, mb_entry := 0, in_offset := 0, out_offset := 0\<rparr>)
      else (RT_ERROR, [], mb))"

section \<open>Message queue\<close>

definition rt_mq_detach :: "rt_mq \<Rightarrow> tid list" where
  "rt_mq_detach mq = fst (rt_ipc_list_resume_all (suspended mq))"

definition rt_mq_delete :: "rt_mq \<Rightarrow> tid list" where
  "rt_mq_delete mq = fst (rt_ipc_list_resume_all (suspended mq))"

text \<open>The loop of the reset: it moves the queued nodes to the free list, one after the other.\<close>

definition mq_release_head :: "nat \<Rightarrow> rt_mq \<Rightarrow> rt_mq" where
  "mq_release_head n mq = mq_push_free n (mq\<lparr>queue_head := next_of mq n,
     queue_tail := (if queue_tail mq = Some n then None else queue_tail mq)\<rparr>)"

partial_function (option) mq_drain :: "rt_mq \<Rightarrow> rt_mq option" where
  "mq_drain mq = (case queue_head mq of None \<Rightarrow> Some mq | Some n \<Rightarrow> mq_drain (mq_release_head n mq))"

definition rt_mq_control :: "rt_mq \<Rightarrow> u8 \<Rightarrow> (rt_err \<times> tid list \<times> rt_mq) option" where
  "rt_mq_control mq cmd =
     (if cmd = RT_IPC_CMD_RESET then
        let (woken, rest) = rt_ipc_list_resume_all (suspended mq) in
        do { mq1 \<leftarrow> mq_drain (mq\<lparr>suspended := rest\<rparr>); Some (RT_EOK, woken, mq1\<lparr>entry := 0\<rparr>) }
      else Some (RT_ERROR, [], mq))"

section \<open>Lemmas\<close>

text \<open>Releasing the head keeps the representation up to the count of the messages.\<close>

lemma rep_release_head:
  assumes "mq_rep (mq\<lparr>entry := length (n # qs)\<rparr>) fs (n # qs) is"
  shows "mq_rep ((mq_release_head n mq)\<lparr>entry := length qs\<rparr>) (n # fs) qs is"
proof -
  let ?m = "mq\<lparr>entry := length (n # qs)\<rparr>"
  obtain mq1 where t: "mq_take_head ?m = Some (n, mq1)" and r: "mq_rep mq1 fs qs (n # is)"
    using rep_take_head [OF assms] by blast
  have "mq_rep (mq_push_free n mq1) (n # fs) qs is" using rep_push_free [OF r, of n] by simp
  moreover have "queue_head mq = Some n" using assms by (simp add: mq_rep_def)
  then have "mq_push_free n mq1 = (mq_release_head n mq)\<lparr>entry := length qs\<rparr>"
    using t by (auto simp: mq_take_head_def mq_release_head_def mq_push_free_def)
  ultimately show ?thesis by simp
qed

lemma mq_drain_returns:
  "mq_rep (mq\<lparr>entry := length qs\<rparr>) fs qs is \<Longrightarrow>
     \<exists>mq'. mq_drain mq = Some mq' \<and> mq_rep (mq'\<lparr>entry := 0\<rparr>) (rev qs @ fs) [] is \<and>
       slot mq' = slot mq \<and> msg_size mq' = msg_size mq \<and> max_msgs mq' = max_msgs mq \<and> suspended mq' = suspended mq"
proof (induction qs arbitrary: mq fs)
  case Nil
  then have "queue_head mq = None" by (simp add: mq_rep_def)
  then show ?case using Nil by (subst mq_drain.simps) simp
next
  case (Cons n qs)
  then have "queue_head mq = Some n" by (simp add: mq_rep_def)
  then have "mq_drain mq = mq_drain (mq_release_head n mq)" by (subst mq_drain.simps) simp
  moreover have "slot (mq_release_head n mq) = slot mq" "msg_size (mq_release_head n mq) = msg_size mq"
    "max_msgs (mq_release_head n mq) = max_msgs mq" "suspended (mq_release_head n mq) = suspended mq"
    by (simp_all add: mq_release_head_def mq_push_free_def)
  ultimately show ?case using Cons.IH [OF rep_release_head [OF Cons.prems]] by simp
qed

lemma rep_entry_same: "mq_rep mq fs qs is \<Longrightarrow> mq_rep (mq\<lparr>suspended := ts, entry := length qs\<rparr>) fs qs is"
  by (simp add: mq_rep_def)

text \<open>The order in which a reset leaves the free list does not matter to the interface.\<close>

lemma reset_rep:
  assumes "mq_rep mq fs qs is"
  shows "\<exists>mq'. rt_mq_control mq RT_IPC_CMD_RESET = Some (RT_EOK, suspended mq, mq') \<and>
    mq_rep mq' (rev qs @ fs) [] is \<and> max_msgs mq' = max_msgs mq \<and> msg_size mq' = msg_size mq \<and> suspended mq' = []"
proof -
  have "mq_rep ((mq\<lparr>suspended := []\<rparr>)\<lparr>entry := length qs\<rparr>) fs qs is" using rep_entry_same [OF assms] by simp
  from mq_drain_returns [OF this] show ?thesis by (auto simp: rt_mq_control_def)
qed

section \<open>Properties\<close>

text \<open>
  Property C29 (mq_reset_returns): the loop of a reset of the message queue ends in every state that
  the interleaved calls of any number of threads can produce, also while other callers have nodes
  in their hands. It wakes all waiting receivers, empties the queue and puts exactly the queued
  nodes back: the nodes in flight stay in flight, and no node is lost or in two places.
\<close>

theorem mq_reset_returns:
  assumes "mq_rep mq fs qs inflight"
  shows "\<exists>mq'. rt_mq_control mq RT_IPC_CMD_RESET = Some (RT_EOK, suspended mq, mq') \<and>
    mq_rep mq' (rev qs @ fs) [] inflight \<and> mq_messages mq' = [] \<and> suspended mq' = [] \<and>
    length (rev qs @ fs) = max_msgs mq - length inflight"
proof -
  obtain mq' where m: "rt_mq_control mq RT_IPC_CMD_RESET = Some (RT_EOK, suspended mq, mq')"
    "mq_rep mq' (rev qs @ fs) [] inflight" "max_msgs mq' = max_msgs mq" "suspended mq' = []"
    using reset_rep [OF assms] by blast
  then show ?thesis using mq_rep_count [OF m(2)] mq_messages_rep [OF m(2)] by auto
qed

text \<open>
  After a reset a mailbox behaves like a new one of the same size,
  whatever was in it: any sequence of sends and receives gives the answers of an empty bounded list.
\<close>

theorem mb_reset_refines:
  assumes "mb_inv mb"
  shows "\<exists>mb'. rt_mb_control mb RT_IPC_CMD_RESET = (RT_EOK, mb_suspended mb @ mb_senders mb, mb') \<and>
    fst (run_queue mb_put mb_get ops mb') = fst (run_spec (mb_size mb) ops [])"
proof -
  let ?mb = "mb\<lparr>mb_suspended := [], mb_senders := [], mb_entry := 0, in_offset := 0, out_offset := 0\<rparr>"
  have "mb_inv ?mb" "mb_mails ?mb = []" using assms by (simp_all add: mb_inv_def mb_mails_def)
  then have "fst (run_queue mb_put mb_get ops ?mb) = fst (run_spec (mb_size mb) ops [])"
    using mb_fifo.run_refines [of ?mb ops] by auto
  then show ?thesis by (auto simp: rt_mb_control_def)
qed

text \<open>A queue with two nodes, one of them queued.\<close>

definition one_queued :: rt_mq where
  "one_queued = \<lparr>msg_size = 8, max_msgs = 2, entry = 1, next_of = (\<lambda>_. None), slot = (\<lambda>_. replicate 8 7),
     queue_head = Some 1, queue_tail = Some 1, queue_free = Some 0, suspended = [4, 5]\<rparr>"

theorem mq_reset_returns_witness:
  "\<exists>mq'. rt_mq_control one_queued RT_IPC_CMD_RESET = Some (RT_EOK, [4, 5], mq') \<and> mq_messages mq' = [] \<and>
    mq_rep mq' [1, 0] [] []"
proof -
  have "mq_rep one_queued [0] [1] []" by (auto simp: mq_rep_def one_queued_def)
  from mq_reset_returns [OF this] show ?thesis by (auto simp: one_queued_def)
qed

theorem mb_reset_refines_witness:
  "\<exists>mb'. rt_mb_control \<lparr>mb_pool = [5, 6], mb_size = 2, mb_entry = 2, in_offset = 1, out_offset = 1,
       mb_suspended = [], mb_senders = [3]\<rparr> RT_IPC_CMD_RESET = (RT_EOK, [3], mb') \<and>
    fst (run_queue mb_put mb_get [Put 1, Put 2, Put 3, Get] mb') = [Done, Done, Full, Item 1]"
  using mb_reset_refines [of "\<lparr>mb_pool = [5, 6], mb_size = 2, mb_entry = 2, in_offset = 1, out_offset = 1,
       mb_suspended = [], mb_senders = [3]\<rparr>" "[Put 1, Put 2, Put 3, Get]"]
  by (simp add: mb_inv_def)

end
