(* ===== verification/Rt_Event.thy ===== *)
theory Rt_Event
  imports Rt_Semaphore
begin

text \<open>
  Events of the kernel (src/src/ipc.c): a set of 32 bits and a list of threads, each of which waits
  for all or for some of the bits it has named. event_set and event_info are the fields of the same
  name of struct rt_thread, which only this code uses; None is a failed RT_ASSERT. Scheduling and
  the start of the timer are left out: the timer of a waiting thread is a step of the system below.
\<close>

section \<open>State and operations\<close>

definition RT_EVENT_FLAG_AND :: u8 where "RT_EVENT_FLAG_AND = 1"
definition RT_EVENT_FLAG_OR :: u8 where "RT_EVENT_FLAG_OR = 2"
definition RT_EVENT_FLAG_CLEAR :: u8 where "RT_EVENT_FLAG_CLEAR = 4"

lemmas event_flags = RT_EVENT_FLAG_AND_def RT_EVENT_FLAG_OR_def RT_EVENT_FLAG_CLEAR_def

record rt_event =
  ev_set :: u32
  ev_flag :: ipc_flag
  ev_waiting :: "tid list"
  event_set :: "tid \<Rightarrow> u32"
  event_info :: "tid \<Rightarrow> u8"

definition rt_event_init :: "ipc_flag \<Rightarrow> (tid \<Rightarrow> u32) \<Rightarrow> (tid \<Rightarrow> u8) \<Rightarrow> rt_event" where
  "rt_event_init flag es ei = \<lparr>ev_set = 0, ev_flag = flag, ev_waiting = [], event_set = es, event_info = ei\<rparr>"

text \<open>rt_event_create answers NULL when no object can be allocated.\<close>

definition rt_event_create :: "bool \<Rightarrow> ipc_flag \<Rightarrow> (tid \<Rightarrow> u32) \<Rightarrow> (tid \<Rightarrow> u8) \<Rightarrow> rt_event option" where
  "rt_event_create allocated flag es ei =
     (if \<not> allocated then None
      else Some \<lparr>ev_set = 0, ev_flag = flag, ev_waiting = [], event_set = es, event_info = ei\<rparr>)"

definition rt_event_detach :: "rt_event \<Rightarrow> tid list" where
  "rt_event_detach e = fst (rt_ipc_list_resume_all (ev_waiting e))"

definition rt_event_delete :: "rt_event \<Rightarrow> tid list" where
  "rt_event_delete e = fst (rt_ipc_list_resume_all (ev_waiting e))"

text \<open>
  What rt_event_send does at one waiting thread: whether its condition is satisfied, with the
  received bits saved in event_set when it waits for some of its bits.
\<close>

definition send_check :: "tid \<Rightarrow> rt_event \<Rightarrow> bool \<times> rt_event" where
  "send_check t e =
     (if event_info e t AND RT_EVENT_FLAG_AND \<noteq> 0 then (event_set e t AND ev_set e = event_set e t, e)
      else if event_info e t AND RT_EVENT_FLAG_OR \<noteq> 0 then
        (if event_set e t AND ev_set e \<noteq> 0
         then (True, e\<lparr>event_set := (event_set e)(t := event_set e t AND ev_set e)\<rparr>) else (False, e))
      else (False, e))"

text \<open>The walk along the waiting list; the answer names the threads that have been resumed.\<close>

fun send_walk :: "tid list \<Rightarrow> rt_event \<Rightarrow> tid list \<times> rt_event" where
  "send_walk [] e = ([], e)"
| "send_walk (t # ts) e =
     (let (ok, e1) = send_check t e in
      if ok then
        let e2 = (if event_info e1 t AND RT_EVENT_FLAG_CLEAR \<noteq> 0 then e1\<lparr>ev_set := ev_set e1 AND NOT (event_set e1 t)\<rparr> else e1);
            (woken, e3) = send_walk ts (e2\<lparr>ev_waiting := remove1 t (ev_waiting e2)\<rparr>)
        in (t # woken, e3)
      else send_walk ts e1)"

text \<open>rt_event_send answers whether it succeeded, the threads it has resumed and the event.\<close>

definition rt_event_send :: "rt_event \<Rightarrow> u32 \<Rightarrow> bool \<times> tid list \<times> rt_event" where
  "rt_event_send e bits =
     (if bits = 0 then (False, [], e)
      else let e1 = e\<lparr>ev_set := ev_set e OR bits\<rparr>; (woken, e2) = send_walk (ev_waiting e1) e1 in (True, woken, e2))"

datatype ev_res = EvGot u32 | EvError | EvTimeout | EvWaits

definition rt_event_recv ::
  "(tid \<Rightarrow> u8) \<Rightarrow> rt_event \<Rightarrow> tid \<Rightarrow> u32 \<Rightarrow> u8 \<Rightarrow> int \<Rightarrow> (ev_res \<times> rt_event) option" where
  "rt_event_recv prio e t bits opt timeout =
     (if bits = 0 then Some (EvError, e)
      else do {
        ok \<leftarrow> (if opt AND RT_EVENT_FLAG_AND \<noteq> 0 then Some (ev_set e AND bits = bits)
               else if opt AND RT_EVENT_FLAG_OR \<noteq> 0 then Some (ev_set e AND bits \<noteq> 0)
               else None);
        if ok then Some (EvGot (ev_set e AND bits),
          if opt AND RT_EVENT_FLAG_CLEAR \<noteq> 0 then e\<lparr>ev_set := ev_set e AND NOT bits\<rparr> else e)
        else if timeout = 0 then Some (EvTimeout, e)
        else Some (EvWaits, e\<lparr>event_set := (event_set e)(t := bits), event_info := (event_info e)(t := opt),
          ev_waiting := rt_ipc_list_suspend prio (ev_flag e) (ev_waiting e) t\<rparr>)
      })"

definition rt_event_control :: "rt_event \<Rightarrow> u8 \<Rightarrow> bool \<times> tid list \<times> rt_event" where
  "rt_event_control e cmd =
     (if cmd = RT_IPC_CMD_RESET then
        let (woken, rest) = rt_ipc_list_resume_all (ev_waiting e) in (True, woken, e\<lparr>ev_waiting := rest, ev_set := 0\<rparr>)
      else (False, [], e))"

section \<open>Threads on one event\<close>

text \<open>The log holds the bits every thread has received, with the option it had asked with.\<close>

record ev_sys =
  ev :: rt_event
  sent :: "u32 list"
  got :: "(tid \<times> u32 \<times> u8) list"

definition deliveries :: "rt_event \<Rightarrow> tid list \<Rightarrow> (tid \<times> u32 \<times> u8) list" where
  "deliveries e woken = map (\<lambda>t. (t, event_set e t, event_info e t)) woken"

inductive ev_step :: "(tid \<Rightarrow> u8) \<Rightarrow> ev_sys \<Rightarrow> ev_sys \<Rightarrow> bool" for prio where
  ev_send: "rt_event_send (ev s) bits = (True, woken, e) \<Longrightarrow>
    ev_step prio s (s\<lparr>ev := e, sent := sent s @ [bits], got := got s @ deliveries e woken\<rparr>)"
| ev_recv_now: "t \<notin> set (ev_waiting (ev s)) \<Longrightarrow> rt_event_recv prio (ev s) t bits opt timeout = Some (EvGot r, e) \<Longrightarrow>
    ev_step prio s (s\<lparr>ev := e, got := got s @ [(t, r, opt)]\<rparr>)"
| ev_recv_waits: "t \<notin> set (ev_waiting (ev s)) \<Longrightarrow> rt_event_recv prio (ev s) t bits opt timeout = Some (EvWaits, e) \<Longrightarrow>
    ev_step prio s (s\<lparr>ev := e\<rparr>)"
| ev_timer: "t \<in> set (ev_waiting (ev s)) \<Longrightarrow>
    ev_step prio s (s\<lparr>ev := (ev s)\<lparr>ev_waiting := remove1 t (ev_waiting (ev s))\<rparr>\<rparr>)"
| ev_reset: "rt_event_control (ev s) RT_IPC_CMD_RESET = (True, woken, e) \<Longrightarrow> ev_step prio s (s\<lparr>ev := e\<rparr>)"

inductive_cases ev_stepE: "ev_step prio s s'"

inductive_simps ev_step_simps: "ev_step prio s s'"

definition ev_start :: "ipc_flag \<Rightarrow> (tid \<Rightarrow> u32) \<Rightarrow> (tid \<Rightarrow> u8) \<Rightarrow> ev_sys" where
  "ev_start flag es ei = \<lparr>ev = rt_event_init flag es ei, sent = [], got = []\<rparr>"

section \<open>Sending is receiving in turn\<close>

text \<open>
  The reference: after the bits have been set, every waiting thread in turn asks again for its
  bits without waiting, and leaves the list when it gets them.
\<close>

definition poll_one :: "tid \<Rightarrow> tid list \<times> rt_event \<Rightarrow> tid list \<times> rt_event" where
  "poll_one t = (\<lambda>(woken, e). case rt_event_recv (\<lambda>_. 0) e t (event_set e t) (event_info e t) 0 of
     Some (EvGot r, e1) \<Rightarrow> (woken @ [t],
       e1\<lparr>event_set := (event_set e1)(t := r), ev_waiting := remove1 t (ev_waiting e1)\<rparr>)
   | _ \<Rightarrow> (woken, e))"

definition waiter_ok :: "rt_event \<Rightarrow> tid \<Rightarrow> bool" where
  "waiter_ok e t \<longleftrightarrow> event_set e t \<noteq> 0 \<and>
     (event_info e t AND RT_EVENT_FLAG_AND \<noteq> 0 \<or> event_info e t AND RT_EVENT_FLAG_OR \<noteq> 0)"

lemma and_not_and: "(s :: 'a :: len word) AND (NOT s OR NOT x) = s AND NOT x"
  by (rule bit_eqI) (auto simp: bit_and_iff bit_not_iff bit_or_iff)

lemma ev_upd_same [simp]: "e\<lparr>event_set := (event_set e)(t := event_set e t)\<rparr> = (e :: rt_event)"
  by (cases e) simp

lemma poll_check:
  assumes "waiter_ok e t"
  shows "poll_one t (woken, e) =
    (let (ok, e1) = send_check t e in
     if ok then (woken @ [t],
       (if event_info e1 t AND RT_EVENT_FLAG_CLEAR \<noteq> 0 then e1\<lparr>ev_set := ev_set e1 AND NOT (event_set e1 t)\<rparr> else e1)
         \<lparr>ev_waiting := remove1 t (ev_waiting e1)\<rparr>)
     else (woken, e1))"
proof (cases e)
  case (fields s fl ws es ei)
  show ?thesis
    using assms unfolding fields
    by (auto simp: poll_one_def rt_event_recv_def send_check_def waiter_ok_def Let_def and.commute and_not_and)
qed
lemma send_check_other: "send_check t e = (ok, e1) \<Longrightarrow> u \<noteq> t \<Longrightarrow> event_set e1 u = event_set e u"
  by (auto simp: send_check_def split: if_splits)

lemma send_check_same:
  "send_check t e = (ok, e1) \<Longrightarrow> event_info e1 = event_info e \<and> ev_set e1 = ev_set e \<and> ev_waiting e1 = ev_waiting e \<and>
     ev_flag e1 = ev_flag e \<and> (\<not> ok \<longrightarrow> e1 = e)"
  by (auto simp: send_check_def split: if_splits)

lemma send_walk_polls:
  "distinct ts \<Longrightarrow> \<forall>t \<in> set ts. waiter_ok e t \<Longrightarrow>
     fold poll_one ts (woken, e) = (woken @ fst (send_walk ts e), snd (send_walk ts e))"
proof (induction ts arbitrary: woken e)
  case (Cons t ts)
  obtain ok e1 where c: "send_check t e = (ok, e1)" by fastforce
  note f = send_check_same [OF c] send_check_other [OF c]
  have ok1: "\<forall>u \<in> set ts. waiter_ok e1 u"
    using Cons.prems f by (auto simp: waiter_ok_def) (metis+)
  show ?case
  proof (cases ok)
    case False
    then show ?thesis using Cons poll_check [of e t woken] c f by simp
  next
    case True
    let ?e2 = "(if event_info e1 t AND RT_EVENT_FLAG_CLEAR \<noteq> 0 then e1\<lparr>ev_set := ev_set e1 AND NOT (event_set e1 t)\<rparr> else e1)"
    have "\<forall>u \<in> set ts. waiter_ok (?e2\<lparr>ev_waiting := remove1 t (ev_waiting e1)\<rparr>) u"
      using ok1 by (simp add: waiter_ok_def)
    then show ?thesis
      using True Cons.prems poll_check [of e t woken] c
        Cons.IH [of "?e2\<lparr>ev_waiting := remove1 t (ev_waiting e1)\<rparr>" "woken @ [t]"]
      by (simp add: Let_def split_beta split del: if_split) (simp split: if_split)
  qed
qed simp

section \<open>The waiting list\<close>

definition satisfied :: "tid \<Rightarrow> rt_event \<Rightarrow> bool" where
  "satisfied t e \<longleftrightarrow> fst (send_check t e)"

lemma and_mono_zero: "(x :: 'a :: len word) AND s = s \<Longrightarrow> y AND x = 0 \<Longrightarrow> y AND s = 0"
proof -
  assume "x AND s = s" "y AND x = 0"
  have "(y AND x) AND s = y AND s" by (simp only: and.assoc \<open>x AND s = s\<close>)
  then show ?thesis using \<open>y AND x = 0\<close> by simp
qed

lemma and_mono_eq: "(x :: 'a :: len word) AND s = s \<Longrightarrow> y AND s = y \<Longrightarrow> y AND x = y"
proof -
  assume "x AND s = s" "y AND s = y"
  then have "y AND x = y AND (x AND s)" by (metis and.assoc and.commute)
  then show ?thesis using \<open>x AND s = s\<close> \<open>y AND s = y\<close> by simp
qed

text \<open>A thread that is not satisfied stays so when bits are cleared.\<close>

lemma satisfied_mono:
  assumes "satisfied t e'" "event_set e' t = event_set e t" "event_info e' t = event_info e t"
    "ev_set e AND ev_set e' = ev_set e'"
  shows "satisfied t e"
  using assms and_mono_zero [OF assms(4)] and_mono_eq [OF assms(4)]
  by (auto simp: satisfied_def send_check_def split: if_splits)

lemma clear_sub: "(s :: 'a :: len word) AND (s AND NOT r) = s AND NOT r"
  by (simp flip: and.assoc)

lemma send_walk_spec:
  "distinct ts \<Longrightarrow> send_walk ts e = (w, e') \<Longrightarrow>
     set w \<subseteq> set ts \<and> event_info e' = event_info e \<and> ev_flag e' = ev_flag e \<and> ev_set e AND ev_set e' = ev_set e' \<and>
     (\<forall>u. u \<notin> set w \<longrightarrow> event_set e' u = event_set e u) \<and>
     (\<forall>u \<in> set ts - set w. \<not> satisfied u e') \<and> ev_waiting e' = fold remove1 w (ev_waiting e)"
proof (induction ts arbitrary: e w e')
  case (Cons t ts)
  obtain ok e1 where c: "send_check t e = (ok, e1)" by fastforce
  note f = send_check_same [OF c] send_check_other [OF c]
  show ?case
  proof (cases ok)
    case False
    then have e1: "e1 = e" "\<not> satisfied t e" using f c by (auto simp: satisfied_def)
    have w: "send_walk ts e = (w, e')" using Cons.prems(2) c False e1 by simp
    note ih = Cons.IH [OF _ w] and d = Cons.prems(1)
    have "t \<notin> set w" using ih d by auto
    then have "\<not> satisfied t e'" using e1(2) ih d satisfied_mono [of t e' e] by auto
    then show ?thesis using ih d by auto
  next
    case True
    define e2 where "e2 = (if event_info e1 t AND RT_EVENT_FLAG_CLEAR \<noteq> 0
      then e1\<lparr>ev_set := ev_set e1 AND NOT (event_set e1 t)\<rparr> else e1)\<lparr>ev_waiting := remove1 t (ev_waiting e1)\<rparr>"
    obtain w1 where w1: "send_walk ts e2 = (w1, e')" and w: "w = t # w1"
      using Cons.prems(2) c True by (auto simp: e2_def Let_def split: prod.splits if_splits)
    have g: "event_info e2 = event_info e" "ev_flag e2 = ev_flag e" "ev_set e AND ev_set e2 = ev_set e2"
      "ev_waiting e2 = remove1 t (ev_waiting e)" "\<And>u. u \<noteq> t \<Longrightarrow> event_set e2 u = event_set e u"
      using f by (auto simp: e2_def clear_sub)
    note ih = Cons.IH [OF _ w1] and d = Cons.prems(1)
    have "ev_set e AND ev_set e' = ev_set e'" using ih d g(3) by (metis and.assoc distinct.simps(2))
    then show ?thesis using ih d g w by auto
  qed
qed simp

definition consumed :: "nat \<Rightarrow> (tid \<times> u32 \<times> u8) list \<Rightarrow> nat" where
  "consumed n ds = length (filter (\<lambda>(t, r, i). i AND RT_EVENT_FLAG_CLEAR \<noteq> 0 \<and> bit r n) ds)"

lemma consumed_simps [simp]:
  "consumed n [] = 0" "consumed n (xs @ ys) = consumed n xs + consumed n ys"
  "consumed n ((t, r, i) # ds) = of_bool (i AND RT_EVENT_FLAG_CLEAR \<noteq> 0 \<and> bit r n) + consumed n ds"
  by (auto simp: consumed_def)

lemma deliveries_Cons: "deliveries e (t # w) = (t, event_set e t, event_info e t) # deliveries e w"
  by (simp add: deliveries_def)

lemma send_check_bits:
  assumes "send_check t e = (True, e1)"
  shows "bit (event_set e1 t) n \<Longrightarrow> bit (ev_set e) n"
    and "waiter_ok e t \<Longrightarrow> event_set e1 t \<noteq> 0"
proof -
  show "bit (event_set e1 t) n \<Longrightarrow> bit (ev_set e) n"
    using assms by (auto simp: send_check_def bit_and_iff split: if_splits) (metis bit_and_iff)
  show "waiter_ok e t \<Longrightarrow> event_set e1 t \<noteq> 0"
    using assms by (auto simp: send_check_def waiter_ok_def split: if_splits)
qed

text \<open>The walk delivers a bit to at most one thread that clears it, and only if it is set.\<close>

lemma send_walk_bits:
  "distinct ts \<Longrightarrow> send_walk ts e = (w, e') \<Longrightarrow>
     consumed n (deliveries e' w) + of_bool (bit (ev_set e') n) \<le> of_bool (bit (ev_set e) n)"
proof (induction ts arbitrary: e w e')
  case (Cons t ts)
  obtain ok e1 where c: "send_check t e = (ok, e1)" by fastforce
  note f = send_check_same [OF c] send_check_other [OF c]
  show ?case
  proof (cases ok)
    case False
    then show ?thesis using Cons c f by simp
  next
    case True
    define e2 where "e2 = (if event_info e1 t AND RT_EVENT_FLAG_CLEAR \<noteq> 0
      then e1\<lparr>ev_set := ev_set e1 AND NOT (event_set e1 t)\<rparr> else e1)\<lparr>ev_waiting := remove1 t (ev_waiting e1)\<rparr>"
    obtain w1 where w1: "send_walk ts e2 = (w1, e')" and w: "w = t # w1"
      using Cons.prems(2) c True by (auto simp: e2_def Let_def split: prod.splits if_splits)
    have d: "distinct ts" "t \<notin> set ts" using Cons.prems(1) by simp_all
    have "t \<notin> set w1" using send_walk_spec [OF d(1) w1] d(2) by auto
    then have t: "event_set e' t = event_set e1 t" "event_info e' t = event_info e1 t"
      using send_walk_spec [OF d(1) w1] f by (auto simp: e2_def)
    have b: "bit (event_set e1 t) n \<Longrightarrow> bit (ev_set e) n" using send_check_bits(1) [of t e e1 n] c True by simp
    have "of_bool (event_info e1 t AND RT_EVENT_FLAG_CLEAR \<noteq> 0 \<and> bit (event_set e1 t) n) + of_bool (bit (ev_set e2) n)
        \<le> (of_bool (bit (ev_set e) n) :: nat)"
      using b f by (auto simp: e2_def bit_and_iff bit_not_iff)
    then show ?thesis using Cons.IH [OF d(1) w1] t w by (simp add: deliveries_Cons)
  qed
qed (simp add: deliveries_def)

section \<open>The invariant\<close>

definition ev_inv :: "ev_sys \<Rightarrow> bool" where
  "ev_inv s \<longleftrightarrow> distinct (ev_waiting (ev s)) \<and>
     (\<forall>t \<in> set (ev_waiting (ev s)). waiter_ok (ev s) t \<and> \<not> satisfied t (ev s)) \<and>
     (\<forall>n. consumed n (got s) + of_bool (bit (ev_set (ev s)) n) \<le> length (filter (\<lambda>b. bit b n) (sent s))) \<and>
     (\<forall>(t, r, i) \<in> set (got s). r \<noteq> 0)"

lemma ev_start_inv: "ev_inv (ev_start flag es ei)"
  by (simp add: ev_inv_def ev_start_def rt_event_init_def)

lemma fold_remove1_distinct: "distinct xs \<Longrightarrow> fold remove1 ws xs = filter (\<lambda>x. x \<notin> set ws) xs"
proof (induction ws arbitrary: xs)
  case (Cons w ws)
  then show ?case by (simp add: distinct_remove1_removeAll removeAll_filter_not_eq) (metis (mono_tags, lifting))
qed simp

lemma send_walk_got:
  "distinct ts \<Longrightarrow> \<forall>t \<in> set ts. waiter_ok e t \<Longrightarrow> send_walk ts e = (w, e') \<Longrightarrow> u \<in> set w \<Longrightarrow> event_set e' u \<noteq> 0"
proof (induction ts arbitrary: e w)
  case (Cons t ts)
  obtain ok e1 where c: "send_check t e = (ok, e1)" by fastforce
  note f = send_check_same [OF c] send_check_other [OF c]
  have ok1: "\<forall>u \<in> set ts. waiter_ok e1 u"
    using Cons.prems f by (auto simp: waiter_ok_def) (metis+)
  show ?case
  proof (cases ok)
    case False
    then have "send_walk ts e = (w, e')" using Cons.prems(3) c f by simp
    then show ?thesis using Cons.IH [of e w] Cons.prems by simp
  next
    case True
    define e2 where "e2 = (if event_info e1 t AND RT_EVENT_FLAG_CLEAR \<noteq> 0
      then e1\<lparr>ev_set := ev_set e1 AND NOT (event_set e1 t)\<rparr> else e1)\<lparr>ev_waiting := remove1 t (ev_waiting e1)\<rparr>"
    obtain w1 where w1: "send_walk ts e2 = (w1, e')" and w: "w = t # w1"
      using Cons.prems(3) c True by (auto simp: e2_def Let_def split: prod.splits if_splits)
    have d: "distinct ts" "t \<notin> set ts" using Cons.prems(1) by simp_all
    have ok2: "\<forall>u \<in> set ts. waiter_ok e2 u" using ok1 by (simp add: e2_def waiter_ok_def)
    have "t \<notin> set w1" using send_walk_spec [OF d(1) w1] d(2) by auto
    then have "event_set e' t = event_set e1 t" using send_walk_spec [OF d(1) w1] by (auto simp: e2_def)
    moreover have "event_set e1 t \<noteq> 0" using send_check_bits(2) [of t e e1] c True Cons.prems(2) by simp
    ultimately show ?thesis using Cons.IH [OF d(1) ok2 w1] Cons.prems(4) w by auto
  qed
qed simp

lemma ev_send_inv:
  assumes inv: "ev_inv s" and snd: "rt_event_send (ev s) bits = (True, woken, e)"
  shows "ev_inv (s\<lparr>ev := e, sent := sent s @ [bits], got := got s @ deliveries e woken\<rparr>)"
proof -
  let ?e1 = "(ev s)\<lparr>ev_set := ev_set (ev s) OR bits\<rparr>"
  let ?ws = "ev_waiting (ev s)"
  have w: "send_walk ?ws ?e1 = (woken, e)"
    using snd by (auto simp: rt_event_send_def Let_def split: if_splits prod.splits)
  have d: "distinct ?ws" and ok: "\<forall>t \<in> set ?ws. waiter_ok ?e1 t" using inv by (auto simp: ev_inv_def waiter_ok_def)
  note sp = send_walk_spec [OF d w]
  have ws: "ev_waiting e = filter (\<lambda>t. t \<notin> set woken) ?ws" using sp d by (simp add: fold_remove1_distinct)
  have "waiter_ok e t \<and> \<not> satisfied t e" if "t \<in> set (ev_waiting e)" for t
    using that ws ok sp by (auto simp: waiter_ok_def)
  moreover have "consumed n (got s @ deliveries e woken) + of_bool (bit (ev_set e) n)
      \<le> length (filter (\<lambda>b. bit b n) (sent s @ [bits]))" for n
  proof -
    have "consumed n (got s) + of_bool (bit (ev_set (ev s)) n) \<le> length (filter (\<lambda>b. bit b n) (sent s))"
      using inv by (simp add: ev_inv_def)
    then show ?thesis using send_walk_bits [OF d w, of n] by (auto simp: bit_or_iff split: if_splits)
  qed
  moreover have "\<forall>(t, r, i) \<in> set (got s @ deliveries e woken). r \<noteq> 0"
    using inv send_walk_got [OF d ok w] by (auto simp: ev_inv_def deliveries_def)
  ultimately show ?thesis using ws d by (simp add: ev_inv_def)
qed

lemma counts_step:
  assumes "\<forall>n. consumed n g + of_bool (bit x n) \<le> L n" "\<And>n. consumed n d + of_bool (bit y n) \<le> (of_bool (bit x n) :: nat)"
  shows "\<forall>n. consumed n (g @ d) + of_bool (bit y n) \<le> (L n :: nat)"
proof
  fix n
  show "consumed n (g @ d) + of_bool (bit y n) \<le> L n" using assms(1) [rule_format, of n] assms(2) [of n] by simp
qed

lemma ev_step_inv: "ev_step prio s s' \<Longrightarrow> ev_inv s \<Longrightarrow> ev_inv s'"
proof (erule ev_stepE, goal_cases)
  case (1 bits woken e)
  then show ?case using ev_send_inv by simp
next
  case (2 t bits opt timeout r e)
  then have g: "r = ev_set (ev s) AND bits" "r \<noteq> 0" "bits \<noteq> 0"
    "e = (if opt AND RT_EVENT_FLAG_CLEAR \<noteq> 0 then (ev s)\<lparr>ev_set := ev_set (ev s) AND NOT bits\<rparr> else ev s)"
    by (auto simp: rt_event_recv_def split: if_splits bind_splits)
  have "\<not> satisfied u e" if "\<not> satisfied u (ev s)" for u
    using that satisfied_mono [of u e "ev s"] g by (auto simp: clear_sub split: if_splits)
  moreover have "waiter_ok e u \<longleftrightarrow> waiter_ok (ev s) u" for u using g by (simp add: waiter_ok_def)
  moreover have "\<forall>n. consumed n (got s @ [(t, r, opt)]) + of_bool (bit (ev_set e) n) \<le> length (filter (\<lambda>b. bit b n) (sent s))"
    using \<open>ev_inv s\<close> g by (intro counts_step [of _ "ev_set (ev s)"]) (auto simp: ev_inv_def bit_and_iff bit_not_iff)
  moreover have "ev_waiting e = ev_waiting (ev s)" using g(4) by simp
  ultimately show ?case using 2 g(2) by (simp add: ev_inv_def split_beta)
next
  case (3 t bits opt timeout e)
  then have g: "bits \<noteq> 0" "opt AND RT_EVENT_FLAG_AND \<noteq> 0 \<or> opt AND RT_EVENT_FLAG_OR \<noteq> 0"
    "e = (ev s)\<lparr>event_set := (event_set (ev s))(t := bits), event_info := (event_info (ev s))(t := opt),
          ev_waiting := rt_ipc_list_suspend prio (ev_flag (ev s)) (ev_waiting (ev s)) t\<rparr>"
    by (auto simp: rt_event_recv_def split: if_splits bind_splits)
  moreover have "\<not> satisfied t e"
    using 3 g by (auto simp: rt_event_recv_def satisfied_def send_check_def and.commute split: if_splits bind_splits)
  moreover have "satisfied u e \<longleftrightarrow> satisfied u (ev s)" if "u \<noteq> t" for u
    using that g by (simp add: satisfied_def send_check_def)
  ultimately show ?case using 3 by (auto simp: ev_inv_def waiter_ok_def)
next
  case (4 t)
  then show ?case by (auto simp: ev_inv_def waiter_ok_def satisfied_def send_check_def notin_set_remove1 dest: in_set_remove1 [THEN iffD1, rotated])
next
  case (5 woken e)
  then have "e = (ev s)\<lparr>ev_waiting := [], ev_set := 0\<rparr>" by (auto simp: rt_event_control_def split: if_splits)
  moreover have "\<forall>n. consumed n (got s @ []) + of_bool (bit (0 :: u32) n) \<le> length (filter (\<lambda>b. bit b n) (sent s))"
    using \<open>ev_inv s\<close> by (intro counts_step [of _ "ev_set (ev s)"]) (simp_all add: ev_inv_def)
  ultimately show ?case using 5 by (simp add: ev_inv_def)
qed

lemma ev_reachable: "(ev_step prio)\<^sup>*\<^sup>* (ev_start flag es ei) s \<Longrightarrow> ev_inv s"
  by (induction rule: rtranclp_induct) (use ev_start_inv ev_step_inv in blast)+

section \<open>Properties\<close>

text \<open>
  In every reachable state, for any interleaving of sends, receives,
  timeouts and resets by any threads, sending bits to an event is the same as setting them and
  letting every waiting thread in the order of the list ask again for its bits without waiting; a
  thread that gets them leaves the list with the received bits. So a thread further behind sees
  what those before it have left.
\<close>

theorem event_send_polls:
  assumes "(ev_step prio)\<^sup>*\<^sup>* (ev_start flag es ei) s" "bits \<noteq> 0"
  shows "rt_event_send (ev s) bits =
    (True, fold poll_one (ev_waiting (ev s)) ([], (ev s)\<lparr>ev_set := ev_set (ev s) OR bits\<rparr>))"
proof -
  have "distinct (ev_waiting (ev s))" "\<forall>t \<in> set (ev_waiting (ev s)). waiter_ok ((ev s)\<lparr>ev_set := ev_set (ev s) OR bits\<rparr>) t"
    using ev_reachable [OF assms(1)] by (auto simp: ev_inv_def waiter_ok_def)
  then show ?thesis
    using assms(2) by (simp add: rt_event_send_def Let_def send_walk_polls split_beta)
qed


text \<open>Threads 1, 2 and 3 wait for all of the bits 3 and clear them, for one of 2, for all of 2.\<close>

definition three_wait :: ev_sys where
  "three_wait = \<lparr>ev = \<lparr>ev_set = 0, ev_flag = RT_IPC_FLAG_FIFO, ev_waiting = [1, 2, 3],
     event_set = (\<lambda>_. 0)(1 := 3, 2 := 2, 3 := 2), event_info = (\<lambda>_. 0)(1 := 5, 2 := 6, 3 := 1)\<rparr>, sent = [], got = []\<rparr>"

lemma three_wait_reached: "(ev_step (\<lambda>_. 0))\<^sup>*\<^sup>* (ev_start RT_IPC_FLAG_FIFO (\<lambda>_. 0) (\<lambda>_. 0)) three_wait"
proof -
  let ?R = "ev_step (\<lambda>_. 0)" and ?s0 = "ev_start RT_IPC_FLAG_FIFO (\<lambda>_. 0) (\<lambda>_. 0)"
  let ?e = "\<lambda>ws es ei. \<lparr>ev_set = 0, ev_flag = RT_IPC_FLAG_FIFO, ev_waiting = ws, event_set = es, event_info = ei\<rparr>"
  let ?s1 = "?s0\<lparr>ev := ?e [1] ((\<lambda>_. 0)(1 := 3)) ((\<lambda>_. 0)(1 := 5))\<rparr>"
  let ?s2 = "?s1\<lparr>ev := ?e [1, 2] ((\<lambda>_. 0)(1 := 3, 2 := 2)) ((\<lambda>_. 0)(1 := 5, 2 := 6))\<rparr>"
  have "?R ?s0 ?s1"
    by (rule ev_recv_waits [where t = 1 and bits = 3 and opt = 5 and timeout = 1])
      (simp_all add: rt_event_recv_def ev_start_def rt_event_init_def event_flags rt_ipc_list_suspend_def)
  moreover have "?R ?s1 ?s2"
    by (rule ev_recv_waits [where t = 2 and bits = 2 and opt = 6 and timeout = 1])
      (simp_all add: rt_event_recv_def event_flags rt_ipc_list_suspend_def)
  moreover have "?R ?s2 three_wait"
    using ev_recv_waits [where s = ?s2 and t = 3 and bits = 2 and opt = 1 and timeout = 1 and prio = "\<lambda>_. 0"]
    by (simp add: rt_event_recv_def event_flags rt_ipc_list_suspend_def three_wait_def ev_start_def)
  ultimately show ?thesis by (meson rtranclp.rtrancl_refl rtranclp.rtrancl_into_rtrancl)
qed

theorem event_send_polls_witness:
  "fst (fold poll_one [1, 2, 3] ([], (ev three_wait)\<lparr>ev_set := 3\<rparr>)) = [1] \<and>
   fst (snd (rt_event_send (ev three_wait) 3)) = [1]"
proof -
  have "fst (snd (rt_event_send (ev three_wait) 3)) = [1]" by code_simp
  then show ?thesis using event_send_polls [OF three_wait_reached, of 3] by (simp add: three_wait_def)
qed


end
