(* ===== verification/Ld3320.thy ===== *)
theory Ld3320
  imports Cash_Prelude
begin

text \<open>
  Voice commands (src/drivers/LD3320_main.c and LD3320_WrDat of src/drivers/oled.c): the driver of
  the speech recognition chip LD3320 and the thread that turns recognised phrases into key and mouse
  reports. The chip is a parameter: what reading a register answers, and what reading, writing and
  resetting make of its state. Delays and printed text are left out.
\<close>

section \<open>Register access\<close>

record 'c ld_io =
  ld_rd :: "u8 \<Rightarrow> 'c \<Rightarrow> u8 \<times> 'c"
  ld_wr :: "u8 \<Rightarrow> u8 \<Rightarrow> 'c \<Rightarrow> 'c"
  ld_rst :: "'c \<Rightarrow> 'c"

text \<open>
  LD3320_WrDat: eight rounds, each puts the top bit on the line, shifts and takes in one bit of the
  answer. The result is the bits put on the line and the byte taken in.
\<close>

fun wrdat_rounds :: "bool list \<Rightarrow> u8 \<Rightarrow> bool list \<times> u8" where
  "wrdat_rounds [] dat = ([], dat)"
| "wrdat_rounds (b # bs) dat =
     (let (out, d) = wrdat_rounds bs (push_bit 1 dat OR of_bool b) in (bit dat 7 # out, d))"

definition LD3320_WrDat :: "bool list \<Rightarrow> u8 \<Rightarrow> bool list \<times> u8" where
  "LD3320_WrDat miso dat = wrdat_rounds (take 8 miso) dat"

text \<open>Several register writes in a row.\<close>

definition ld_writes :: "'c ld_io \<Rightarrow> (u8 \<times> u8) list \<Rightarrow> 'c \<Rightarrow> 'c" where
  "ld_writes io ws c = fold (\<lambda>(r, v). ld_wr io r v) ws c"

section \<open>State\<close>

definition LD_MODE_IDLE :: u8 where "LD_MODE_IDLE = 0"
definition LD_MODE_ASR_RUN :: u8 where "LD_MODE_ASR_RUN = 8"
definition LD_MODE_MP3 :: u8 where "LD_MODE_MP3 = 0x40"
definition LD_ASR_NONE :: u8 where "LD_ASR_NONE = 0"
definition LD_ASR_RUNING :: u8 where "LD_ASR_RUNING = 1"
definition LD_ASR_FOUNDOK :: u8 where "LD_ASR_FOUNDOK = 0x10"
definition LD_ASR_FOUNDZERO :: u8 where "LD_ASR_FOUNDZERO = 0x11"
definition LD_ASR_ERROR :: u8 where "LD_ASR_ERROR = 0x31"

lemmas ld_codes = LD_MODE_IDLE_def LD_MODE_ASR_RUN_def LD_MODE_MP3_def LD_ASR_NONE_def LD_ASR_RUNING_def
  LD_ASR_FOUNDOK_def LD_ASR_FOUNDZERO_def LD_ASR_ERROR_def

record 'c ld_st =
  ld_chip :: 'c
  nAsrStatus :: u8
  nAsrRes :: u8
  nLD_Mode :: u8
  ucRegVal :: u8
  ld_mails :: "u8 list list"

section \<open>Starting a recognition\<close>

definition LD_Init_Common :: "'c ld_io \<Rightarrow> 'c ld_st \<Rightarrow> 'c ld_st" where
  "LD_Init_Common io s = (let
     c1 = snd (ld_rd io 0x06 (ld_chip s));
     c2 = snd (ld_rd io 0x06 (ld_wr io 0x17 0x35 c1));
     c3 = ld_writes io [(0x89, 0x03), (0xCF, 0x43), (0xCB, 0x02), (0x11, 14)] c2;
     c4 = ld_writes io (if nLD_Mode s = LD_MODE_MP3
       then [(0x1E, 0x00), (0x19, 0x0f), (0x1B, 0x18), (0x1D, 44)]
       else [(0x1E, 0x00), (0x19, 63), (0x1B, 0x48), (0x1D, 0x1f)]) c3
     in s\<lparr>ld_chip := ld_writes io [(0xCD, 0x04), (0x17, 0x4c), (0xB9, 0x00), (0xCF, 0x4F), (0x6F, 0xFF)] c4\<rparr>)"

definition LD_Init_ASR :: "'c ld_io \<Rightarrow> 'c ld_st \<Rightarrow> 'c ld_st" where
  "LD_Init_ASR io s = (let s1 = LD_Init_Common io (s\<lparr>nLD_Mode := LD_MODE_ASR_RUN\<rparr>) in
     s1\<lparr>ld_chip := ld_writes io [(0xBD, 0x00), (0x17, 0x48), (0x3C, 0x80), (0x3E, 0x07), (0x38, 0xff), (0x3A, 0x07),
       (0x40, 0), (0x42, 8), (0x44, 0), (0x46, 8)] (ld_chip s1)\<rparr>)"

definition LD_AsrStart :: "'c ld_io \<Rightarrow> 'c ld_st \<Rightarrow> 'c ld_st" where
  "LD_AsrStart io s = LD_Init_ASR io s"

text \<open>The chip is polled at most n times until it reports that it is not busy.\<close>

fun poll_b2 :: "'c ld_io \<Rightarrow> nat \<Rightarrow> 'c \<Rightarrow> bool \<times> 'c" where
  "poll_b2 io 0 c = (False, c)"
| "poll_b2 io (Suc n) c = (let (v, c1) = ld_rd io 0xb2 c in if v = 0x21 then (True, c1) else poll_b2 io n c1)"

definition LD_Check_ASRBusyFlag_b2 :: "'c ld_io \<Rightarrow> 'c \<Rightarrow> bool \<times> 'c" where
  "LD_Check_ASRBusyFlag_b2 io c = poll_b2 io 10 c"

definition sRecog :: "string list" where
  "sRecog = [''fan ye'', ''shang ke'', ''kan ni mei'', ''xiao xi'', ''pu run te'', ''bi li'', ''se ba'',
     ''di ya'', ''yi na'', ''ai fu'', ''ji lo'', ''ei chi'', ''ai bi'', ''zhi mi'']"

definition pCode :: "u8 list" where
  "pCode = [1, 2, 3, 4, 5, 6, 7, 8, 9, 10, 11, 12, 13, 14]"

text \<open>The writes for one phrase: its code, its letters, its length, and the command to add it.\<close>

definition phrase_writes :: "u8 \<Rightarrow> string \<Rightarrow> (u8 \<times> u8) list" where
  "phrase_writes code text = [(0xc1, code), (0xc3, 0), (0x08, 0x04), (0x08, 0x00)] @ map (\<lambda>b. (5, b)) (bytes text) @
     [(0xb9, of_nat (length text)), (0xb2, 0xff), (0x37, 0x04)]"

fun add_phrases :: "'c ld_io \<Rightarrow> (u8 \<times> string) list \<Rightarrow> 'c \<Rightarrow> bool \<times> 'c" where
  "add_phrases io [] c = (True, c)"
| "add_phrases io ((code, text) # ps) c =
     (let (ready, c1) = LD_Check_ASRBusyFlag_b2 io c in
      if ready then add_phrases io ps (ld_writes io (phrase_writes code text) c1) else (False, c1))"

definition LD_AsrAddFixed :: "'c ld_io \<Rightarrow> 'c \<Rightarrow> bool \<times> 'c" where
  "LD_AsrAddFixed io c = add_phrases io (zip pCode sRecog) c"

definition LD_AsrRun :: "'c ld_io \<Rightarrow> 'c ld_st \<Rightarrow> bool \<times> 'c ld_st" where
  "LD_AsrRun io s = (let
     c1 = ld_writes io [(0x35, 0x43), (0x1C, 0x09), (0xBD, 0x20), (0x08, 0x01), (0x08, 0x00)] (ld_chip s);
     (ready, c2) = LD_Check_ASRBusyFlag_b2 io c1;
     s1 = s\<lparr>nAsrStatus := LD_ASR_RUNING\<rparr>
     in if ready
        then (True, s1\<lparr>ld_chip := ld_writes io [(0xB2, 0xff), (0x37, 0x06), (0x37, 0x06), (0x1C, 0x0b), (0x29, 0x10), (0xBD, 0x00)] c2\<rparr>)
        else (False, s1\<lparr>ld_chip := c2\<rparr>))"

text \<open>RunASR: at most n attempts, with a reset after each that fails.\<close>

fun run_attempts :: "'c ld_io \<Rightarrow> nat \<Rightarrow> 'c ld_st \<Rightarrow> bool \<times> 'c ld_st" where
  "run_attempts io 0 s = (False, s)"
| "run_attempts io (Suc n) s =
     (let s1 = LD_AsrStart io s; (added, c2) = LD_AsrAddFixed io (ld_chip s1); s2 = s1\<lparr>ld_chip := c2\<rparr> in
      if \<not> added then run_attempts io n (s2\<lparr>ld_chip := ld_rst io c2\<rparr>)
      else let (ok, s3) = LD_AsrRun io s2 in
        if ok then (True, s3) else run_attempts io n (s3\<lparr>ld_chip := ld_rst io (ld_chip s3)\<rparr>))"

definition RunASR :: "'c ld_io \<Rightarrow> 'c ld_st \<Rightarrow> bool \<times> 'c ld_st" where
  "RunASR io s = run_attempts io 5 s"

section \<open>Results\<close>

text \<open>The mails a recognised code sends: key reports with the code 0, mouse records with the code 11.\<close>

definition ld_mouse_mail :: "u8 \<Rightarrow> u8 \<Rightarrow> u8 list" where
  "ld_mouse_mail z0 z1 = [11, 0, 0, 0, 0, 0, 0, z0, z1]"

definition result_mails :: "u8 \<Rightarrow> u8 list list" where
  "result_mails code =
     (if code = 4 then [[0, 1, 0, 0, 0, 0, 0, 0, 0], [0, 3, 0, 0, 0, 0, 0, 0, 0], [0, 3, 0, 38, 0, 0, 0, 0, 0], replicate 9 0]
      else if code = 1 then [ld_mouse_mail 0xFD 0xFF]
      else if code = 2 then [ld_mouse_mail 3 0]
      else if code = 3 then [[0, 8, 0, 0, 0, 0, 0, 0, 0], [0, 8, 0, 7, 0, 0, 0, 0, 0], [0, 8, 0, 0, 0, 0, 0, 0, 0], replicate 9 0]
      else [])"

definition ProcessInt0 :: "'c ld_io \<Rightarrow> 'c ld_st \<Rightarrow> 'c ld_st" where
  "ProcessInt0 io s = (let (v, c1) = ld_rd io 0x2B (ld_chip s); s1 = s\<lparr>ld_chip := c1, ucRegVal := v\<rparr> in
     if nLD_Mode s1 \<noteq> LD_MODE_ASR_RUN then s1
     else let c2 = ld_writes io [(0x29, 0), (0x02, 0)] c1;
       (found, c5) =
         (if v AND 0x10 = 0 then (False, c2)
          else let (b2, c3) = ld_rd io 0xb2 c2 in
            if b2 \<noteq> 0x21 then (False, c3)
            else let (bf, c4) = ld_rd io 0xbf c3 in
              if bf \<noteq> 0x35 then (False, c4)
              else let (n, c5) = ld_rd io 0xba c4 in (0 < n \<and> n \<le> 4, c5))
       in s1\<lparr>nAsrStatus := (if found then LD_ASR_FOUNDOK else LD_ASR_FOUNDZERO),
         ld_chip := ld_writes io [(0x2b, 0), (0x1C, 0), (0x29, 0), (0x02, 0), (0x2B, 0), (0xBA, 0), (0xBC, 0), (0x08, 1), (0x08, 0)] c5\<rparr>)"

section \<open>The thread\<close>

text \<open>One pass through the switch of LD_loop.\<close>

definition ld_pass :: "'c ld_io \<Rightarrow> 'c ld_st \<Rightarrow> 'c ld_st" where
  "ld_pass io s =
     (if nAsrStatus s = LD_ASR_RUNING \<or> nAsrStatus s = LD_ASR_ERROR then s
      else if nAsrStatus s = LD_ASR_NONE then
        (let (ok, s1) = RunASR io (s\<lparr>nAsrStatus := LD_ASR_RUNING\<rparr>) in
         if ok then s1 else s1\<lparr>nAsrStatus := LD_ASR_ERROR\<rparr>)
      else if nAsrStatus s = LD_ASR_FOUNDOK then
        (let (code, c1) = ld_rd io 0xc5 (ld_chip s) in
         s\<lparr>ld_chip := c1, nAsrRes := code, ld_mails := ld_mails s @ result_mails code, nAsrStatus := LD_ASR_NONE\<rparr>)
      else s\<lparr>nAsrStatus := LD_ASR_NONE\<rparr>)"

text \<open>LD_loop goes on until a recognition runs.\<close>

partial_function (option) LD_loop :: "'c ld_io \<Rightarrow> 'c ld_st \<Rightarrow> 'c ld_st option" where
  "LD_loop io s = (let s1 = ld_pass io s in if nAsrStatus s1 \<noteq> LD_ASR_RUNING then LD_loop io s1 else Some s1)"

definition LD3320_main_Init :: "'c ld_io \<Rightarrow> 'c ld_st \<Rightarrow> 'c ld_st" where
  "LD3320_main_Init io s = s\<lparr>nAsrStatus := LD_ASR_NONE, ld_chip := (ld_rst io ^^ 4) (ld_chip s)\<rparr>"

text \<open>The start of the thread and one interrupt of the chip (the pin has gone low).\<close>

definition ld_thread_start :: "'c ld_io \<Rightarrow> bool \<Rightarrow> 'c ld_st \<Rightarrow> 'c ld_st option" where
  "ld_thread_start io audio s = (if \<not> audio then Some s else LD_loop io (LD3320_main_Init io s))"

definition ld_thread_round :: "'c ld_io \<Rightarrow> 'c ld_st \<Rightarrow> 'c ld_st option" where
  "ld_thread_round io s = LD_loop io (ProcessInt0 io s)"

section \<open>Lemmas\<close>

lemma wrdat_length: "length (fst (wrdat_rounds bs d)) = length bs"
  by (induction bs d rule: wrdat_rounds.induct) (simp_all add: split_beta)

lemma bit_double: "bit (d * 2 :: u8) n \<longleftrightarrow> 0 < n \<and> n < 8 \<and> bit d (n - 1)"
proof -
  have "d * 2 = push_bit 1 d" by simp
  then show ?thesis by (auto simp only: bit_push_bit_iff possible_bit_word) (auto simp: Suc_le_eq)
qed

lemma wrdat_out: "i < length bs \<Longrightarrow> length bs \<le> 8 \<Longrightarrow> fst (wrdat_rounds bs d) ! i = bit d (7 - i)"
proof (induction bs arbitrary: d i)
  case (Cons b bs)
  then show ?case by (cases i) (auto simp: split_beta bit_or_iff bit_double bit_of_bool_iff)
qed simp

lemma wrdat_in:
  "length bs \<le> 8 \<Longrightarrow> n < 8 \<Longrightarrow> bit (snd (wrdat_rounds bs d)) n
    = (if n < length bs then bs ! (length bs - 1 - n) else bit d (n - length bs))"
proof (induction bs arbitrary: d)
  case (Cons b bs)
  then show ?case
    by (auto simp: split_beta bit_or_iff bit_double bit_of_bool_iff nth_Cons' less_Suc_eq)
qed simp

text \<open>The byte goes out with its top bit first, and so does the answer come in.\<close>

lemma LD3320_WrDat_bits:
  assumes "length miso = 8"
  shows "fst (LD3320_WrDat miso d) = map (\<lambda>i. bit d (7 - i)) [0..<8]"
    and "\<forall>n < 8. bit (snd (LD3320_WrDat miso d)) n = miso ! (7 - n)"
proof -
  show "fst (LD3320_WrDat miso d) = map (\<lambda>i. bit d (7 - i)) [0..<8]"
    using assms by (intro nth_equalityI) (simp_all add: LD3320_WrDat_def wrdat_length wrdat_out)
  show "\<forall>n < 8. bit (snd (LD3320_WrDat miso d)) n = miso ! (7 - n)"
    using assms wrdat_in [of miso] by (simp add: LD3320_WrDat_def)
qed

lemma ld_modes [simp]:
  "nAsrStatus (LD_AsrStart io s) = nAsrStatus s" "ld_mails (LD_AsrStart io s) = ld_mails s"
  by (simp_all add: LD_AsrStart_def LD_Init_ASR_def LD_Init_Common_def Let_def)

lemma LD_AsrRun_result:
  "LD_AsrRun io s = (ok, s') \<Longrightarrow> nAsrStatus s' = LD_ASR_RUNING \<and> ld_mails s' = ld_mails s"
  by (auto simp: LD_AsrRun_def Let_def split: prod.splits if_splits)

lemma run_attempts_result:
  "run_attempts io n s = (ok, s') \<Longrightarrow> (ok \<longrightarrow> nAsrStatus s' = LD_ASR_RUNING) \<and> ld_mails s' = ld_mails s"
proof (induction io n s rule: run_attempts.induct)
  case (2 io n s)
  obtain added c2 where a: "LD_AsrAddFixed io (ld_chip (LD_AsrStart io s)) = (added, c2)" by fastforce
  show ?case
  proof (cases added)
    case False
    then show ?thesis using 2(1) [OF refl a [symmetric]] 2(3) a by (simp add: Let_def)
  next
    case True
    obtain ok1 s3 where r: "LD_AsrRun io ((LD_AsrStart io s)\<lparr>ld_chip := c2\<rparr>) = (ok1, s3)" by fastforce
    then have s3: "nAsrStatus s3 = LD_ASR_RUNING" "ld_mails s3 = ld_mails s" using LD_AsrRun_result [OF r] by simp_all
    show ?thesis
    proof (cases ok1)
      case ok: True
      then show ?thesis using 2(3) a True r s3 by (simp add: Let_def)
    next
      case False
      then show ?thesis using 2(2) [OF refl a [symmetric] refl] 2(3) a True r s3 by (simp add: Let_def)
    qed
  qed
qed simp

lemma RunASR_result:
  "RunASR io s = (ok, s') \<Longrightarrow> (ok \<longrightarrow> nAsrStatus s' = LD_ASR_RUNING) \<and> ld_mails s' = ld_mails s"
  unfolding RunASR_def by (rule run_attempts_result)

text \<open>From the error state LD_loop does not return.\<close>

lemma LD_loop_error:
  assumes "LD_loop io s = Some s'"
  shows "nAsrStatus s \<noteq> LD_ASR_ERROR"
  using assms
proof (rule LD_loop.raw_induct [rotated, where P = "\<lambda>io s s'. nAsrStatus s \<noteq> LD_ASR_ERROR"])
  fix loop :: "'a ld_io \<Rightarrow> 'a ld_st \<Rightarrow> 'a ld_st option" and io :: "'a ld_io" and s s' :: "'a ld_st"
  assume IH: "\<And>io s s'. loop io s = Some s' \<Longrightarrow> nAsrStatus s \<noteq> LD_ASR_ERROR"
    and step: "(let s1 = ld_pass io s in if nAsrStatus s1 \<noteq> LD_ASR_RUNING then loop io s1 else Some s1) = Some s'"
  show "nAsrStatus s \<noteq> LD_ASR_ERROR"
  proof
    assume e: "nAsrStatus s = LD_ASR_ERROR"
    then have "ld_pass io s = s" by (simp add: ld_pass_def)
    then have "loop io s = Some s'" using step e by (simp add: ld_codes)
    then show False using IH e by blast
  qed
qed

lemma LD_loop_none:
  assumes "nAsrStatus s = LD_ASR_NONE"
  shows "LD_loop io s = (case RunASR io (s\<lparr>nAsrStatus := LD_ASR_RUNING\<rparr>) of (ok, s2) \<Rightarrow> if ok then Some s2 else None)"
proof -
  obtain ok s2 where r: "RunASR io (s\<lparr>nAsrStatus := LD_ASR_RUNING\<rparr>) = (ok, s2)" by fastforce
  have p: "ld_pass io s = (if ok then s2 else s2\<lparr>nAsrStatus := LD_ASR_ERROR\<rparr>)"
    using assms r by (simp add: ld_pass_def ld_codes)
  show ?thesis
  proof (cases ok)
    case True
    then have "nAsrStatus s2 = LD_ASR_RUNING" using RunASR_result [OF r] by simp
    then show ?thesis using p True r by (subst LD_loop.simps) (simp add: Let_def)
  next
    case False
    have "LD_loop io (s2\<lparr>nAsrStatus := LD_ASR_ERROR\<rparr>) = None"
      using LD_loop_error [of io "s2\<lparr>nAsrStatus := LD_ASR_ERROR\<rparr>"] by (cases "LD_loop io (s2\<lparr>nAsrStatus := LD_ASR_ERROR\<rparr>)") auto
    then show ?thesis using p False r by (subst LD_loop.simps) (simp add: Let_def ld_codes)
  qed
qed

lemma status_none: "nAsrStatus s = LD_ASR_NONE \<Longrightarrow> s\<lparr>nAsrStatus := LD_ASR_NONE\<rparr> = s"
  by (cases s) simp

text \<open>The state in which the next recognition is started.\<close>

definition ld_handled :: "'c ld_io \<Rightarrow> 'c ld_st \<Rightarrow> 'c ld_st" where
  "ld_handled io s = (if nAsrStatus s = LD_ASR_FOUNDOK then
     (let (code, c1) = ld_rd io 0xc5 (ld_chip s) in
      s\<lparr>ld_chip := c1, nAsrRes := code, ld_mails := ld_mails s @ result_mails code, nAsrStatus := LD_ASR_NONE\<rparr>)
   else s\<lparr>nAsrStatus := LD_ASR_NONE\<rparr>)"

lemma handled_none: "nAsrStatus (ld_handled io s) = LD_ASR_NONE"
  by (simp add: ld_handled_def split: prod.split)

lemma LD_loop_spec:
  "LD_loop io s =
     (if nAsrStatus s = LD_ASR_RUNING then Some s
      else if nAsrStatus s = LD_ASR_ERROR then None
      else case RunASR io ((ld_handled io s)\<lparr>nAsrStatus := LD_ASR_RUNING\<rparr>) of (ok, s2) \<Rightarrow> if ok then Some s2 else None)"
proof -
  consider "nAsrStatus s = LD_ASR_RUNING" | "nAsrStatus s = LD_ASR_ERROR" | "nAsrStatus s = LD_ASR_NONE"
    | "nAsrStatus s \<notin> {LD_ASR_RUNING, LD_ASR_ERROR, LD_ASR_NONE}" by blast
  then show ?thesis
  proof cases
    case 1
    then show ?thesis by (subst LD_loop.simps) (simp add: ld_pass_def)
  next
    case 2
    then have "LD_loop io s = None" using LD_loop_error [of io s] by (cases "LD_loop io s") auto
    then show ?thesis using 2 by (simp add: ld_codes)
  next
    case 3
    then have "ld_handled io s = s" using status_none [OF 3] by (simp add: ld_handled_def ld_codes)
    then show ?thesis using LD_loop_none [OF 3] 3 by (simp add: ld_codes)
  next
    case 4
    then have p: "ld_pass io s = ld_handled io s" by (auto simp: ld_pass_def ld_handled_def)
    have "LD_loop io s = LD_loop io (ld_handled io s)"
      using p handled_none [of io s] by (subst LD_loop.simps) (simp add: Let_def ld_codes)
    then show ?thesis using LD_loop_none [OF handled_none] 4 by simp
  qed
qed

lemma ld_init_nop: "nLD_Mode (LD_AsrStart io s) = LD_MODE_ASR_RUN"
  by (simp add: LD_AsrStart_def LD_Init_ASR_def LD_Init_Common_def Let_def)

section \<open>Properties\<close>

text \<open>
  When the voice thread gets through LD_loop. It returns when a
  recognition is running already, and otherwise, outside the error state, exactly when one of the
  five attempts of RunASR to start a recognition succeeds; a result that was found has been
  handled before that. In the error state, which five failed attempts lead to, it loops for ever.
\<close>

theorem ld_loop_returns:
  "LD_loop io s \<noteq> None \<longleftrightarrow> nAsrStatus s = LD_ASR_RUNING \<or>
     (nAsrStatus s \<noteq> LD_ASR_ERROR \<and> fst (RunASR io ((ld_handled io s)\<lparr>nAsrStatus := LD_ASR_RUNING\<rparr>)))"
  unfolding LD_loop_spec by (auto simp: ld_codes split: prod.split)


text \<open>A chip that is always ready and whose registers read as a table says.\<close>

definition table_io :: "(u8 \<Rightarrow> u8) ld_io" where
  "table_io = \<lparr>ld_rd = (\<lambda>r c. (c r, c)), ld_wr = (\<lambda>r v c. c), ld_rst = (\<lambda>c. c)\<rparr>"

definition heard :: "(u8 \<Rightarrow> u8) ld_st" where
  "heard = \<lparr>ld_chip = (\<lambda>r. if r = 0x2B then 0x10 else if r = 0xb2 then 0x21 else if r = 0xbf then 0x35
     else if r = 0xba then 1 else if r = 0xc5 then 2 else 0), nAsrStatus = LD_ASR_RUNING, nAsrRes = 0,
     nLD_Mode = LD_MODE_ASR_RUN, ucRegVal = 0, ld_mails = []\<rparr>"

lemma heard_returns:
  "ld_thread_round table_io heard \<noteq> None"
proof -
  have "fst (RunASR table_io ((ld_handled table_io (ProcessInt0 table_io heard))\<lparr>nAsrStatus := LD_ASR_RUNING\<rparr>))"
    "nAsrStatus (ProcessInt0 table_io heard) \<noteq> LD_ASR_ERROR"
    by code_simp+
  then show ?thesis unfolding ld_thread_round_def LD_loop_spec by (auto split: prod.split)
qed


end
