(* ===== verification/Key_Tables.thy ===== *)
theory Key_Tables
  imports Cash_Prelude
begin

text \<open>
  The constant tables of src/APP/app_interface.c: the usage code of each ASCII character and
  whether it needs shift (ascii2usb, shift_table), the tables KEYBRD_Decode uses in the other
  direction, and the names of the modifier keys. key_string is an array of rows of six characters,
  kept here as the 48 consecutive bytes it is in memory.
\<close>

section \<open>Character tables\<close>

definition ascii2usb :: "u8 list" where
  "ascii2usb =
   [0, 0, 0, 0, 0, 0, 0, 0, 0, 0, 0, 0, 0, 40, 0, 0,
    0, 0, 0, 0, 0, 0, 0, 0, 0, 0, 0, 0, 0, 0, 0, 0,
    44, 46, 0, 0, 0, 0, 0, 0, 0, 0, 0, 0, 54, 0, 55, 0,
    39, 30, 31, 32, 33, 34, 35, 36, 37, 38, 51, 0, 0, 0, 0, 56,
    31, 4, 5, 6, 7, 8, 9, 10, 11, 12, 13, 14, 15, 16, 17, 18,
    19, 20, 21, 22, 23, 24, 25, 26, 27, 28, 29, 0, 0, 0, 0, 0,
    0, 4, 5, 6, 7, 8, 9, 10, 11, 12, 13, 14, 15, 16, 17, 18,
    19, 20, 21, 22, 23, 24, 25, 26, 27, 28, 29, 0, 50, 0, 53, 0]"

definition shift_table :: "u8 list" where
  "shift_table =
   [0, 0, 0, 0, 0, 0, 0, 0, 0, 0, 0, 0, 0, 0, 0, 0,
    0, 0, 0, 0, 0, 0, 0, 0, 0, 0, 0, 0, 0, 0, 0, 0,
    0, 0, 0, 0, 0, 0, 0, 0, 0, 0, 0, 0, 0, 0, 0, 0,
    0, 0, 0, 0, 0, 0, 0, 0, 0, 0, 1, 0, 0, 0, 0, 1,
    1, 1, 1, 1, 1, 1, 1, 1, 1, 1, 1, 1, 1, 1, 1, 1,
    1, 1, 1, 1, 1, 1, 1, 1, 1, 1, 1, 0, 0, 0, 0, 0,
    0, 0, 0, 0, 0, 0, 0, 0, 0, 0, 0, 0, 0, 0, 0, 0,
    0, 0, 0, 0, 0, 0, 0, 0, 0, 0, 0, 0, 1, 0, 1, 0]"

definition HID_KEYBRD_Codes :: "u8 list" where
  "HID_KEYBRD_Codes =
   [0, 0, 0, 0, 31, 50, 48, 33, 19, 34, 35, 36, 24, 37, 38, 39,
    52, 51, 25, 26, 17, 20, 32, 21, 23, 49, 18, 47, 22, 46, 2, 3,
    4, 5, 6, 7, 8, 9, 10, 11, 43, 110, 15, 16, 61, 12, 13, 27,
    28, 29, 42, 40, 41, 1, 53, 54, 55, 30, 112, 113, 114, 115, 116, 117,
    118, 119, 120, 121, 122, 123, 124, 125, 126, 75, 80, 85, 76, 81, 86, 89,
    79, 84, 83, 90, 95, 100, 105, 106, 108, 93, 98, 103, 92, 97, 102, 91,
    96, 101, 99, 104, 45, 129, 0, 0, 0, 0, 0, 0, 0, 0, 0, 0,
    0, 0, 0, 0, 0, 0, 0, 0, 0, 0, 0, 0, 0, 0, 0, 0,
    0, 0, 0, 0, 0, 107, 0, 56, 0, 0, 0, 0, 0, 0, 0, 0,
    0, 0, 0, 0, 0, 0, 0, 0, 0, 0, 0, 0, 0, 0, 0, 0,
    0, 0, 0, 0, 0, 0, 0, 0, 0, 0, 0, 0, 0, 0, 0, 0,
    0, 0, 0, 0, 0, 0, 0, 0, 0, 0, 0, 0, 0, 0, 0, 0,
    0, 0, 0, 0, 0, 0, 0, 0, 0, 0, 0, 0, 0, 0, 0, 0,
    0, 0, 0, 0, 0, 0, 0, 0, 0, 0, 0, 0, 0, 0, 0, 0,
    58, 44, 60, 127, 64, 57, 62, 128]"

definition HID_KEYBRD_Key :: "u8 list" where
  "HID_KEYBRD_Key =
   [0, 96, 49, 50, 51, 52, 53, 54, 55, 56, 57, 48, 45, 61, 0, 13,
    9, 113, 119, 101, 114, 116, 121, 117, 105, 111, 112, 91, 93, 92, 0, 97,
    115, 100, 102, 103, 104, 106, 107, 108, 59, 39, 0, 10, 0, 0, 122, 120,
    99, 118, 98, 110, 109, 44, 46, 47, 0, 0, 0, 0, 0, 32, 0, 0,
    0, 0, 0, 0, 0, 0, 0, 0, 0, 0, 0, 0, 0, 0, 0, 0,
    13, 0, 0, 0, 0, 0, 0, 0, 0, 0, 0, 55, 52, 49, 0, 47,
    56, 53, 50, 48, 42, 57, 54, 51, 46, 45, 43, 0, 10, 0, 0, 0,
    0, 0, 0, 0, 0, 0, 0, 0, 0, 0, 0, 0, 0, 0, 0, 0,
    0, 0]"

definition HID_KEYBRD_ShiftKey :: "u8 list" where
  "HID_KEYBRD_ShiftKey =
   [0, 126, 33, 64, 35, 36, 37, 94, 38, 42, 40, 41, 95, 43, 0, 0,
    0, 81, 87, 69, 82, 84, 89, 85, 73, 79, 80, 123, 125, 124, 0, 65,
    83, 68, 70, 71, 72, 74, 75, 76, 58, 34, 0, 10, 0, 0, 90, 88,
    67, 86, 66, 78, 77, 60, 62, 63, 0, 0, 0, 0, 0, 0, 0, 0,
    0, 0, 0, 0, 0, 0, 0, 0, 0, 0, 0, 0, 0, 0, 0, 0,
    0, 0, 0, 0, 0, 0, 0, 0, 0, 0, 0, 0, 0, 0, 0, 0,
    0, 0, 0, 0, 0, 0, 0, 0, 0, 0, 0, 0, 0, 0, 0, 0,
    0, 0, 0, 0, 0, 0, 0, 0, 0, 0, 0, 0, 0, 0, 0, 0,
    0, 0]"

lemma key_table_lengths [simp]:
  "length ascii2usb = 128" "length shift_table = 128" "length HID_KEYBRD_Codes = 232"
  "length HID_KEYBRD_Key = 130" "length HID_KEYBRD_ShiftKey = 130"
  by (simp_all add: ascii2usb_def shift_table_def HID_KEYBRD_Codes_def HID_KEYBRD_Key_def HID_KEYBRD_ShiftKey_def)

text \<open>
  token2usb on a character (src/APP/ahk_analyser.c): the usage code with bit 8 set when shift is
  needed. Characters from 128 on are outside the tables.
\<close>

definition char2usb :: "nat \<Rightarrow> u16 option" where
  "char2usb c = do { s \<leftarrow> rd shift_table c; a \<leftarrow> rd ascii2usb c; Some (push_bit 8 (ucast s) OR ucast a) }"

text \<open>The character KEYBRD_Decode reports for a newly pressed key (src/APP/app_interface.c).\<close>

definition decode_key :: "bool \<Rightarrow> u8 \<Rightarrow> u8 option" where
  "decode_key shift k = do { code \<leftarrow> rd HID_KEYBRD_Codes (unat k);
     rd (if shift then HID_KEYBRD_ShiftKey else HID_KEYBRD_Key) (unat code) }"

section \<open>Modifier names\<close>

definition key_string :: "u8 list" where
  "key_string = bytes ''lctrl'' @ [0] @ bytes ''lshift'' @ bytes ''lalt'' @ [0, 0] @ bytes ''lgui'' @ [0, 0]
     @ bytes ''rctrl'' @ [0] @ bytes ''rshift'' @ bytes ''ralt'' @ [0, 0] @ bytes ''rgui'' @ [0, 0]"

lemma length_key_string [simp]: "length key_string = 48"
  by (simp add: key_string_def)

fun control_key_scan :: "u8 list \<Rightarrow> nat list \<Rightarrow> int option" where
  "control_key_scan buf [] = Some (-1)"
| "control_key_scan buf (i # is) = do {
     e \<leftarrow> strcmp_eq buf (drop (6 * i) key_string);
     (if e then Some (int i) else control_key_scan buf is) }"

definition control_key_index :: "u8 list \<Rightarrow> int option" where
  "control_key_index buf = control_key_scan buf [0..<8]"

text \<open>What strcmp sees from the start of each row up to the first zero byte.\<close>

definition row_names :: "string list" where
  "row_names = [''lctrl'', ''lshiftlalt'', ''lalt'', ''lgui'', ''rctrl'', ''rshiftralt'', ''ralt'', ''rgui'']"

lemma key_string_row:
  assumes "i < 8"
  shows "\<exists>x. drop (6 * i) key_string = bytes (row_names ! i) @ 0 # x \<and> 0 \<notin> set (bytes (row_names ! i))"
proof -
  have "i \<in> {0, 1, 2, 3, 4, 5, 6, 7}" using assms by auto
  then show ?thesis by (auto simp: key_string_def row_names_def)
qed

text \<open>The position of the first element of xs that equals s, or -1.\<close>

fun first_index :: "'a \<Rightarrow> 'a list \<Rightarrow> nat list \<Rightarrow> int" where
  "first_index s xs [] = -1"
| "first_index s xs (i # is) = (if s = xs ! i then int i else first_index s xs is)"

lemma control_key_scan_spec:
  "0 \<notin> set (bytes s) \<Longrightarrow> set is \<subseteq> {0..<8} \<Longrightarrow>
   control_key_scan (cstring s) is = Some (first_index s row_names is)"
proof (induction "is")
  case (Cons i "is")
  then obtain x where x: "drop (6 * i) key_string = bytes (row_names ! i) @ 0 # x"
    "0 \<notin> set (bytes (row_names ! i))" using key_string_row [of i] by auto
  have "strcmp_eq (cstring s) (drop (6 * i) key_string) = Some (bytes s = bytes (row_names ! i))"
    unfolding x(1) cstring_def using Cons.prems x(2) by (intro strcmp_eq_terminated) auto
  with Cons show ?case by (simp add: bytes_inj)
qed simp

section \<open>Properties\<close>

text \<open>
  Control_key_index finds a modifier name exactly when it is
  one of lctrl, lalt, lgui, rctrl, ralt and rgui. The rows of lshift and rshift are full, so the
  comparison runs into the next row: these two names are not found (-1), and the names that are
  found in their place are lshiftlalt and rshiftralt.
\<close>

theorem control_key_index_names:
  assumes "0 \<notin> set (bytes s)"
  shows "control_key_index (cstring s) = Some
    (if s = ''lctrl'' then 0 else if s = ''lshiftlalt'' then 1 else if s = ''lalt'' then 2
     else if s = ''lgui'' then 3 else if s = ''rctrl'' then 4 else if s = ''rshiftralt'' then 5
     else if s = ''ralt'' then 6 else if s = ''rgui'' then 7 else -1)"
  using control_key_scan_spec [OF assms, of "[0..<8]"]
  by (simp add: control_key_index_def upt_rec numeral_eq_Suc row_names_def)

theorem control_key_index_names_witness:
  "control_key_index (cstring ''lalt'') = Some 2 \<and> control_key_index (cstring ''lshift'') = Some (-1)"
  using control_key_index_names [of "''lalt''"] control_key_index_names [of "''lshift''"] by simp

text \<open>
  The tables of the two directions agree. A character whose usage
  code is not 0 decodes back to itself under the shift state char2usb asks for, except carriage
  return (decoded as newline), the exclamation mark (typed as the key of the equals sign) and the
  vertical bar (typed as a key that decodes to nothing).
\<close>

definition decodes_back :: "nat \<Rightarrow> bool" where
  "decodes_back c = (case char2usb c of None \<Rightarrow> False
     | Some u \<Rightarrow> u AND 255 = 0 \<or> decode_key (bit u 8) (ucast u) = Some (of_nat c))"

lemma decodes_back_all: "filter (\<lambda>c. \<not> decodes_back c) [0..<128] = [13, 33, 124]"
  by code_simp

theorem typed_char_decodes: "c < 128 \<Longrightarrow> decodes_back c \<longleftrightarrow> c \<notin> {13, 33, 124}"
proof -
  assume "c < 128"
  then have "\<not> decodes_back c \<longleftrightarrow> c \<in> set (filter (\<lambda>c. \<not> decodes_back c) [0..<128])" by simp
  then show ?thesis unfolding decodes_back_all by auto
qed

theorem typed_char_decodes_witness: "decodes_back 64 \<and> \<not> decodes_back 33"
  using typed_char_decodes [of 64] typed_char_decodes [of 33] by simp

end
