(* ===== verification/Key_Filter.thy ===== *)
theory Key_Filter
  imports Key_Tables
begin

text \<open>
  The modifier filter of a hotkey (src/APP/app_interface.c and src/APP/ahk_analyser.c): up to eight
  masks, each of which must meet the modifier byte of a keyboard report, which must have no bit
  outside them; and the remapping of the modifier byte by key_changetable.
\<close>

section \<open>Filters\<close>

record ctrl_filter =
  control_filter :: "u8 list"
  control_filter_cnt :: nat
  filter_key :: u8

definition filter_Init :: ctrl_filter where
  "filter_Init = \<lparr>control_filter = replicate 8 0, control_filter_cnt = 0, filter_key = 0\<rparr>"

definition control_key_decode :: "u8 \<Rightarrow> u8" where
  "control_key_decode k =
     (if k = of_char CHR ''#'' then 8 else if k = of_char CHR ''!'' then 4
      else if k = of_char CHR ''^'' then 1 else if k = of_char CHR ''+'' then 2 else 255)"

text \<open>filter_info is the pair of the direction (0 both sides, 1 left, 2 right) and the character.\<close>

definition dir_mask :: "u8 \<Rightarrow> u8 \<Rightarrow> u8" where
  "dir_mask dir v = (if dir = 0 then v OR push_bit 4 v else if dir = 1 then v else push_bit 4 v)"

definition filter_add :: "ctrl_filter \<Rightarrow> u8 \<times> u8 \<Rightarrow> (u8 \<times> ctrl_filter) option" where
  "filter_add f info = do {
     let v = control_key_decode (snd info);
     ms \<leftarrow> (if fst info \<in> {0, 1, 2}
            then wr (control_filter f) (control_filter_cnt f) (dir_mask (fst info) v)
            else Some (control_filter f));
     let f1 = f\<lparr>control_filter := ms\<rparr>;
     Some (if control_filter_cnt f < 7 then (0, f1\<lparr>control_filter_cnt := control_filter_cnt f + 1\<rparr>)
           else (1, f1)) }"

text \<open>1 << control_key_index (string): shifting by the -1 of an unknown name is undefined.\<close>

definition filter_add_string :: "ctrl_filter \<Rightarrow> u8 list \<Rightarrow> (u8 \<times> ctrl_filter) option" where
  "filter_add_string f str = do {
     i \<leftarrow> control_key_index str;
     v \<leftarrow> (if i < 0 then None else Some (push_bit (nat i) 1));
     ms \<leftarrow> wr (control_filter f) (control_filter_cnt f) v;
     let f1 = f\<lparr>control_filter := ms\<rparr>;
     Some (if control_filter_cnt f < 7 then (0, f1\<lparr>control_filter_cnt := control_filter_cnt f + 1\<rparr>)
           else (1, f1)) }"

fun filt_loop :: "u8 list \<Rightarrow> nat list \<Rightarrow> u8 \<Rightarrow> u8 option" where
  "filt_loop ms [] k = Some (if k = 0 then 0 else 1)"
| "filt_loop ms (i # is) k = do {
     m \<leftarrow> rd ms i;
     (if k AND m \<noteq> 0 then filt_loop ms is (k AND NOT m) else Some 1) }"

definition control_key_filt :: "u8 \<Rightarrow> ctrl_filter \<Rightarrow> u8 option" where
  "control_key_filt k f = filt_loop (control_filter f) [0..<control_filter_cnt f] k"

text \<open>The modifier byte after remapping: bit i becomes bit key_changetable[i].\<close>

definition key_process :: "u8 list \<Rightarrow> u8 \<Rightarrow> u8 option" where
  "key_process table k = forM [0..<8] (\<lambda>i r. if bit k i
     then do { t \<leftarrow> rd table i; Some (r OR push_bit (unat t) 1) } else Some r) 0"

section \<open>Filters as sets of masks\<close>

definition masks :: "ctrl_filter \<Rightarrow> u8 list" where
  "masks f = take (control_filter_cnt f) (control_filter f)"

definition filter_wf :: "ctrl_filter \<Rightarrow> bool" where
  "filter_wf f \<longleftrightarrow> length (control_filter f) = 8 \<and> control_filter_cnt f \<le> 7"

text \<open>The same loop over the masks themselves.\<close>

fun filt_masks :: "u8 list \<Rightarrow> u8 \<Rightarrow> bool" where
  "filt_masks [] k = (k = 0)"
| "filt_masks (m # ms) k = (k AND m \<noteq> 0 \<and> filt_masks ms (k AND NOT m))"

lemma filt_loop_masks:
  "n \<le> length ms \<Longrightarrow> filt_loop ms [i..<n] k = Some (if filt_masks (drop i (take n ms)) k then 0 else 1)"
proof (induction "n - i" arbitrary: i k)
  case 0
  then show ?case by simp
next
  case (Suc d)
  then have i: "i < n" by simp
  then have "drop i (take n ms) = ms ! i # drop (Suc i) (take n ms)"
    using Suc.prems by (metis Cons_nth_drop_Suc length_take min.absorb2 nth_take)
  moreover have "filt_loop ms [Suc i..<n] k' = Some (if filt_masks (drop (Suc i) (take n ms)) k' then 0 else 1)" for k'
    using Suc.hyps(1) [of "Suc i"] Suc.hyps(2) Suc.prems by simp
  ultimately show ?case using i Suc.prems by (simp add: upt_conv_Cons)
qed

lemma control_key_filt_masks:
  "filter_wf f \<Longrightarrow> control_key_filt k f = Some (if filt_masks (masks f) k then 0 else 1)"
  using filt_loop_masks [of "control_filter_cnt f" "control_filter f" 0 k]
  by (simp add: control_key_filt_def filter_wf_def masks_def)

fun disjoint_masks :: "u8 list \<Rightarrow> bool" where
  "disjoint_masks [] = True"
| "disjoint_masks (m # ms) = ((\<forall>x \<in> set ms. x AND m = 0) \<and> disjoint_masks ms)"

lemma and_not_disjoint: "(x :: u8) AND m = 0 \<Longrightarrow> (k AND NOT m) AND x = k AND x"
  by (rule bit_eqI) (auto simp: bit_and_iff bit_not_iff bit_eq_iff)

definition or_all :: "u8 list \<Rightarrow> u8" where
  "or_all ms = foldr (OR) ms 0"

lemma or_all_simps [simp]: "or_all [] = 0" "or_all (m # ms) = m OR or_all ms"
  by (simp_all add: or_all_def)

text \<open>The order of disjoint masks does not matter: each must be met, and they must cover the key.\<close>

lemma filt_masks_spec:
  "disjoint_masks ms \<Longrightarrow> filt_masks ms k \<longleftrightarrow> (\<forall>m \<in> set ms. k AND m \<noteq> 0) \<and> k AND NOT (or_all ms) = 0"
proof (induction ms arbitrary: k)
  case Nil
  then show ?case by simp
next
  case (Cons m ms)
  then have d: "\<forall>x \<in> set ms. x AND m = 0" "disjoint_masks ms" by simp_all
  have "(\<forall>x \<in> set ms. (k AND NOT m) AND x \<noteq> 0) \<longleftrightarrow> (\<forall>x \<in> set ms. k AND x \<noteq> 0)"
    using d(1) and_not_disjoint by simp
  then show ?case using Cons.IH [OF d(2), of "k AND NOT m"] by (simp add: and.assoc)
qed

section \<open>Filters built from modifier symbols\<close>

definition mod_symbol :: "u8 \<Rightarrow> bool" where
  "mod_symbol c \<longleftrightarrow> c \<in> {of_char CHR ''#'', of_char CHR ''!'', of_char CHR ''^'', of_char CHR ''+''}"

definition mod_ok :: "u8 \<times> u8 \<Rightarrow> bool" where
  "mod_ok m \<longleftrightarrow> fst m \<in> {0, 1, 2} \<and> mod_symbol (snd m)"

definition mod_mask :: "u8 \<times> u8 \<Rightarrow> u8" where
  "mod_mask m = dir_mask (fst m) (control_key_decode (snd m))"

definition mod_list :: "(u8 \<times> u8) list" where
  "mod_list = List.product [0, 1, 2] (bytes ''#!^+'')"

lemma mod_list_disjoint:
  "\<forall>a \<in> set mod_list. \<forall>b \<in> set mod_list. snd a = snd b \<or> mod_mask a AND mod_mask b = 0"
  by code_simp

lemma mod_masks_disjoint_pair:
  assumes "mod_ok a" "mod_ok b" "snd a \<noteq> snd b"
  shows "mod_mask a AND mod_mask b = 0"
proof -
  have "mod_ok m \<Longrightarrow> m \<in> set mod_list" for m
    by (cases m) (auto simp: mod_ok_def mod_symbol_def mod_list_def)
  with assms mod_list_disjoint show ?thesis by blast
qed

lemma mod_masks_disjoint:
  "\<forall>m \<in> set mods. mod_ok m \<Longrightarrow> distinct (map snd mods) \<Longrightarrow> disjoint_masks (map mod_mask mods)"
proof (induction mods)
  case Nil
  then show ?case by simp
next
  case (Cons m mods)
  have "\<forall>x \<in> set mods. mod_mask x AND mod_mask m = 0"
    using Cons.prems by (auto intro!: mod_masks_disjoint_pair) (metis image_eqI snd_conv)
  with Cons show ?case by simp
qed

text \<open>Adding masks: all eight slots are allocated, seven are counted.\<close>

lemma filter_add_wf:
  assumes "filter_wf f" "fst info \<in> {0, 1, 2}"
  shows "\<exists>c f'. filter_add f info = Some (c, f') \<and> filter_wf f'
    \<and> (control_filter_cnt f < 7 \<longrightarrow> c = 0 \<and> masks f' = masks f @ [mod_mask info]
         \<and> control_filter_cnt f' = control_filter_cnt f + 1)"
  using assms
  by (simp add: filter_add_def filter_wf_def masks_def mod_mask_def Let_def take_Suc_conv_app_nth)

definition filter_of :: "(u8 \<times> u8) list \<Rightarrow> ctrl_filter option" where
  "filter_of mods = forM mods (\<lambda>m f. map_option snd (filter_add f m)) filter_Init"

lemma filter_of_masks:
  assumes "\<forall>m \<in> set mods. fst m \<in> {0, 1, 2}" "length mods \<le> 7"
  shows "\<exists>f. filter_of mods = Some f \<and> filter_wf f \<and> masks f = map mod_mask mods \<and> control_filter_cnt f = length mods"
  using assms
proof (induction mods rule: rev_induct)
  case Nil
  then show ?case by (simp add: filter_of_def filter_wf_def masks_def filter_Init_def)
next
  case (snoc m mods)
  then obtain f where f: "filter_of mods = Some f" "filter_wf f" "masks f = map mod_mask mods"
    "control_filter_cnt f = length mods" by auto
  obtain f' where "filter_add f m = Some (0, f')" "filter_wf f'" "masks f' = masks f @ [mod_mask m]"
    "control_filter_cnt f' = length mods + 1"
    using filter_add_wf [of f m] f snoc.prems by auto
  with f show ?case by (simp add: filter_of_def forM_append)
qed

section \<open>Properties\<close>

text \<open>
  A filter built from the modifiers mods (pairs of a side and
  one of the symbols ^ ! + #, no symbol twice) accepts a modifier byte exactly when, for each of
  them, a key of that modifier on an admitted side is held, and no other modifier key is.
\<close>

theorem hotkey_filter_accepts:
  assumes "\<forall>m \<in> set mods. mod_ok m" "distinct (map snd mods)"
  shows "\<exists>f. filter_of mods = Some f \<and> (\<forall>k. control_key_filt k f = Some 0 \<longleftrightarrow>
     (\<forall>m \<in> set mods. k AND mod_mask m \<noteq> 0) \<and> k AND NOT (or_all (map mod_mask mods)) = 0)"
proof -
  let ?S = "{of_char CHR ''#'', of_char CHR ''!'', of_char CHR ''^'', of_char CHR ''+''} :: u8 set"
  have "set (map snd mods) \<subseteq> ?S" using assms(1) by (auto simp: mod_ok_def mod_symbol_def)
  then have "card (set (map snd mods)) \<le> card ?S" by (intro card_mono) auto
  also have "card ?S \<le> 4"
    using card_length [of "[of_char CHR ''#'', of_char CHR ''!'', of_char CHR ''^'', of_char CHR ''+''] :: u8 list"] by simp
  finally have "length mods \<le> 7" using distinct_card [OF assms(2)] by simp
  then obtain f where f: "filter_of mods = Some f" "filter_wf f" "masks f = map mod_mask mods"
    using filter_of_masks [of mods] assms(1) by (auto simp: mod_ok_def)
  then show ?thesis
    using control_key_filt_masks [OF f(2)] filt_masks_spec [OF mod_masks_disjoint [OF assms]] by auto
qed

theorem hotkey_filter_accepts_witness:
  "\<exists>f. filter_of [(0, of_char CHR ''^''), (1, of_char CHR ''!'')] = Some f
    \<and> control_key_filt 20 f = Some 0 \<and> control_key_filt 22 f \<noteq> Some 0"
proof -
  have "mod_mask (0, of_char CHR ''^'') = 17" "mod_mask (1, of_char CHR ''!'') = 4"
    by (simp_all add: mod_mask_def dir_mask_def control_key_decode_def)
  then show ?thesis
    using hotkey_filter_accepts [of "[(0, of_char CHR ''^''), (1, of_char CHR ''!'')]"]
    by (fastforce simp: mod_ok_def mod_symbol_def)
qed

lemma key_process_fold:
  assumes "length table = 8" "n \<le> 8"
  shows "forM [0..<n] (\<lambda>i r. if bit k i then do { t \<leftarrow> rd table i; Some (r OR push_bit (unat t) 1) } else Some r) 0
    = Some r \<Longrightarrow> bit (r :: u8) j \<longleftrightarrow> j < 8 \<and> (\<exists>i < n. bit (k :: u8) i \<and> unat (table ! i) = j)"
  using assms(2)
proof (induction n arbitrary: r)
  case 0
  then show ?case by simp
next
  case (Suc n)
  obtain x where x: "forM [0..<n] (\<lambda>i r. if bit k i then do { t \<leftarrow> rd table i; Some (r OR push_bit (unat t) 1) } else Some r) 0
      = Some x" and r: "r = (if bit k n then x OR push_bit (unat (table ! n)) 1 else x)"
    using Suc.prems assms(1) by (auto simp: forM_append split: if_splits Option.bind_splits)
  have "bit r j \<longleftrightarrow> bit x j \<or> bit k n \<and> j < 8 \<and> unat (table ! n) = j"
    using r by (auto simp: bit_or_iff bit_push_bit_iff bit_1_iff simp del: push_bit_of_1 dest: bit_imp_le_length)
  then show ?case using Suc.IH [OF x] Suc.prems by (auto simp: less_Suc_eq)
qed

lemma key_process_total: "length table = 8 \<Longrightarrow> \<exists>r. key_process table k = Some r"
proof -
  assume "length table = 8"
  then have "\<exists>r. key_process table k = Some r \<and> True"
    unfolding key_process_def by (intro forM_invariant) auto
  then show ?thesis by simp
qed

text \<open>
  Remapping moves the modifier bits along key_changetable. Bit j of
  the new modifier byte is set exactly when some pressed modifier i has j as its table entry; the
  identity table the program starts with changes nothing.
\<close>

theorem key_process_bits:
  assumes "length table = 8"
  shows "\<exists>r. key_process table k = Some r \<and>
    (\<forall>j. bit r j \<longleftrightarrow> j < 8 \<and> (\<exists>i < 8. bit k i \<and> unat (table ! i) = j))"
proof -
  obtain r where r: "key_process table k = Some r" using key_process_total [OF assms] by blast
  with key_process_fold [OF assms, of 8 k r] show ?thesis
    unfolding key_process_def by (intro exI [of _ r]) simp
qed

theorem key_process_bits_witness:
  "key_process [4, 1, 2, 3, 0, 5, 6, 7] 17 = Some 17 \<and> (\<exists>r. key_process [4, 1, 2, 3, 0, 5, 6, 7] 1 = Some r \<and> bit r 4)"
  using key_process_bits [of "[4, 1, 2, 3, 0, 5, 6, 7]" 1] by (auto simp: key_process_def upt_rec)

end
