(* ===== verification/Hotkey_Pool.thy ===== *)
theory Hotkey_Pool
  imports Key_Filter
begin

text \<open>
  The pool of registered hotkeys (src/APP/app_interface.c): an array of 200 nodes, threaded by
  their next pointers into a free list; the registered hotkeys are reached from cap_use_head by
  following next key_cap_cnt times. Pointers into the array are node numbers, None is RT_NULL. The
  array a string pointer refers to is kept as its content, and the callback is the name of the
  function it points to.
\<close>

section \<open>State\<close>

datatype key_exe_fn = press_string_fn | blue_set_fn | pwd_start_fn | reset_system_fn | lua_send_mail_fn

record cap =
  cap_filter :: ctrl_filter
  key_exe :: key_exe_fn
  cap_next :: "nat option"
  cap_string :: "u16 list"
  string_lenth :: nat
  cap_flag :: u8

definition key_cap_cnt_all :: nat where "key_cap_cnt_all = 200"

record cap_pool =
  key_cap_free :: "cap list"
  cap_use_head :: "nat option"
  cap_free_head :: "nat option"
  key_cap_cnt :: nat

text \<open>The static state before key_cap_Init: the nodes are zero, the free list starts at the first.\<close>

definition cap_zero :: cap where
  "cap_zero = \<lparr>cap_filter = \<lparr>control_filter = replicate 8 0, control_filter_cnt = 0, filter_key = 0\<rparr>,
     key_exe = press_string_fn, cap_next = None, cap_string = [], string_lenth = 0, cap_flag = 0\<rparr>"

definition cap_pool_start :: cap_pool where
  "cap_pool_start = \<lparr>key_cap_free = replicate 200 cap_zero, cap_use_head = None,
     cap_free_head = Some 0, key_cap_cnt = 0\<rparr>"

section \<open>Operations\<close>

definition set_next :: "nat \<Rightarrow> nat option \<Rightarrow> cap_pool \<Rightarrow> cap_pool option" where
  "set_next i p st = do { c \<leftarrow> rd (key_cap_free st) i;
     Some (st\<lparr>key_cap_free := (key_cap_free st)[i := c\<lparr>cap_next := p\<rparr>]\<rparr>) }"

text \<open>
  key_cap_Init links node i to node i + 1 and then clears the next pointer of node
  key_cap_cnt - 1. That index can lie outside the array; the second component lists the indices
  written there, which touch no modelled state.
\<close>

definition key_cap_Init :: "cap_pool \<Rightarrow> (cap_pool \<times> int list) option" where
  "key_cap_Init st = do {
     st1 \<leftarrow> forM [0..<key_cap_cnt_all - 1] (\<lambda>i. set_next i (Some (i + 1))) st;
     let k = int (key_cap_cnt st1) - 1;
     (if 0 \<le> k \<and> k < int key_cap_cnt_all
      then do { st2 \<leftarrow> set_next (nat k) None st1; Some (st2, []) }
      else Some (st1, [k])) }"

text \<open>
  key_cap_add walks to the last registered hotkey with a pointer to a pointer: the address of
  cap_use_head or of the next field of a node.
\<close>

datatype cap_ref = UseHead | NextOf nat

definition deref :: "cap_pool \<Rightarrow> cap_ref \<Rightarrow> nat option" where
  "deref st r = (case r of UseHead \<Rightarrow> cap_use_head st
     | NextOf i \<Rightarrow> if i < length (key_cap_free st) then cap_next (key_cap_free st ! i) else None)"

definition assign :: "cap_pool \<Rightarrow> cap_ref \<Rightarrow> nat option \<Rightarrow> cap_pool option" where
  "assign st r p = (case r of UseHead \<Rightarrow> Some (st\<lparr>cap_use_head := p\<rparr>) | NextOf i \<Rightarrow> set_next i p st)"

definition key_cap_add :: "cap \<Rightarrow> cap_pool \<Rightarrow> cap_pool option" where
  "key_cap_add c st = do {
     free \<leftarrow> cap_free_head st;
     node \<leftarrow> rd (key_cap_free st) free;
     (if cap_next node = None \<or> key_cap_cnt st = key_cap_cnt_all then Some st
      else do {
        let st1 = st\<lparr>cap_free_head := cap_next node,
          key_cap_free := (key_cap_free st)[free := c\<lparr>cap_next := cap_next node\<rparr>]\<rparr>;
        st2 \<leftarrow> (if key_cap_cnt st1 = 0 then Some (st1\<lparr>cap_use_head := Some free\<rparr>)
          else do {
            r \<leftarrow> forM [0..<key_cap_cnt st1] (\<lambda>i r. map_option NextOf (deref st1 r)) UseHead;
            assign st1 r (Some free) });
        Some (st2\<lparr>key_cap_cnt := key_cap_cnt st2 + 1\<rparr>) }) }"

text \<open>The search of key_handle: the nodes in list order, at most key_cap_cnt of them.\<close>

fun find_cap :: "u8 \<Rightarrow> u8 \<Rightarrow> cap_pool \<Rightarrow> nat \<Rightarrow> nat option \<Rightarrow> cap option option" where
  "find_cap ctrl k st 0 p = Some None"
| "find_cap ctrl k st (Suc n) p = do {
     i \<leftarrow> p;
     c \<leftarrow> rd (key_cap_free st) i;
     r \<leftarrow> control_key_filt ctrl (cap_filter c);
     (if r = 0 \<and> k = filter_key (cap_filter c) then Some (Some c)
      else find_cap ctrl k st n (cap_next c)) }"

section \<open>The pool as a list of hotkeys\<close>

definition pool_wf :: "cap_pool \<Rightarrow> bool" where
  "pool_wf st \<longleftrightarrow> length (key_cap_free st) = 200 \<and> key_cap_cnt st \<le> 199 \<and>
     cap_free_head st = Some (key_cap_cnt st) \<and> (0 < key_cap_cnt st \<longrightarrow> cap_use_head st = Some 0) \<and>
     (\<forall>i < 200. cap_next (key_cap_free st ! i) = (if i < 199 then Some (i + 1) else None))"

definition cap_body :: "cap \<Rightarrow> cap" where
  "cap_body c = c\<lparr>cap_next := None\<rparr>"

definition hotkeys :: "cap_pool \<Rightarrow> cap list" where
  "hotkeys st = map cap_body (take (key_cap_cnt st) (key_cap_free st))"

lemma cap_body_simps [simp]:
  "cap_filter (cap_body c) = cap_filter c" "key_exe (cap_body c) = key_exe c"
  "cap_string (cap_body c) = cap_string c" "string_lenth (cap_body c) = string_lenth c"
  "cap_flag (cap_body c) = cap_flag c" "cap_body (c\<lparr>cap_next := p\<rparr>) = cap_body c"
  by (simp_all add: cap_body_def)

lemma link_nodes:
  assumes "n \<le> 199" "length (key_cap_free st) = 200"
  shows "\<exists>st'. forM [0..<n] (\<lambda>i. set_next i (Some (i + 1))) st = Some st' \<and> length (key_cap_free st') = 200 \<and>
     cap_use_head st' = cap_use_head st \<and> cap_free_head st' = cap_free_head st \<and> key_cap_cnt st' = key_cap_cnt st \<and>
     (\<forall>i < 200. cap_next (key_cap_free st' ! i) = (if i < n then Some (i + 1) else cap_next (key_cap_free st ! i)))"
  using assms(1)
proof (induction n)
  case 0
  then show ?case using assms(2) by simp
next
  case (Suc n)
  then show ?case by (force simp: forM_append set_next_def nth_list_update less_Suc_eq)
qed

lemma pool_wf_init: "\<exists>st. key_cap_Init cap_pool_start = Some (st, [-1]) \<and> pool_wf st \<and> hotkeys st = []"
  using link_nodes [of 199 cap_pool_start]
  by (auto simp: key_cap_Init_def key_cap_cnt_all_def cap_pool_start_def cap_zero_def pool_wf_def hotkeys_def Let_def)

lemma walk_use:
  assumes "\<forall>i < k. 0 < k \<longrightarrow> deref st UseHead = Some 0 \<and> (i < k - 1 \<longrightarrow> deref st (NextOf i) = Some (i + 1))" "0 < n" "n \<le> k"
  shows "forM [0..<n] (\<lambda>i r. map_option NextOf (deref st r)) UseHead = Some (NextOf (n - 1))"
  using assms(2,3)
proof (induction n)
  case 0
  then show ?case by simp
next
  case step: (Suc n)
  show ?case
  proof (cases n)
    case 0
    then show ?thesis using assms(1) step.prems by auto
  next
    case (Suc m)
    then have "deref st (NextOf (n - 1)) = Some n" using assms(1) step.prems by auto
    moreover have "forM [0..<n] (\<lambda>i r. map_option NextOf (deref st r)) UseHead = Some (NextOf (n - 1))"
      using step.IH Suc step.prems by simp
    ultimately show ?thesis by (simp add: forM_append)
  qed
qed

lemma key_cap_add_room:
  assumes wf: "pool_wf st" and room: "key_cap_cnt st < 199"
  shows "\<exists>st'. key_cap_add c st = Some st' \<and> pool_wf st' \<and> hotkeys st' = hotkeys st @ [cap_body c]"
proof -
  let ?n = "key_cap_cnt st" let ?a = "(key_cap_free st)[?n := c\<lparr>cap_next := Some (?n + 1)\<rparr>]"
  let ?st1 = "st\<lparr>cap_free_head := Some (?n + 1), key_cap_free := ?a\<rparr>"
  have len: "length (key_cap_free st) = 200" and fr: "cap_free_head st = Some ?n"
    and nx: "\<forall>i < 200. cap_next (key_cap_free st ! i) = (if i < 199 then Some (i + 1) else None)"
    using wf by (simp_all add: pool_wf_def)
  have nx1: "\<forall>i < 200. cap_next (?a ! i) = (if i < 199 then Some (i + 1) else None)"
    using nx len room by (simp add: nth_list_update)
  have add: "key_cap_add c st = do {
      st2 \<leftarrow> (if ?n = 0 then Some (?st1\<lparr>cap_use_head := Some ?n\<rparr>)
        else do { r \<leftarrow> forM [0..<?n] (\<lambda>i r. map_option NextOf (deref ?st1 r)) UseHead; assign ?st1 r (Some ?n) });
      Some (st2\<lparr>key_cap_cnt := key_cap_cnt st2 + 1\<rparr>) }"
    using fr len nx room by (simp add: key_cap_add_def key_cap_cnt_all_def Let_def)
  have tk: "take (Suc ?n) ?a = take ?n (key_cap_free st) @ [c\<lparr>cap_next := Some (?n + 1)\<rparr>]"
    using len room by (simp add: take_Suc_conv_app_nth)
  show ?thesis
  proof (cases "?n = 0")
    case True
    then show ?thesis using add nx1 len room tk by (simp add: pool_wf_def hotkeys_def)
  next
    case False
    have w: "forM [0..<?n] (\<lambda>i r. map_option NextOf (deref ?st1 r)) UseHead = Some (NextOf (?n - 1))"
      using wf nx1 len room False by (intro walk_use [of ?n]) (auto simp: deref_def pool_wf_def)
    have same: "?a[?n - 1 := (?a ! (?n - 1))\<lparr>cap_next := Some ?n\<rparr>] = ?a"
    proof -
      have "cap_next (?a ! (?n - 1)) = Some ?n" using nx room False by simp
      then have "(?a ! (?n - 1))\<lparr>cap_next := Some ?n\<rparr> = ?a ! (?n - 1)" by simp
      then show ?thesis by (metis list_update_id)
    qed
    have "key_cap_add c st = Some (?st1\<lparr>key_cap_cnt := ?n + 1\<rparr>)"
      using False len room same unfolding add w by (simp add: assign_def set_next_def)
    then show ?thesis using wf nx1 len room tk False by (simp add: pool_wf_def hotkeys_def)
  qed
qed

lemma key_cap_add_full: "pool_wf st \<Longrightarrow> key_cap_cnt st = 199 \<Longrightarrow> key_cap_add c st = Some st"
  by (simp add: key_cap_add_def pool_wf_def)

text \<open>The search returns the first hotkey whose filter and key fit.\<close>

definition cap_matches :: "u8 \<Rightarrow> u8 \<Rightarrow> cap \<Rightarrow> bool" where
  "cap_matches ctrl k c \<longleftrightarrow> control_key_filt ctrl (cap_filter c) = Some 0 \<and> k = filter_key (cap_filter c)"

lemma find_cap_from:
  assumes "pool_wf st" "i + n = key_cap_cnt st" "\<forall>c \<in> set (hotkeys st). filter_wf (cap_filter c)"
  shows "map_option (map_option cap_body) (find_cap ctrl k st n (if n = 0 then p else Some i))
    = Some (find (cap_matches ctrl k) (drop i (hotkeys st)))"
  using assms(2)
proof (induction n arbitrary: i p)
  case 0
  then show ?case using assms(1) by (simp add: hotkeys_def)
next
  case (Suc n)
  let ?c = "key_cap_free st ! i"
  have i: "i < key_cap_cnt st" "i < length (key_cap_free st)" "cap_next ?c = Some (i + 1)"
    using assms(1) Suc.prems by (auto simp: pool_wf_def)
  then have d: "drop i (hotkeys st) = cap_body ?c # drop (Suc i) (hotkeys st)"
    by (subst Cons_nth_drop_Suc [symmetric]) (simp_all add: hotkeys_def)
  then have "cap_body ?c \<in> set (hotkeys st)" by (metis in_set_dropD list.set_intros(1))
  then have wf: "filter_wf (cap_filter ?c)" using assms(3) by force
  have "find_cap ctrl k st n (Some (Suc i)) = find_cap ctrl k st n (if n = 0 then Some (Suc i) else Some (Suc i))" by simp
  then show ?case using i d Suc.IH [of "Suc i" "Some (Suc i)"] Suc.prems control_key_filt_masks [OF wf, of ctrl]
    by (auto simp: cap_matches_def)
qed

lemma find_cap_hotkeys:
  assumes "pool_wf st" "\<forall>c \<in> set (hotkeys st). filter_wf (cap_filter c)"
  shows "map_option (map_option cap_body) (find_cap ctrl k st (key_cap_cnt st) (cap_use_head st))
    = Some (find (cap_matches ctrl k) (hotkeys st))"
proof (cases "key_cap_cnt st")
  case 0
  then show ?thesis by (simp add: hotkeys_def)
next
  case (Suc m)
  with assms(1) have "cap_use_head st = Some 0" by (simp add: pool_wf_def)
  with find_cap_from [OF assms(1) _ assms(2), of 0 "key_cap_cnt st" ctrl k] Suc show ?thesis by simp
qed

section \<open>Properties\<close>

text \<open>
  Property C12 (hotkey_pool_refines): after key_cap_Init, registering the hotkeys cs makes the pool
  hold the first 199 of them, in the order of registration; the last node is never used and later
  registrations are dropped silently. No access leaves the array, except that key_cap_Init itself
  writes the next pointer of node -1, before the array.
\<close>

definition add_caps :: "cap list \<Rightarrow> cap_pool \<Rightarrow> cap_pool option" where
  "add_caps cs st = forM cs key_cap_add st"

lemma add_caps_list:
  "pool_wf st \<Longrightarrow> \<exists>st'. add_caps cs st = Some st' \<and> pool_wf st' \<and>
     hotkeys st' = hotkeys st @ map cap_body (take (199 - length (hotkeys st)) cs)"
proof (induction cs arbitrary: st)
  case Nil
  then show ?case by (simp add: add_caps_def)
next
  case (Cons c cs)
  have len: "length (hotkeys st) = key_cap_cnt st" using Cons.prems by (simp add: hotkeys_def pool_wf_def)
  show ?case
  proof (cases "key_cap_cnt st < 199")
    case True
    then obtain st1 where st1: "key_cap_add c st = Some st1" "pool_wf st1" "hotkeys st1 = hotkeys st @ [cap_body c]"
      using key_cap_add_room [OF Cons.prems] by blast
    have "199 - length (hotkeys st) = Suc (199 - length (hotkeys st1))" using True len st1(3) by simp
    with Cons.IH [OF st1(2)] st1 show ?thesis by (auto simp: add_caps_def)
  next
    case False
    then have "key_cap_cnt st = 199" using Cons.prems by (simp add: pool_wf_def)
    with Cons.IH [OF Cons.prems] key_cap_add_full [OF Cons.prems] len show ?thesis by (simp add: add_caps_def)
  qed
qed

theorem hotkey_pool_refines:
  "\<exists>st0 st. key_cap_Init cap_pool_start = Some (st0, [-1]) \<and> add_caps cs st0 = Some st \<and> pool_wf st \<and>
     hotkeys st = map cap_body (take 199 cs)"
proof -
  obtain st0 where st0: "key_cap_Init cap_pool_start = Some (st0, [-1])" "pool_wf st0" "hotkeys st0 = []"
    using pool_wf_init by blast
  with add_caps_list [OF st0(2), of cs] show ?thesis by auto
qed

text \<open>
  In any well-formed pool the search of key_handle stays inside
  the array and returns the hotkey that was registered first among those whose filter accepts the
  modifier byte and whose key is the pressed one, and nothing when there is none.
\<close>

theorem first_hotkey_wins:
  assumes "pool_wf st" "\<forall>c \<in> set (hotkeys st). filter_wf (cap_filter c)"
  shows "map_option (map_option cap_body) (find_cap ctrl k st (key_cap_cnt st) (cap_use_head st))
    = Some (find (cap_matches ctrl k) (hotkeys st))"
  by (rule find_cap_hotkeys [OF assms])

theorem first_hotkey_wins_witness:
  "\<exists>st c. pool_wf st \<and> hotkeys st = [c] \<and>
     map_option (map_option cap_body) (find_cap 0 0 st (key_cap_cnt st) (cap_use_head st)) = Some (Some c)"
proof -
  obtain st0 st where st: "add_caps [cap_zero] st0 = Some st" "pool_wf st" "hotkeys st = [cap_body cap_zero]"
    using pool_wf_init add_caps_list [of _ "[cap_zero]"] by fastforce
  moreover have "\<forall>c \<in> set (hotkeys st). filter_wf (cap_filter c)"
    using st by (simp add: cap_zero_def filter_wf_def)
  moreover have "cap_matches 0 0 (cap_body cap_zero)"
    by (simp add: cap_matches_def cap_zero_def control_key_filt_def)
  ultimately show ?thesis using first_hotkey_wins [of st 0 0] by (intro exI [of _ st] exI [of _ "cap_body cap_zero"]) simp
qed

end
