(* ===== verification/Press_String.thy ===== *)
theory Press_String
  imports Key_Tables
begin

text \<open>
  Typing a string (press_string_pure and buf_clear of src/APP/app_interface.c) and the decoder of
  keyboard reports (KEYBRD_Decode of the same file). A string is a list of 16-bit codes: the usage
  code in the low byte, bit 8 for shift, bit 9 to press and bit 10 to release the modifier bits of
  the low byte. Each press sends the nine bytes buf_out + 1: an eight-byte report and the flag 1.
\<close>

section \<open>The output buffer\<close>

record out_st =
  buf_out :: "u8 list"
  sm_sent :: "u8 list list"

definition press :: "out_st \<Rightarrow> out_st option" where
  "press st = do { b \<leftarrow> wr (buf_out st) 9 1;
     Some (st\<lparr>buf_out := b, sm_sent := sm_sent st @ [take 9 (drop 1 b)]\<rparr>) }"

definition put_out :: "nat \<Rightarrow> u8 \<Rightarrow> out_st \<Rightarrow> out_st option" where
  "put_out i v st = do { b \<leftarrow> wr (buf_out st) i v; Some (st\<lparr>buf_out := b\<rparr>) }"

definition buf_clear :: "out_st \<Rightarrow> out_st option" where
  "buf_clear st = do {
     st1 \<leftarrow> forM [2..<9] (\<lambda>i. put_out i 0) st;
     st2 \<leftarrow> put_out 0 6 st1;
     press st2 }"

section \<open>press_string_pure\<close>

definition press_key :: "u16 \<Rightarrow> u8 \<times> out_st \<Rightarrow> (u8 \<times> out_st) option" where
  "press_key c s = (case s of (ctrl, st) \<Rightarrow>
     if bit c 9 then do {
       let ctrl' = ctrl OR ucast c;
       st1 \<leftarrow> put_out 1 ctrl' st; st2 \<leftarrow> press st1; Some (ctrl', st2) }
     else if bit c 10 then do {
       let ctrl' = ctrl AND ucast (NOT c);
       st1 \<leftarrow> put_out 1 ctrl' st; st2 \<leftarrow> press st1; Some (ctrl', st2) }
     else if bit c 8 then do {
       st1 \<leftarrow> put_out 1 2 st; st2 \<leftarrow> put_out 3 (ucast c) st1; st3 \<leftarrow> press st2;
       st4 \<leftarrow> put_out 1 0 st3; Some (ctrl, st4) }
     else do {
       st1 \<leftarrow> put_out 3 (ucast c) st; st2 \<leftarrow> put_out 1 ctrl st1; st3 \<leftarrow> press st2; Some (ctrl, st3) })"

text \<open>lenth elements of the array buf are read; the keys are released after each but the last.\<close>

definition press_string_pure :: "u16 list \<Rightarrow> nat \<Rightarrow> out_st \<Rightarrow> out_st option" where
  "press_string_pure buf lenth st = do {
     st1 \<leftarrow> buf_clear st;
     st2 \<leftarrow> put_out 1 0 st1;
     (_, st3) \<leftarrow> forM [0..<lenth] (\<lambda>i s. do {
         c \<leftarrow> rd buf i;
         (ctrl, t) \<leftarrow> press_key c s;
         (if i \<noteq> lenth - 1 then do { t' \<leftarrow> buf_clear t; Some (ctrl, t') } else Some (ctrl, t)) }) (0, st2);
     Some st3 }"

section \<open>KEYBRD_Decode\<close>

record kbd_st =
  keys_last :: "u8 list"
  nbr_keys_last :: nat
  keys :: "u8 list"

definition kbd_start :: kbd_st where
  "kbd_start = \<lparr>keys_last = replicate 6 0, nbr_keys_last = 0, keys = replicate 6 0\<rparr>"

text \<open>
  One report: the answer is the characters sent to the waiting program. keys keeps its old
  elements behind the number of pressed keys; keys_new is filled from its start in every call.
\<close>

definition KEYBRD_Decode :: "u8 list \<Rightarrow> kbd_st \<Rightarrow> (u8 list \<times> kbd_st) option" where
  "KEYBRD_Decode pbuf st = do {
     m \<leftarrow> rd pbuf 0;
     let shift = (m = 2 \<or> m = 32);
     err \<leftarrow> forM [2..<8] (\<lambda>ix e. do { k \<leftarrow> rd pbuf ix; Some (e \<or> k = 1 \<or> k = 2 \<or> k = 3) }) False;
     (if err then Some ([], st)
      else do {
        (ks, n, new) \<leftarrow> forM [2..<8] (\<lambda>ix (ks, n, new). do {
            k \<leftarrow> rd pbuf ix;
            (if k \<noteq> 0 then do {
               ks' \<leftarrow> wr ks n k;
               Some (ks', n + 1, if k \<in> set (take (nbr_keys_last st) (keys_last st)) then new else new @ [k]) }
             else Some (ks, n, new)) }) (keys st, 0, []);
        out \<leftarrow> forM new (\<lambda>k out. do { c \<leftarrow> decode_key shift k; Some (out @ [c]) }) [];
        Some (out, \<lparr>keys_last = ks, nbr_keys_last = n, keys = ks\<rparr>) }) }"

fun decode_reports :: "u8 list list \<Rightarrow> kbd_st \<Rightarrow> (u8 list \<times> kbd_st) option" where
  "decode_reports [] st = Some ([], st)"
| "decode_reports (r # rs) st = do {
     (o1, st1) \<leftarrow> KEYBRD_Decode r st; (o2, st2) \<leftarrow> decode_reports rs st1; Some (o1 @ o2, st2) }"

section \<open>The reports of a string\<close>

definition report :: "u8 \<Rightarrow> u8 \<Rightarrow> u8 list" where
  "report m k = [m, 0, k, 0, 0, 0, 0, 0, 1]"

text \<open>The buffer between two keys: six, the modifiers, no key, the flag.\<close>

definition out_clear :: "u8 \<Rightarrow> u8 list" where
  "out_clear m = [6, m, 0, 0, 0, 0, 0, 0, 0, 1]"

lemma buf_clear_out:
  assumes "length (buf_out st) = 10"
  shows "buf_clear st = Some (st\<lparr>buf_out := out_clear (buf_out st ! 1),
    sm_sent := sm_sent st @ [report (buf_out st ! 1) 0]\<rparr>)"
proof -
  have "\<exists>b0 b1 b2 b3 b4 b5 b6 b7 b8 b9. buf_out st = [b0, b1, b2, b3, b4, b5, b6, b7, b8, b9]"
    using assms by (simp add: length_Suc_conv eval_nat_numeral) blast
  then show ?thesis
    by (elim exE) (simp add: buf_clear_def put_out_def press_def out_clear_def report_def upt_rec eval_nat_numeral)
qed

text \<open>
  A plain code (none of bits 9 and 10) pressed with no modifier held: one report, with shift when
  bit 8 is set.
\<close>

definition plain_code :: "u16 \<Rightarrow> bool" where
  "plain_code c \<longleftrightarrow> \<not> bit c 9 \<and> \<not> bit c 10"

definition shift_of :: "u16 \<Rightarrow> u8" where
  "shift_of c = (if bit c 8 then 2 else 0)"

definition out_key :: "u8 \<Rightarrow> u8 list" where
  "out_key k = [6, 0, 0, k, 0, 0, 0, 0, 0, 1]"

lemma press_key_plain:
  assumes "buf_out st = out_clear 0" "plain_code c"
  shows "press_key c (0, st) = Some (0, st\<lparr>buf_out := out_key (ucast c),
    sm_sent := sm_sent st @ [report (shift_of c) (ucast c)]\<rparr>)"
  using assms by (simp add: press_key_def plain_code_def put_out_def press_def out_clear_def report_def
      shift_of_def out_key_def eval_nat_numeral)

fun type_reports :: "u16 list \<Rightarrow> u8 list list" where
  "type_reports [] = []"
| "type_reports [c] = [report (shift_of c) (ucast c)]"
| "type_reports (c # d # cs) = [report (shift_of c) (ucast c), report 0 0] @ type_reports (d # cs)"

lemma buf_clear_key:
  "buf_out st = out_key k \<Longrightarrow> buf_clear st = Some (st\<lparr>buf_out := out_clear 0, sm_sent := sm_sent st @ [report 0 0]\<rparr>)"
  by (subst buf_clear_out) (simp_all add: out_key_def)

text \<open>The loop from position i on, over what is left of the string.\<close>

definition press_body :: "u16 list \<Rightarrow> nat \<Rightarrow> nat \<Rightarrow> u8 \<times> out_st \<Rightarrow> (u8 \<times> out_st) option" where
  "press_body buf lenth i s = do {
         c \<leftarrow> rd buf i;
         (ctrl, t) \<leftarrow> press_key c s;
         (if i \<noteq> lenth - 1 then do { t' \<leftarrow> buf_clear t; Some (ctrl, t') } else Some (ctrl, t)) }"

lemma press_loop:
  assumes "\<forall>c \<in> set buf. plain_code c" "i \<le> length buf" "buf_out st = out_clear 0"
  shows "\<exists>b. forM [i..<length buf] (press_body buf (length buf)) (0, st)
    = Some (0, st\<lparr>buf_out := b, sm_sent := sm_sent st @ type_reports (drop i buf)\<rparr>)"
  using assms(2,3)
proof (induction "length buf - i" arbitrary: i st)
  case 0
  then show ?case by (intro exI [of _ "buf_out st"]) simp
next
  case (Suc d)
  then have i: "i < length buf" by simp
  let ?c = "buf ! i"
  let ?st1 = "st\<lparr>buf_out := out_key (ucast ?c), sm_sent := sm_sent st @ [report (shift_of ?c) (ucast ?c)]\<rparr>"
  have k: "press_key ?c (0, st) = Some (0, ?st1)"
    using press_key_plain [OF Suc.prems(2), of ?c] assms(1) i by simp
  have d1: "drop i buf = ?c # drop (Suc i) buf" using i by (simp add: Cons_nth_drop_Suc)
  show ?case
  proof (cases "Suc i = length buf")
    case True
    then have "press_body buf (length buf) i (0, st) = Some (0, ?st1)" using k i by (auto simp: press_body_def)
    then show ?thesis using True d1
      by (intro exI [of _ "out_key (ucast ?c)"]) (simp add: upt_conv_Cons i)
  next
    case False
    let ?st2 = "?st1\<lparr>buf_out := out_clear 0, sm_sent := sm_sent ?st1 @ [report 0 0]\<rparr>"
    have "buf_clear ?st1 = Some ?st2" using buf_clear_key [of ?st1 "ucast ?c"] by simp
    then have b: "press_body buf (length buf) i (0, st) = Some (0, ?st2)"
      using k i False by (simp add: press_body_def)
    have "\<exists>b. forM [Suc i..<length buf] (press_body buf (length buf)) (0, ?st2)
        = Some (0, ?st2\<lparr>buf_out := b, sm_sent := sm_sent ?st2 @ type_reports (drop (Suc i) buf)\<rparr>)"
      using Suc.hyps(2) i by (intro Suc.hyps(1)) auto
    moreover obtain e es where "drop (Suc i) buf = e # es"
      using False i by (metis Suc_leI drop_eq_Nil le_antisym list.exhaust)
    ultimately show ?thesis using b d1 by (auto simp: upt_conv_Cons i)
  qed
qed

lemma press_string_reports:
  assumes "\<forall>c \<in> set buf. plain_code c" "length (buf_out st) = 10"
  shows "\<exists>b. press_string_pure buf (length buf) st = Some (st\<lparr>buf_out := b,
     sm_sent := sm_sent st @ report (buf_out st ! 1) 0 # type_reports buf\<rparr>)"
proof -
  let ?st1 = "st\<lparr>sm_sent := sm_sent st @ [report (buf_out st ! 1) 0], buf_out := out_clear 0\<rparr>"
  have "press_string_pure buf (length buf) st
      = do { (_, st3) \<leftarrow> forM [0..<length buf] (press_body buf (length buf)) (0, ?st1); Some st3 }"
    using buf_clear_out [OF assms(2)]
    by (simp add: press_string_pure_def press_body_def [abs_def] put_out_def out_clear_def)
  with press_loop [OF assms(1), of 0 ?st1] show ?thesis by auto
qed

section \<open>Decoding the reports\<close>

definition no_keys :: "kbd_st \<Rightarrow> bool" where
  "no_keys st \<longleftrightarrow> nbr_keys_last st = 0 \<and> length (keys st) = 6"

lemma KEYBRD_Decode_release:
  "length (keys st) = 6 \<Longrightarrow> \<exists>st'. KEYBRD_Decode (report m 0) st = Some ([], st') \<and> no_keys st'"
  by (simp add: KEYBRD_Decode_def report_def no_keys_def)

lemma KEYBRD_Decode_key:
  assumes "no_keys st" "k \<notin> {0, 1, 2, 3}" "decode_key (m = 2 \<or> m = 32) k = Some c"
  shows "\<exists>st'. KEYBRD_Decode (report m k) st = Some ([c], st') \<and> length (keys st') = 6"
  using assms by (simp add: KEYBRD_Decode_def report_def no_keys_def)

text \<open>A code that types the character c.\<close>

definition types_char :: "u16 \<Rightarrow> u8 \<Rightarrow> bool" where
  "types_char u c \<longleftrightarrow> plain_code u \<and> (ucast u :: u8) \<notin> {0, 1, 2, 3} \<and> decode_key (bit u 8) (ucast u) = Some c"

lemma KEYBRD_Decode_types:
  assumes "no_keys st" "types_char u c"
  shows "\<exists>st'. KEYBRD_Decode (report (shift_of u) (ucast u)) st = Some ([c], st') \<and> length (keys st') = 6"
proof -
  have "(shift_of u = 2 \<or> shift_of u = 32) = bit u 8" by (simp add: shift_of_def)
  with assms show ?thesis by (intro KEYBRD_Decode_key) (auto simp: types_char_def)
qed

lemma decode_type_reports:
  "list_all2 types_char us cs \<Longrightarrow> no_keys st \<Longrightarrow>
   \<exists>st'. decode_reports (type_reports us) st = Some (cs, st') \<and> length (keys st') = 6"
proof (induction us arbitrary: cs st rule: type_reports.induct)
  case 1
  then show ?case by (simp add: no_keys_def)
next
  case (2 u)
  then obtain c where "cs = [c]" "types_char u c" by (auto simp: list_all2_Cons1)
  with KEYBRD_Decode_types [OF 2(2)] show ?case by force
next
  case (3 u v us)
  then obtain c cs' where c: "cs = c # cs'" "types_char u c" "list_all2 types_char (v # us) cs'"
    by (auto simp: list_all2_Cons1)
  obtain st1 where 1: "KEYBRD_Decode (report (shift_of u) (ucast u)) st = Some ([c], st1)" "length (keys st1) = 6"
    using KEYBRD_Decode_types [OF 3(3) c(2)] by blast
  obtain st2 where 2: "KEYBRD_Decode (report 0 0) st1 = Some ([], st2)" "no_keys st2"
    using KEYBRD_Decode_release [OF 1(2)] by blast
  from 3(1) [OF c(3) 2(2)] 1 2 c(1) show ?case by auto
qed

text \<open>Every report of keys with a usage code below 232 can be decoded.\<close>

lemma decode_key_all: "list_all (\<lambda>k. decode_key False (of_nat k) \<noteq> None \<and> decode_key True (of_nat k) \<noteq> None) [0..<232]"
  by code_simp

lemma decode_key_total: "unat k < 232 \<Longrightarrow> \<exists>c. decode_key s k = Some c"
  using decode_key_all by (cases s) (force simp: list_all_iff dest: bspec [of _ _ "unat k"])+

lemma KEYBRD_Decode_total:
  assumes buf: "8 \<le> length pbuf" "\<forall>i \<in> {2..<8}. unat (pbuf ! i) < 232" and l: "length (keys st) = 6"
  shows "\<exists>cs st'. KEYBRD_Decode pbuf st = Some (cs, st') \<and> length (keys st') = 6"
proof -
  have "\<exists>e. forM [2..<8] (\<lambda>ix e. do { k \<leftarrow> rd pbuf ix; Some (e \<or> k = 1 \<or> k = 2 \<or> k = 3) }) False = Some e \<and> True"
    using buf by (intro forM_invariant) auto
  then obtain e where e: "forM [2..<8] (\<lambda>ix e. do { k \<leftarrow> rd pbuf ix; Some (e \<or> k = 1 \<or> k = 2 \<or> k = 3) }) False = Some e"
    by blast
  let ?f = "\<lambda>ix (ks, n, new). do { k \<leftarrow> rd pbuf ix;
            (if k \<noteq> 0 then do { ks' \<leftarrow> wr ks n k;
               Some (ks', n + 1, if k \<in> set (take (nbr_keys_last st) (keys_last st)) then new else new @ [k]) }
             else Some (ks, n, new)) }"
  let ?P = "\<lambda>i (ks, n, new). length ks = 6 \<and> n \<le> i - 2 \<and> (\<forall>k \<in> set new. unat k < 232)"
  have "\<exists>t. forM [2..<8] ?f (keys st, 0, []) = Some t \<and> ?P 8 t"
    using buf l by (intro forM_upt_invariant) (auto split: prod.splits)
  then obtain ks n new where f: "forM [2..<8] ?f (keys st, 0, []) = Some (ks, n, new)" "length ks = 6" "\<forall>k \<in> set new. unat k < 232"
    by auto
  have "\<exists>out. forM new (\<lambda>k out. do { c \<leftarrow> decode_key s k; Some (out @ [c]) }) [] = Some out \<and> True" for s
  proof (rule forM_invariant)
    fix k and out :: "u8 list" assume "k \<in> set new"
    then obtain c where "decode_key s k = Some c" using decode_key_total [of k s] f(3) by blast
    then show "\<exists>t. do { c \<leftarrow> decode_key s k; Some (out @ [c]) } = Some t \<and> True" by simp
  qed simp
  then obtain out where "forM new (\<lambda>k out. do { c \<leftarrow> decode_key (pbuf ! 0 = 2 \<or> pbuf ! 0 = 32) k; Some (out @ [c]) }) [] = Some out"
    by blast
  moreover have "0 < length pbuf" using buf(1) by linarith
  ultimately show ?thesis using e f l by (auto simp: KEYBRD_Decode_def Let_def)
qed

section \<open>Properties\<close>

definition typable :: "nat \<Rightarrow> bool" where
  "typable c \<longleftrightarrow> c < 128 \<and> ascii2usb ! c \<noteq> 0 \<and> c \<notin> {13, 33, 124}"

definition typable_ok :: "nat \<Rightarrow> bool" where
  "typable_ok c = (case char2usb c of None \<Rightarrow> False
     | Some u \<Rightarrow> \<not> bit u 9 \<and> \<not> bit u 10 \<and> (ucast u :: u8) \<notin> {0, 1, 2, 3} \<and> decode_key (bit u 8) (ucast u) = Some (of_nat c))"

lemma typable_ok_all: "filter (\<lambda>c. typable c \<and> \<not> typable_ok c) [0..<128] = []"
  by code_simp

lemma typable_types: "typable c \<Longrightarrow> \<exists>u. char2usb c = Some u \<and> types_char u (of_nat c)"
proof -
  assume t: "typable c"
  then have "c \<in> set [0..<128]" by (simp add: typable_def)
  with t typable_ok_all have "typable_ok c" by (metis (mono_tags, lifting) filter_empty_conv)
  then show ?thesis by (auto simp: typable_ok_def types_char_def plain_code_def split: option.splits)
qed

text \<open>
  Property C5 (typed_string_roundtrip): typing a string and decoding the reports gives the string
  back. For every string of typable characters (those with a usage code, except the three of
  typed_char_decodes), press_string_pure, given their codes and started with any buffer content,
  sends reports that KEYBRD_Decode, whatever it saw before, turns into exactly these characters,
  in order, repeated characters and shift included.
\<close>

theorem typed_string_roundtrip:
  assumes "\<forall>c \<in> set s. typable c" "length (buf_out st) = 10" "length (keys kb) = 6"
  shows "\<exists>us st' kb'. map char2usb s = map Some us \<and> press_string_pure us (length us) (st\<lparr>sm_sent := []\<rparr>) = Some st' \<and>
     decode_reports (sm_sent st') kb = Some (map of_nat s, kb')"
proof -
  define us where "us = map (\<lambda>c. the (char2usb c)) s"
  have us: "map char2usb s = map Some us"
    using assms(1) typable_types by (fastforce simp: us_def)
  have l: "list_all2 types_char us (map of_nat s)"
    using assms(1) typable_types by (force simp: us_def list.rel_map intro!: list.rel_refl_strong)
  then have p: "\<forall>c \<in> set us. plain_code c"
    by (auto simp: list_all2_conv_all_nth in_set_conv_nth types_char_def)
  obtain b where b: "press_string_pure us (length us) (st\<lparr>sm_sent := []\<rparr>)
      = Some (st\<lparr>sm_sent := [], buf_out := b, sm_sent := report (buf_out st ! 1) 0 # type_reports us\<rparr>)"
    using press_string_reports [OF p, of "st\<lparr>sm_sent := []\<rparr>"] assms(2) by auto
  obtain kb1 where "KEYBRD_Decode (report (buf_out st ! 1) 0) kb = Some ([], kb1)" "no_keys kb1"
    using KEYBRD_Decode_release [OF assms(3)] by blast
  with decode_type_reports [OF l this(2)] us b show ?thesis by fastforce
qed

theorem typed_string_roundtrip_witness:
  "\<exists>us st' kb'. map char2usb [72, 101, 108, 108, 111] = map Some us \<and>
     press_string_pure us (length us) \<lparr>buf_out = replicate 10 7, sm_sent = []\<rparr> = Some st' \<and>
     decode_reports (sm_sent st') kbd_start = Some ([72, 101, 108, 108, 111], kb')"
  using typed_string_roundtrip [of "[72, 101, 108, 108, 111]" "\<lparr>buf_out = replicate 10 7, sm_sent = []\<rparr>" kbd_start]
  by (simp add: kbd_start_def typable_def ascii2usb_def)

end
