(* ===== verification/Key_Handler.thy ===== *)
theory Key_Handler
  imports Hotkey_Pool Press_String
begin

text \<open>
  The keyboard thread (src/APP/app_interface.c): what happens to one report of the keyboard. A
  report may be recorded as a macro, has its modifiers remapped, may be blocked because it repeats
  the hotkey that just fired, goes to a waiting program, or fires a hotkey. Messages sent to queues
  are listed in the order they are sent; the queues themselves are Rt_MessageQueue.
\<close>

section \<open>State\<close>

datatype app_event =
    ToLua "u8 list"        \<comment> \<open>ten bytes on mq_lua\<close>
  | ToLuaFlag u8           \<comment> \<open>lua_send_mail: nine unset bytes and the event number on mq_lua\<close>
  | ToCommu "u8 list"      \<comment> \<open>nine bytes on mq_commu\<close>
  | ToCommuWrite "u8 list" \<comment> \<open>commu_send: bytes on mq_commu_write\<close>
  | ToApp u8               \<comment> \<open>a character on mb_app\<close>
  | StartPwd               \<comment> \<open>pwd_start creates its mailbox and thread\<close>
  | SystemReset

record app_st =
  pool :: cap_pool
  key_changetable :: "u8 list"
  out :: out_st
  kbd :: kbd_st
  hotkey_flag :: u8
  hotkey_value :: u8
  macro_data :: "u8 list list"
  macro_flag :: bool
  macro_lenth :: nat
  macro_play_flag :: bool
  lua_flag :: u32
  mb_app :: bool
  blue_choose :: u8
  events :: "app_event list"

definition emit :: "app_event list \<Rightarrow> app_st \<Rightarrow> app_st" where
  "emit es st = st\<lparr>events := events st @ es\<rparr>"

section \<open>Macros\<close>

text \<open>macro_record copies ten bytes of the report into row macro_lenth of the five rows.\<close>

definition macro_record :: "u8 list \<Rightarrow> app_st \<Rightarrow> app_st option" where
  "macro_record data st = do {
     d \<leftarrow> forM [0..<10] (\<lambda>i d. do { row \<leftarrow> rd d (macro_lenth st); v \<leftarrow> rd data i;
         row' \<leftarrow> wr row i v; wr d (macro_lenth st) row' }) (macro_data st);
     Some (st\<lparr>macro_data := d, macro_lenth := (macro_lenth st + 1) mod 256\<rparr>) }"

definition macro_set :: "app_st \<Rightarrow> app_st" where
  "macro_set st = (if \<not> macro_flag st then st\<lparr>macro_flag := True, macro_lenth := 0\<rparr>
     else st\<lparr>macro_flag := False, macro_lenth := (macro_lenth st + 255) mod 256\<rparr>)"

definition macro_play_prepare :: "app_st \<Rightarrow> app_st" where
  "macro_play_prepare st = st\<lparr>macro_play_flag := True\<rparr>"

section \<open>The actions of a hotkey\<close>

definition press_string :: "cap \<Rightarrow> app_st \<Rightarrow> app_st option" where
  "press_string c st = do { o' \<leftarrow> press_string_pure (cap_string c) (string_lenth c) (out st); Some (st\<lparr>out := o'\<rparr>) }"

definition blue_set :: "app_st \<Rightarrow> app_st" where
  "blue_set st = emit [ToCommu (10 # replicate 8 0)] (st\<lparr>blue_choose := 1 - blue_choose st\<rparr>)"

definition run_key_exe :: "cap \<Rightarrow> app_st \<Rightarrow> app_st option" where
  "run_key_exe c st = (case key_exe c of
       press_string_fn \<Rightarrow> press_string c st
     | blue_set_fn \<Rightarrow> Some (blue_set st)
     | pwd_start_fn \<Rightarrow> Some (emit [StartPwd] (st\<lparr>mb_app := True\<rparr>))
     | reset_system_fn \<Rightarrow> Some (emit [SystemReset] st)
     | lua_send_mail_fn \<Rightarrow> Some (emit [ToLuaFlag (cap_flag c)] st))"

section \<open>key_handle\<close>

text \<open>
  The answer is the value returned (true: the report was not consumed), the report as the function
  leaves it in the caller's buffer, and the new state.
\<close>

definition key_dispatch :: "u8 \<Rightarrow> u8 list \<Rightarrow> app_st \<Rightarrow> (bool \<times> u8 list \<times> app_st) option" where
  "key_dispatch ctrl buf st = do {
     st1 \<leftarrow> (if lua_flag st AND 1 \<noteq> 0
             then do { b \<leftarrow> wr buf 9 1; Some (emit [ToLua (take 10 b)] st, b) } else Some (st, buf));
     (case st1 of (st1, buf) \<Rightarrow>
       if mb_app st1 then do {
         (cs, k) \<leftarrow> KEYBRD_Decode buf (kbd st1);
         Some (False, buf, emit (map ToApp cs) (st1\<lparr>kbd := k\<rparr>)) }
       else do {
         k \<leftarrow> rd buf 2;
         r \<leftarrow> find_cap ctrl k (pool st1) (key_cap_cnt (pool st1)) (cap_use_head (pool st1));
         (case r of
            None \<Rightarrow> Some (True, buf, st1)
          | Some c \<Rightarrow> do {
              st2 \<leftarrow> run_key_exe c st1;
              Some (False, buf, st2\<lparr>hotkey_flag := 1, hotkey_value := k\<rparr>) }) }) }"

definition key_handle :: "u8 list \<Rightarrow> app_st \<Rightarrow> (bool \<times> u8 list \<times> app_st) option" where
  "key_handle buf0 st0 = do {
     st \<leftarrow> (if macro_flag st0 then macro_record buf0 st0 else Some st0);
     m0 \<leftarrow> rd buf0 0;
     ctrl \<leftarrow> key_process (key_changetable st) m0;
     buf \<leftarrow> wr buf0 0 ctrl;
     k \<leftarrow> rd buf 2;
     (if hotkey_flag st \<noteq> 0 then
        if k = hotkey_value st \<and> hotkey_flag st = 1 then do {
          b1 \<leftarrow> wr buf 2 0; b2 \<leftarrow> wr b1 0 0; Some (True, b2, st) }
        else if ctrl \<noteq> 0 then do {
          b1 \<leftarrow> wr buf 0 0; key_dispatch ctrl b1 (st\<lparr>hotkey_flag := 2\<rparr>) }
        else key_dispatch ctrl buf (st\<lparr>hotkey_flag := 0\<rparr>)
      else key_dispatch ctrl buf st) }"

definition key_capture :: "u8 list \<Rightarrow> app_st \<Rightarrow> (bool \<times> u8 list \<times> app_st) option" where
  "key_capture buf st = key_handle buf st"

text \<open>macro_play runs the recorded rows through key_handle, which changes them in place.\<close>

definition macro_play :: "app_st \<Rightarrow> app_st option" where
  "macro_play st = (let st0 = st\<lparr>macro_flag := False\<rparr> in
     forM [0..<macro_lenth st0] (\<lambda>i s. do {
       row \<leftarrow> rd (macro_data s) i;
       (r, row', s1) \<leftarrow> key_handle row s;
       d \<leftarrow> wr (macro_data s1) i row';
       let s2 = s1\<lparr>macro_data := d\<rparr>;
       Some (if r then emit [ToCommuWrite ((0 # take 7 row') @ [92])] s2 else s2) }) st0)"

section \<open>The thread\<close>

text \<open>
  The hotkeys rt_thread_entry_app registers after the scripts: control or alt with the key 53, and
  control and alt together with k and r. The fields the code leaves unset are never read.
\<close>

definition app_cap :: "(u8 \<times> u8) list \<Rightarrow> u8 \<Rightarrow> key_exe_fn \<Rightarrow> cap option" where
  "app_cap mods k f = do { fl \<leftarrow> filter_of mods;
     Some (cap_zero\<lparr>cap_filter := fl\<lparr>filter_key := k\<rparr>, key_exe := f\<rparr>) }"

definition app_caps :: "cap list option" where
  "app_caps = do {
     c1 \<leftarrow> app_cap [(0, of_char CHR ''^'')] 53 blue_set_fn;
     c2 \<leftarrow> app_cap [(0, of_char CHR ''!'')] 53 blue_set_fn;
     kk \<leftarrow> rd ascii2usb (of_char CHR ''k'');
     c3 \<leftarrow> app_cap [(0, of_char CHR ''!''), (0, of_char CHR ''^'')] kk pwd_start_fn;
     kr \<leftarrow> rd ascii2usb (of_char CHR ''r'');
     c4 \<leftarrow> app_cap [(0, of_char CHR ''!''), (0, of_char CHR ''^'')] kr reset_system_fn;
     Some [c1, c2, c3, c4] }"

definition app_register :: "app_st \<Rightarrow> app_st option" where
  "app_register st = do { cs \<leftarrow> app_caps; p \<leftarrow> add_caps cs (pool st); Some (st\<lparr>pool := p\<rparr>) }"

text \<open>
  One round of the thread's loop on an eight-byte message of mq_key_ms: an unconsumed report goes
  on to mq_key_sm, with the flag 0, only when the keyboard debug option is set.
\<close>

definition app_round :: "bool \<Rightarrow> u8 list \<Rightarrow> app_st \<Rightarrow> app_st option" where
  "app_round debug_keyboard msg st = do {
     (r, buf, st1) \<leftarrow> key_capture (msg @ [0]) st;
     Some (if r \<and> debug_keyboard then st1\<lparr>out := (out st1)\<lparr>sm_sent := sm_sent (out st1) @ [buf]\<rparr>\<rparr> else st1) }"

section \<open>The state the thread runs in\<close>

definition app_wf :: "app_st \<Rightarrow> bool" where
  "app_wf st \<longleftrightarrow> pool_wf (pool st) \<and> (\<forall>c \<in> set (hotkeys (pool st)). filter_wf (cap_filter c) \<and>
       (key_exe c = press_string_fn \<longrightarrow> string_lenth c = length (cap_string c) \<and> (\<forall>u \<in> set (cap_string c). plain_code u))) \<and>
     length (key_changetable st) = 8 \<and> length (buf_out (out st)) = 10 \<and>
     length (keys (kbd st)) = 6 \<and> \<not> macro_flag st"

lemma press_out_length:
  "length (buf_out st) = 10 \<Longrightarrow> \<exists>st'. press st = Some st' \<and> length (buf_out st') = 10"
  "length (buf_out st) = 10 \<Longrightarrow> i < 10 \<Longrightarrow> \<exists>st'. put_out i v st = Some st' \<and> length (buf_out st') = 10"
  by (auto simp: press_def put_out_def)

lemma buf_clear_length: "length (buf_out st) = 10 \<Longrightarrow> \<exists>st'. buf_clear st = Some st' \<and> length (buf_out st') = 10"
  by (simp add: buf_clear_out out_clear_def)

lemma press_key_length:
  assumes "length (buf_out st) = 10"
  shows "\<exists>c' st'. press_key c (k, st) = Some (c', st') \<and> length (buf_out st') = 10"
  using assms by (auto simp: press_key_def put_out_def press_def Let_def)

text \<open>Any codes, modifiers included, can be pressed without leaving the two buffers.\<close>

lemma press_string_total:
  assumes "length (buf_out st) = 10" "n \<le> length buf"
  shows "\<exists>st'. press_string_pure buf n st = Some st' \<and> length (buf_out st') = 10"
proof -
  obtain st1 where st1: "buf_clear st = Some st1" "length (buf_out st1) = 10"
    using buf_clear_length [OF assms(1)] by blast
  then obtain st2 where st2: "put_out 1 0 st1 = Some st2" "length (buf_out st2) = 10"
    using press_out_length(2) [of st1 1 0] by auto
  have "\<exists>s. forM [0..<n] (press_body buf n) (0, st2) = Some s \<and> length (buf_out (snd s)) = 10"
  proof (rule forM_invariant)
    show "length (buf_out (snd (0, st2))) = 10" using st2 by simp
    fix i and s :: "u8 \<times> out_st" assume i: "i \<in> set [0..<n]" and s: "length (buf_out (snd s)) = 10"
    obtain k t where kt: "s = (k, t)" by fastforce
    with s press_key_length [of t "buf ! i" k] obtain k' t' where
      t': "press_key (buf ! i) s = Some (k', t')" "length (buf_out t') = 10" by auto
    show "\<exists>t. press_body buf n i s = Some t \<and> length (buf_out (snd t)) = 10"
      using i t' assms(2) buf_clear_length [OF t'(2)] by (auto simp: press_body_def)
  qed
  then show ?thesis using st1 st2 by (force simp: press_string_pure_def press_body_def [abs_def])
qed


lemma find_cap_result:
  assumes "app_wf st"
  shows "\<exists>r. find_cap ctrl k (pool st) (key_cap_cnt (pool st)) (cap_use_head (pool st)) = Some r \<and>
    map_option cap_body r = find (cap_matches ctrl k) (hotkeys (pool st))"
  using find_cap_hotkeys [of "pool st" ctrl k] assms by (auto simp: app_wf_def)

lemma run_key_exe_body: "run_key_exe (cap_body c) st = run_key_exe c st"
  by (simp add: run_key_exe_def press_string_def split: key_exe_fn.split)

lemma find_in: "find P xs = Some x \<Longrightarrow> x \<in> set xs \<and> P x"
  by (auto simp: find_Some_iff)

section \<open>Properties\<close>

text \<open>
  A report that matches a hotkey, when nothing else claims it.
\<close>

lemma key_handle_hit:
  assumes wf: "app_wf st" and quiet: "hotkey_flag st = 0" "lua_flag st AND 1 = 0" "\<not> mb_app st"
    and buf: "3 \<le> length buf" "key_process (key_changetable st) (buf ! 0) = Some ctrl"
    and hit: "find (cap_matches ctrl (buf ! 2)) (hotkeys (pool st)) = Some c"
  shows "key_handle buf st = do { st' \<leftarrow> run_key_exe c st;
    Some (False, buf[0 := ctrl], st'\<lparr>hotkey_flag := 1, hotkey_value := buf ! 2\<rparr>) }"
proof -
  obtain r where r: "find_cap ctrl (buf ! 2) (pool st) (key_cap_cnt (pool st)) (cap_use_head (pool st)) = Some (Some r)"
    "cap_body r = c" using find_cap_result [OF wf, of ctrl "buf ! 2"] hit by auto
  have "macro_flag st = False" "0 < length buf" "2 < length buf" using wf buf by (auto simp: app_wf_def)
  with quiet buf r show ?thesis
    by (simp add: key_handle_def key_dispatch_def flip: run_key_exe_body [of r])
qed

lemma key_handle_blocked:
  assumes "hotkey_flag st = 1" "hotkey_value st = buf ! 2" "3 \<le> length buf" "\<not> macro_flag st" "length (key_changetable st) = 8"
  shows "key_handle buf st = Some (True, buf[0 := 0, 2 := 0], st)"
proof -
  obtain ctrl where "key_process (key_changetable st) (buf ! 0) = Some ctrl"
    using key_process_total [OF assms(5)] by blast
  moreover have "0 < length buf" "2 < length buf" using assms(3) by auto
  ultimately show ?thesis using assms by (simp add: key_handle_def list_update_swap)
qed

lemma type_reports_length: "r \<in> set (type_reports us) \<Longrightarrow> length r = 9"
  by (induction us rule: type_reports.induct) (auto simp: report_def)

lemma key_handle_types:
  assumes "app_wf st" "hotkey_flag st = 0" "lua_flag st AND 1 = 0" "\<not> mb_app st"
    and "3 \<le> length buf" "key_process (key_changetable st) (buf ! 0) = Some ctrl"
    and "find (cap_matches ctrl (buf ! 2)) (hotkeys (pool st)) = Some c" "key_exe c = press_string_fn"
    and "map char2usb s = map Some (cap_string c)" "\<forall>x \<in> set s. typable x"
  shows "\<exists>st' rs kb. key_handle buf st = Some (False, buf[0 := ctrl], st') \<and>
     sm_sent (out st') = sm_sent (out st) @ rs \<and> decode_reports rs kbd_start = Some (map of_nat s, kb) \<and>
     key_handle buf st' = Some (True, buf[0 := 0, 2 := 0], st') \<and>
     (\<forall>r \<in> set rs. length r = 9)"
proof -
  let ?us = "cap_string c"
  have c: "c \<in> set (hotkeys (pool st))" using find_in assms(7) by fastforce
  then have len: "string_lenth c = length ?us" and plain: "\<forall>u \<in> set ?us. plain_code u"
    and l10: "length (buf_out (out st)) = 10"
    using assms(1,8) by (auto simp: app_wf_def)
  obtain b where b: "press_string_pure ?us (length ?us) (out st) = Some ((out st)\<lparr>buf_out := b,
     sm_sent := sm_sent (out st) @ report (buf_out (out st) ! 1) 0 # type_reports ?us\<rparr>)"
    using press_string_reports [OF plain l10] by blast
  let ?o = "(out st)\<lparr>buf_out := b, sm_sent := sm_sent (out st) @ report (buf_out (out st) ! 1) 0 # type_reports ?us\<rparr>"
  let ?st' = "st\<lparr>out := ?o, hotkey_flag := 1, hotkey_value := buf ! 2\<rparr>"
  have "run_key_exe c st = Some (st\<lparr>out := ?o\<rparr>)"
    using assms(8) len b by (simp add: run_key_exe_def press_string_def)
  then have 1: "key_handle buf st = Some (False, buf[0 := ctrl], ?st')"
    using key_handle_hit [OF assms(1-7)] by simp
  have "list_all2 types_char ?us (map of_nat s)"
  proof -
    have "length ?us = length s" using assms(9) by (metis length_map)
    moreover have "types_char (?us ! i) (of_nat (s ! i))" if "i < length s" for i
    proof -
      have "char2usb (s ! i) = Some (?us ! i)" using assms(9) that calculation by (metis nth_map)
      then show ?thesis using typable_types [of "s ! i"] assms(10) that by auto
    qed
    ultimately show ?thesis by (simp add: list_all2_conv_all_nth)
  qed
  moreover obtain k1 where "KEYBRD_Decode (report (buf_out (out st) ! 1) 0) kbd_start = Some ([], k1)" "no_keys k1"
    using KEYBRD_Decode_release [of kbd_start] by (auto simp: kbd_start_def)
  moreover obtain kb where "decode_reports (type_reports ?us) k1 = Some (map of_nat s, kb)"
    using decode_type_reports [OF calculation(1,3)] by blast
  ultimately have kb: "decode_reports (report (buf_out (out st) ! 1) 0 # type_reports ?us) kbd_start
      = Some (map of_nat s, kb)" by simp
  have 2: "key_handle buf ?st' = Some (True, buf[0 := 0, 2 := 0], ?st')"
    using assms(1,5) by (intro key_handle_blocked) (auto simp: app_wf_def)
  have "\<forall>r \<in> set (report (buf_out (out st) ! 1) 0 # type_reports ?us). length r = 9"
    using type_reports_length by (auto simp: report_def)
  then show ?thesis using 1 2 kb by (intro exI [of _ ?st']) auto
qed

text \<open>
  Property C2 (hotkey_types_text): firing a text hotkey. When a report with modifier byte m and key
  k arrives, no other claim on it (no hotkey in progress, no script, no waiting program), and the
  first hotkey that matches holds the codes of the typable text s, then the report is consumed, the
  reports sent decode to exactly s, and the same report arriving again (the key is still held) is
  blocked: nothing is sent and its modifiers and key are cleared.
\<close>

theorem hotkey_types_text:
  assumes "app_wf st" "hotkey_flag st = 0" "lua_flag st AND 1 = 0" "\<not> mb_app st"
    and "3 \<le> length buf" "key_process (key_changetable st) (buf ! 0) = Some ctrl"
    and "find (cap_matches ctrl (buf ! 2)) (hotkeys (pool st)) = Some c" "key_exe c = press_string_fn"
    and "map char2usb s = map Some (cap_string c)" "\<forall>x \<in> set s. typable x"
  shows "\<exists>st' rs kb. key_handle buf st = Some (False, buf[0 := ctrl], st') \<and>
     sm_sent (out st') = sm_sent (out st) @ rs \<and> decode_reports rs kbd_start = Some (map of_nat s, kb) \<and>
     key_handle buf st' = Some (True, buf[0 := 0, 2 := 0], st')"
  using key_handle_types [OF assms] by blast

definition app_start :: "cap_pool \<Rightarrow> app_st" where
  "app_start p = \<lparr>pool = p, key_changetable = [0, 1, 2, 3, 4, 5, 6, 7],
     out = \<lparr>buf_out = replicate 10 0, sm_sent = []\<rparr>, kbd = kbd_start, hotkey_flag = 0, hotkey_value = 0,
     macro_data = replicate 5 (replicate 10 0), macro_flag = False, macro_lenth = 0, macro_play_flag = False,
     lua_flag = 0, mb_app = False, blue_choose = 0, events = []\<rparr>"

definition demo_cap :: cap where
  "demo_cap = cap_zero\<lparr>cap_filter := filter_Init\<lparr>control_filter := 17 # replicate 7 0, control_filter_cnt := 1, filter_key := 4\<rparr>,
     cap_string := [267, 12], string_lenth := 2\<rparr>"

lemma demo_pool: "\<exists>p. app_wf (app_start p) \<and> hotkeys p = [demo_cap]"
proof -
  obtain st0 where "pool_wf st0" "hotkeys st0 = []" using pool_wf_init by blast
  then obtain p where "pool_wf p" "hotkeys p = [cap_body demo_cap]"
    using add_caps_list [of st0 "[demo_cap]"] by auto
  moreover have "cap_body demo_cap = demo_cap" by (simp add: cap_body_def demo_cap_def cap_zero_def)
  moreover have "filter_wf (cap_filter demo_cap)" "\<forall>u \<in> set (cap_string demo_cap). plain_code u"
    "string_lenth demo_cap = length (cap_string demo_cap)"
    by (simp_all add: demo_cap_def filter_wf_def plain_code_def)
  ultimately show ?thesis by (intro exI [of _ p]) (simp add: app_wf_def app_start_def kbd_start_def)
qed

theorem hotkey_types_text_witness:
  "\<exists>p st' rs kb. key_handle [16, 0, 4, 0, 0, 0, 0, 0, 0] (app_start p) = Some (False, [16, 0, 4, 0, 0, 0, 0, 0, 0], st') \<and>
     decode_reports rs kbd_start = Some (map of_nat [72, 105], kb) \<and> sm_sent (out st') = rs \<and>
     key_handle [16, 0, 4, 0, 0, 0, 0, 0, 0] st' = Some (True, replicate 9 0, st')"
proof -
  obtain p where p: "app_wf (app_start p)" "hotkeys p = [demo_cap]" using demo_pool by blast
  have "cap_matches 16 4 demo_cap"
    by (simp add: cap_matches_def demo_cap_def control_key_filt_def filter_Init_def upt_rec)
  then have "find (cap_matches 16 4) (hotkeys p) = Some demo_cap" using p by simp
  moreover have "key_process [0, 1, 2, 3, 4, 5, 6, 7] 16 = Some 16" by code_simp
  moreover have "map char2usb [72, 105] = map Some (cap_string demo_cap)"
    by (simp add: demo_cap_def char2usb_def ascii2usb_def shift_table_def)
  moreover have "\<forall>x \<in> set [72, 105]. typable x" by (simp add: typable_def ascii2usb_def)
  ultimately show ?thesis
    using hotkey_types_text [OF p(1), of "[16, 0, 4, 0, 0, 0, 0, 0, 0]" 16 demo_cap "[72, 105]"]
    by (fastforce simp: app_start_def demo_cap_def cap_zero_def eval_nat_numeral)
qed


lemma emit_wf [simp]: "app_wf (emit es st) = app_wf st" "events (emit es st) = events st @ es"
  by (simp_all add: emit_def app_wf_def)

lemma run_key_exe_wf:
  assumes wf: "app_wf st" and c: "c \<in> set (hotkeys (pool st))"
  shows "\<exists>st'. run_key_exe c st = Some st' \<and> app_wf st'"
proof (cases "key_exe c")
  case press_string_fn
  with wf c have "string_lenth c = length (cap_string c)" "length (buf_out (out st)) = 10"
    by (auto simp: app_wf_def)
  with press_string_total [of "out st" "string_lenth c" "cap_string c"] wf press_string_fn
  show ?thesis by (auto simp: run_key_exe_def press_string_def app_wf_def)
qed (use wf in \<open>auto simp: run_key_exe_def blue_set_def emit_def app_wf_def\<close>)

lemma key_dispatch_wf:
  assumes wf: "app_wf st" and buf: "9 \<le> length buf" "lua_flag st AND 1 \<noteq> 0 \<longrightarrow> 10 \<le> length buf"
    and codes: "\<forall>i \<in> {2..<8}. unat (buf ! i) < 232"
  shows "\<exists>r buf' st'. key_dispatch ctrl buf st = Some (r, buf', st') \<and> app_wf st' \<and> length buf' = length buf"
proof -
  obtain st1 b where b: "(if lua_flag st AND 1 \<noteq> 0
      then do { b \<leftarrow> wr buf 9 1; Some (emit [ToLua (take 10 b)] st, b) } else Some (st, buf)) = Some (st1, b)"
    "app_wf st1" "length b = length buf" "\<forall>i \<in> {2..<8}. b ! i = buf ! i"
    using wf buf by (cases "lua_flag st AND 1 \<noteq> 0") auto
  show ?thesis
  proof (cases "mb_app st1")
    case True
    have "\<exists>cs k'. KEYBRD_Decode b (kbd st1) = Some (cs, k') \<and> length (keys k') = 6"
      using b buf codes by (intro KEYBRD_Decode_total) (auto simp: app_wf_def)
    with True b show ?thesis by (auto simp: key_dispatch_def emit_def app_wf_def)
  next
    case False
    obtain r where r: "find_cap ctrl (b ! 2) (pool st1) (key_cap_cnt (pool st1)) (cap_use_head (pool st1)) = Some r"
      "map_option cap_body r = find (cap_matches ctrl (b ! 2)) (hotkeys (pool st1))"
      using find_cap_result [OF b(2)] by blast
    have l: "2 < length b" using b buf by linarith
    show ?thesis
    proof (cases r)
      case None
      with False r l b show ?thesis by (auto simp: key_dispatch_def)
    next
      case (Some c)
      then have "cap_body c \<in> set (hotkeys (pool st1))" using r(2) by (metis find_in option.simps(9))
      then obtain st2 where "run_key_exe c st1 = Some st2" "app_wf st2"
        using run_key_exe_wf [OF b(2)] run_key_exe_body by metis
      then have "app_wf (st2\<lparr>hotkey_flag := 1, hotkey_value := b ! 2\<rparr>)" by (simp add: app_wf_def)
      with \<open>run_key_exe c st1 = Some st2\<close> Some False r l b show ?thesis by (auto simp: key_dispatch_def)
    qed
  qed
qed

text \<open>
  Property C13 (key_handle_safe): on a well-formed state (its pool made by registrations, all tables
  of their declared size) key_handle never leaves an array: any report of at least nine bytes whose
  keys are usage codes below 232 is handled, and the state stays well-formed; when the keyboard bit
  of the script flags is set the report must have ten bytes.
\<close>

theorem key_handle_safe:
  assumes "app_wf st" "9 \<le> length buf" "lua_flag st AND 1 \<noteq> 0 \<longrightarrow> 10 \<le> length buf"
    and "\<forall>i \<in> {2..<8}. unat (buf ! i) < 232"
  shows "\<exists>r buf' st'. key_handle buf st = Some (r, buf', st') \<and> app_wf st' \<and> length buf' = length buf"
proof -
  have w: "app_wf (st\<lparr>hotkey_flag := f\<rparr>)" "lua_flag (st\<lparr>hotkey_flag := f\<rparr>) = lua_flag st" for f
    using assms(1) by (simp_all add: app_wf_def)
  have m: "\<not> macro_flag st" "length (key_changetable st) = 8" using assms(1) by (simp_all add: app_wf_def)
  obtain ctrl where c: "key_process (key_changetable st) (buf ! 0) = Some ctrl"
    using key_process_total [OF m(2)] by blast
  have l: "0 < length buf" "2 < length buf" "buf[0 := x] ! 2 = buf ! 2" for x using assms(2) by auto
  note d = key_dispatch_wf [OF assms(1), of "buf[0 := ctrl]" ctrl]
    key_dispatch_wf [OF w(1) [of 0], of "buf[0 := ctrl]" ctrl]
    key_dispatch_wf [OF w(1) [of 2], of "buf[0 := 0]" ctrl]
  show ?thesis
    using m(1) c l d assms w by (auto simp: key_handle_def)
qed

theorem key_handle_safe_witness:
  "\<exists>p r b st. key_handle [255, 0, 4, 5, 0, 0, 0, 0, 0] (app_start p) = Some (r, b, st) \<and> length b = 9"
proof -
  obtain p where p: "app_wf (app_start p)" using demo_pool by blast
  have "\<forall>i \<in> {2..<8}. unat ([255, 0, 4, 5, 0, 0, 0, 0, 0] ! i :: u8) < 232"
    by (auto simp: nth_Cons')
  then show ?thesis
    using key_handle_safe [OF p, of "[255, 0, 4, 5, 0, 0, 0, 0, 0]"] by (fastforce simp: app_start_def)
qed

text \<open>
  With the keyboard bit of the script flags set, the keyboard
  thread writes behind its nine-byte buffer: every round on an eight-byte message is undefined
  unless the report is the blocked repetition of the last hotkey.
\<close>

theorem lua_report_overrun:
  assumes "lua_flag st AND 1 \<noteq> 0" "\<not> macro_flag st" "length (key_changetable st) = 8" "length msg = 8"
    and "\<not> (hotkey_flag st = 1 \<and> hotkey_value st = msg ! 2)"
  shows "app_round debug msg st = None"
proof -
  obtain ctrl where c: "key_process (key_changetable st) (msg ! 0) = Some ctrl"
    using key_process_total [OF assms(3)] by blast
  have "key_dispatch ctrl b s = None" if "length b = 9" "lua_flag s = lua_flag st" for b s
    using that assms(1) by (simp add: key_dispatch_def)
  then have "key_handle (msg @ [0]) st = None"
    using assms c by (auto simp: key_handle_def nth_append)
  then show ?thesis by (simp add: app_round_def key_capture_def)
qed

theorem lua_report_overrun_witness:
  "app_round False [0, 0, 4, 0, 0, 0, 0, 0] (app_start cap_pool_start\<lparr>lua_flag := 1\<rparr>) = None"
  using lua_report_overrun [of "app_start cap_pool_start\<lparr>lua_flag := 1\<rparr>" "[0, 0, 4, 0, 0, 0, 0, 0]" False]
  by (simp add: app_start_def)

end
