(* ===== verification/Mouse_Gesture.thy ===== *)
theory Mouse_Gesture
  imports Press_String
begin

text \<open>
  Mouse gestures (src/APP/mouse_gesture.c) and the window shortcuts they trigger
  (src/APP/windows_api.c). While the right button is held mouse_capture keeps the track of the
  mouse; when it is released mouse_ana passes a short press on as a click and looks for a straight
  line otherwise. The correlation test, which works with floating-point numbers and uses two
  variables that are never initialised, is the parameter straight; the slope is compared exactly,
  as a quotient of integers. A write behind the array track is None.
\<close>

section \<open>Window shortcuts\<close>

text \<open>The bit of a modifier; an unknown name gives no shift count.\<close>

definition modifier_bit :: "string \<Rightarrow> u16 option" where
  "modifier_bit s = do {
     i \<leftarrow> control_key_index (cstring s);
     (if 0 \<le> i then Some (push_bit (nat i) 1) else None)
   }"

definition win_api_window_min :: "out_st \<Rightarrow> out_st option" where
  "win_api_window_min st = do {
     alt \<leftarrow> modifier_bit ''lalt'';
     ctrl \<leftarrow> modifier_bit ''lctrl'';
     space \<leftarrow> rd ascii2usb 32;
     n \<leftarrow> rd ascii2usb 110;
     press_string_pure [push_bit 9 1 + alt, ucast space, push_bit 10 1 + push_bit 2 1,
       push_bit 9 1 + ctrl, ucast n, push_bit 10 1 + ctrl] 6 st
   }"

definition win_api_window_toRight :: "out_st \<Rightarrow> out_st option" where
  "win_api_window_toRight st = do {
     gui \<leftarrow> modifier_bit ''lgui'';
     press_string_pure [push_bit 9 1 + gui, 79, 79, 79, 82, push_bit 10 1 + gui] 5 st
   }"

definition win_api_window_toLeft :: "out_st \<Rightarrow> out_st option" where
  "win_api_window_toLeft st = do {
     gui \<leftarrow> modifier_bit ''lgui'';
     press_string_pure [push_bit 9 1 + gui, 80, 80, 80, 82, push_bit 10 1 + gui] 5 st
   }"

section \<open>Tracking the mouse\<close>

type_synonym s16 = "16 word"

record mouse_data =
  button :: s16
  m_x :: s16
  m_y :: s16
  m_z :: s16

record mouse_st =
  track :: "(s16 \<times> s16) list"
  key_cnt :: nat
  key_state :: nat
  mq_commu :: "u8 list list"
  ms_out :: out_st

definition le16 :: "s16 \<Rightarrow> u8 list" where
  "le16 w = [ucast w, ucast (drop_bit 8 w)]"

text \<open>The eight bytes of a mouse record behind the code 11.\<close>

definition mouse_mail :: "mouse_data \<Rightarrow> u8 list" where
  "mouse_mail m = 11 # le16 (button m) @ le16 (m_x m) @ le16 (m_y m) @ le16 (m_z m)"

text \<open>Whether dy / dx is less than n / d, for d > 0.\<close>

definition slope_less :: "int \<Rightarrow> int \<Rightarrow> int \<Rightarrow> int \<Rightarrow> bool" where
  "slope_less dy dx n d = (if 0 < dx then dy * d < n * dx else n * dx < dy * d)"

definition slope_greater :: "int \<Rightarrow> int \<Rightarrow> int \<Rightarrow> int \<Rightarrow> bool" where
  "slope_greater dy dx n d = (if 0 < dx then n * dx < dy * d else dy * d < n * dx)"

definition mouse_ana :: "((s16 \<times> s16) list \<Rightarrow> bool) \<Rightarrow> mouse_data \<Rightarrow> mouse_st \<Rightarrow> (mouse_data \<times> mouse_st) option" where
  "mouse_ana straight m s =
     (if key_cnt s \<le> 5 then
        let down = m\<lparr>button := 2\<rparr>; up = m\<lparr>button := 0, m_x := 0, m_y := 0, m_z := 0\<rparr> in
        Some (up, s\<lparr>mq_commu := mq_commu s @ [mouse_mail down, mouse_mail up]\<rparr>)
      else do {
        (xn, yn) \<leftarrow> rd (track s) (key_cnt s - 1);
        (x0, y0) \<leftarrow> rd (track s) 0;
        let dy = sint yn - sint y0;
        let dx = (if xn = x0 then 1 else sint xn - sint x0);
        (if straight (take (key_cnt s) (track s)) then
           (if slope_less dy dx (-3) 10 \<and> slope_greater dy dx (-3) 1 then do {
              o1 \<leftarrow> win_api_window_min (ms_out s); Some (m, s\<lparr>ms_out := o1\<rparr>) }
            else if slope_greater dy dx (-3) 1 \<and> slope_less dy dx 3 1 then
              (if 0 < sint xn then do { o1 \<leftarrow> win_api_window_toRight (ms_out s); Some (m, s\<lparr>ms_out := o1\<rparr>) }
               else do { o1 \<leftarrow> win_api_window_toLeft (ms_out s); Some (m, s\<lparr>ms_out := o1\<rparr>) })
            else Some (m, s))
         else Some (m, s))
      })"

text \<open>mouse_capture: whether the record is handed on, the record, and the state.\<close>

definition mouse_capture :: "((s16 \<times> s16) list \<Rightarrow> bool) \<Rightarrow> bool \<Rightarrow> mouse_data \<Rightarrow> mouse_st \<Rightarrow> (bool \<times> mouse_data \<times> mouse_st) option" where
  "mouse_capture straight gesture m s =
     (if \<not> gesture then Some (True, m, s)
      else if button m = 2 then do {
        (px, py) \<leftarrow> (if 0 < key_cnt s then rd (track s) (key_cnt s - 1) else Some (0, 0));
        tr \<leftarrow> wr (track s) (key_cnt s) (px + m_x m, py + m_y m);
        let s1 = s\<lparr>track := tr, key_cnt := (if key_cnt s < 200 then key_cnt s + 1 else key_cnt s)\<rparr>;
        let m1 = m\<lparr>button := 0\<rparr>;
        Some (if key_state s1 = 0 then (False, m1, s1\<lparr>key_state := 1\<rparr>) else (True, m1, s1))
      }
      else if key_state s = 1 then do {
        (m1, s1) \<leftarrow> mouse_ana straight m s;
        Some (False, m1, s1\<lparr>key_cnt := 0, key_state := 0\<rparr>)
      }
      else Some (True, m, s))"

fun mouse_run :: "((s16 \<times> s16) list \<Rightarrow> bool) \<Rightarrow> mouse_data list \<Rightarrow> mouse_st \<Rightarrow> ((bool \<times> mouse_data) list \<times> mouse_st) option" where
  "mouse_run straight [] s = Some ([], s)"
| "mouse_run straight (m # ms) s = do {
     (b, m1, s1) \<leftarrow> mouse_capture straight True m s;
     (rs, s2) \<leftarrow> mouse_run straight ms s1;
     Some ((b, m1) # rs, s2)
   }"

section \<open>Lemmas\<close>

text \<open>The positions the mouse passes, from the position p on; they wrap in 16 bits.\<close>

fun path :: "s16 \<times> s16 \<Rightarrow> mouse_data list \<Rightarrow> (s16 \<times> s16) list" where
  "path p [] = []"
| "path p (m # ms) = (let q = (fst p + m_x m, snd p + m_y m) in q # path q ms)"

lemma path_length [simp]: "length (path p ms) = length ms"
  by (induction ms arbitrary: p) (simp_all add: Let_def)

definition tracking :: "s16 \<times> s16 \<Rightarrow> mouse_st \<Rightarrow> bool" where
  "tracking p s \<longleftrightarrow> length (track s) = 200 \<and> key_cnt s \<le> 200 \<and>
     (if key_cnt s = 0 then p = (0, 0) else track s ! (key_cnt s - 1) = p)"

text \<open>What is handed on while the button is held: the records without the button, but the first.\<close>

definition held :: "bool \<Rightarrow> mouse_data list \<Rightarrow> (bool \<times> mouse_data) list" where
  "held first ms = zip ((\<not> first) # replicate (length ms - 1) True) (map (\<lambda>m. m\<lparr>button := 0\<rparr>) ms)"

lemma held_Cons: "held first (m # ms) = (\<not> first, m\<lparr>button := 0\<rparr>) # held False ms"
  by (cases ms) (simp_all add: held_def)

lemma capture_held:
  assumes "tracking p s" "button m = 2"
  shows "mouse_capture straight True m s = (if key_cnt s < 200
    then Some (key_state s \<noteq> 0, m\<lparr>button := 0\<rparr>, s\<lparr>track := (track s)[key_cnt s := (fst p + m_x m, snd p + m_y m)],
      key_cnt := key_cnt s + 1, key_state := (if key_state s = 0 then 1 else key_state s)\<rparr>)
    else None)"
proof (cases "key_cnt s < 200")
  case True
  have p: "(if 0 < key_cnt s then rd (track s) (key_cnt s - 1) else Some (0, 0)) = Some p"
    using assms(1) by (auto simp: tracking_def)
  have w: "wr (track s) (key_cnt s) q = Some ((track s)[key_cnt s := q])" for q using assms(1) True by (simp add: tracking_def)
  show ?thesis using assms(2) True by (cases p) (auto simp: mouse_capture_def p w)
next
  case False
  then show ?thesis using assms by (auto simp: mouse_capture_def tracking_def)
qed

lemma run_held:
  assumes "tracking p s" "\<forall>m \<in> set ms. button m = 2"
  shows "if key_cnt s + length ms \<le> 200
    then \<exists>s'. mouse_run straight ms s = Some (held (key_state s = 0) ms, s') \<and> key_cnt s' = key_cnt s + length ms \<and>
      take (key_cnt s + length ms) (track s') = take (key_cnt s) (track s) @ path p ms \<and> length (track s') = 200 \<and>
      key_state s' = (if ms = [] \<or> key_state s \<noteq> 0 then key_state s else 1) \<and> mq_commu s' = mq_commu s \<and> ms_out s' = ms_out s
    else mouse_run straight ms s = None"
  using assms
proof (induction ms arbitrary: p s)
  case Nil
  then show ?case by (simp add: held_def tracking_def)
next
  case (Cons m ms)
  let ?q = "(fst p + m_x m, snd p + m_y m)"
  let ?s = "s\<lparr>track := (track s)[key_cnt s := ?q], key_cnt := key_cnt s + 1, key_state := (if key_state s = 0 then 1 else key_state s)\<rparr>"
  note c = capture_held [OF Cons.prems(1), of m straight]
  show ?case
  proof (cases "key_cnt s < 200")
    case False
    then show ?thesis using c Cons.prems(2) by simp
  next
    case True
    have c': "mouse_capture straight True m s = Some (key_state s \<noteq> 0, m\<lparr>button := 0\<rparr>, ?s)" using c Cons.prems(2) True by simp
    have t: "tracking ?q ?s" using Cons.prems(1) True by (simp add: tracking_def)
    have tk: "take (key_cnt s + 1) ((track s)[key_cnt s := ?q]) = take (key_cnt s) (track s) @ [?q]"
      using Cons.prems(1) True by (simp add: tracking_def take_Suc_conv_app_nth)
    show ?thesis
    proof (cases "key_cnt s + length (m # ms) \<le> 200")
      case a: True
      then obtain s' where s': "mouse_run straight ms ?s = Some (held False ms, s')" "key_cnt s' = key_cnt s + 1 + length ms"
        "take (key_cnt s + 1 + length ms) (track s') = take (key_cnt s + 1) (track ?s) @ path ?q ms" "length (track s') = 200"
        "key_state s' = key_state ?s" "mq_commu s' = mq_commu s" "ms_out s' = ms_out s"
        using Cons.IH [OF t] Cons.prems(2) by (auto split: if_splits)
      have "mouse_run straight (m # ms) s = Some (held (key_state s = 0) (m # ms), s')" using c' s'(1) by (simp add: held_Cons)
      moreover have "take (key_cnt s + length (m # ms)) (track s') = take (key_cnt s) (track s) @ path p (m # ms)"
        using s'(3) tk by (simp add: Let_def)
      ultimately show ?thesis using a s' by simp
    next
      case False
      then have "mouse_run straight ms ?s = None" using Cons.IH [OF t] Cons.prems(2) by (auto split: if_splits)
      then show ?thesis using False c' by simp
    qed
  qed
qed

text \<open>One code of press_string_pure, with the buffer in the state buf_clear leaves.\<close>

definition out_held :: "u8 \<Rightarrow> u8 \<Rightarrow> u8 list" where
  "out_held m k = [6, m, 0, k, 0, 0, 0, 0, 0, 1]"

lemma press_key_down:
  assumes "buf_out st = out_held m 0" "bit c 9"
  shows "press_key c (m, st) = Some (m OR ucast c, st\<lparr>buf_out := out_held (m OR ucast c) 0,
    sm_sent := sm_sent st @ [report (m OR ucast c) 0]\<rparr>)"
  using assms by (simp add: press_key_def put_out_def press_def out_held_def report_def Let_def eval_nat_numeral)

lemma press_key_up:
  assumes "buf_out st = out_held m 0" "\<not> bit c 9" "bit c 10"
  shows "press_key c (m, st) = Some (m AND ucast (NOT c), st\<lparr>buf_out := out_held (m AND ucast (NOT c)) 0,
    sm_sent := sm_sent st @ [report (m AND ucast (NOT c)) 0]\<rparr>)"
  using assms by (simp add: press_key_def put_out_def press_def out_held_def report_def Let_def eval_nat_numeral)

lemma press_key_tap:
  assumes "buf_out st = out_held m 0" "\<not> bit c 8" "\<not> bit c 9" "\<not> bit c 10"
  shows "press_key c (m, st) = Some (m, st\<lparr>buf_out := out_held m (ucast c), sm_sent := sm_sent st @ [report m (ucast c)]\<rparr>)"
  using assms by (simp add: press_key_def put_out_def press_def out_held_def report_def Let_def eval_nat_numeral)

lemma buf_clear_held:
  "buf_out st = out_held m k \<Longrightarrow> buf_clear st = Some (st\<lparr>buf_out := out_held m 0, sm_sent := sm_sent st @ [report m 0]\<rparr>)"
  using buf_clear_out [of st] by (simp add: out_held_def out_clear_def)

lemmas press_held = press_key_down press_key_up press_key_tap buf_clear_held

lemma press_first:
  assumes "length (buf_out st) = 10"
  shows "buf_clear st \<bind> put_out 1 0 = Some (st\<lparr>buf_out := out_held 0 0, sm_sent := sm_sent st @ [report (buf_out st ! 1) 0]\<rparr>)"
  using buf_clear_out [OF assms] by (simp add: put_out_def out_clear_def out_held_def)

lemma press_start:
  assumes "length (buf_out st) = 10"
  shows "press_string_pure buf n st = do {
    (_, st3) \<leftarrow> forM [0..<n] (\<lambda>i s. do {
         c \<leftarrow> rd buf i;
         (ctrl, t) \<leftarrow> press_key c s;
         (if i \<noteq> n - 1 then do { t' \<leftarrow> buf_clear t; Some (ctrl, t') } else Some (ctrl, t)) })
      (0, st\<lparr>buf_out := out_held 0 0, sm_sent := sm_sent st @ [report (buf_out st ! 1) 0]\<rparr>);
    Some st3 }"
  using press_first [OF assms] unfolding press_string_pure_def by (simp flip: Option.bind_assoc)

lemma modifier_bits: "modifier_bit ''lalt'' = Some 4" "modifier_bit ''lctrl'' = Some 1" "modifier_bit ''lgui'' = Some 8"
  by code_simp+

lemma held_bytes: "(520 :: u8) = 8" "(516 :: u8) = 4" "(513 :: u8) = 1"
  by simp_all

lemma to_right_reports:
  assumes "length (buf_out st) = 10"
  shows "win_api_window_toRight st = Some (st\<lparr>buf_out := out_held 8 82, sm_sent := sm_sent st @ [report (buf_out st ! 1) 0,
    report 8 0, report 8 0, report 8 79, report 8 0, report 8 79, report 8 0, report 8 79, report 8 0, report 8 82]\<rparr>)"
  using assms by (simp add: win_api_window_toRight_def modifier_bits press_start upt_rec press_held held_bytes)

lemma to_left_reports:
  assumes "length (buf_out st) = 10"
  shows "win_api_window_toLeft st = Some (st\<lparr>buf_out := out_held 8 82, sm_sent := sm_sent st @ [report (buf_out st ! 1) 0,
    report 8 0, report 8 0, report 8 80, report 8 0, report 8 80, report 8 0, report 8 80, report 8 0, report 8 82]\<rparr>)"
  using assms by (simp add: win_api_window_toLeft_def modifier_bits press_start upt_rec press_held held_bytes)

lemma min_codes: "rd ascii2usb 32 = Some 44" "rd ascii2usb 110 = Some 17"
  by (simp_all add: rd_def ascii2usb_def)

lemma window_min_reports:
  assumes "length (buf_out st) = 10"
  shows "win_api_window_min st = Some (st\<lparr>buf_out := out_held 0 0, sm_sent := sm_sent st @ [report (buf_out st ! 1) 0,
    report 4 0, report 4 0, report 4 44, report 4 0, report 0 0, report 0 0, report 1 0, report 1 0, report 1 17, report 1 0, report 0 0]\<rparr>)"
  using assms by (simp add: win_api_window_min_def modifier_bits min_codes press_start upt_rec press_held held_bytes)

section \<open>Properties\<close>

text \<open>
  Following the mouse. While the right button is held, from the press on,
  the array track receives the positions the mouse passes, relative to where the button went down;
  the records are handed on without the button, but the first; and with the 201st record
  mouse_capture writes behind the array, because key_cnt stops at 200 and not before.
\<close>

theorem mouse_track:
  assumes "length (track s) = 200" "key_cnt s = 0" "key_state s = 0" "\<forall>m \<in> set ms. button m = 2"
  shows "if length ms \<le> 200
    then \<exists>s'. mouse_run straight ms s = Some (held True ms, s') \<and> take (length ms) (track s') = path (0, 0) ms \<and>
      mq_commu s' = mq_commu s
    else mouse_run straight ms s = None"
proof -
  have "tracking (0, 0) s" using assms(1,2) by (simp add: tracking_def)
  from run_held [OF this assms(4), of straight] show ?thesis using assms(2,3) by (auto split: if_splits)
qed

text \<open>
  The reports of the window shortcuts. Minimising a window presses and
  releases all its keys: the last report is empty. The shortcuts that move a window to the left or
  to the right send five of their six codes, so their last report still holds the GUI modifier and
  the up arrow, and nothing releases them.
\<close>

theorem window_shortcuts:
  assumes "length (buf_out st) = 10"
  shows "map_option sm_sent (win_api_window_min st) = Some (sm_sent st @ [report (buf_out st ! 1) 0, report 4 0, report 4 0,
      report 4 44, report 4 0, report 0 0, report 0 0, report 1 0, report 1 0, report 1 17, report 1 0, report 0 0]) \<and>
    map_option sm_sent (win_api_window_toRight st) = Some (sm_sent st @ [report (buf_out st ! 1) 0, report 8 0, report 8 0,
      report 8 79, report 8 0, report 8 79, report 8 0, report 8 79, report 8 0, report 8 82]) \<and>
    map_option sm_sent (win_api_window_toLeft st) = Some (sm_sent st @ [report (buf_out st ! 1) 0, report 8 0, report 8 0,
      report 8 80, report 8 0, report 8 80, report 8 0, report 8 80, report 8 0, report 8 82])"
  unfolding window_min_reports [OF assms] to_right_reports [OF assms] to_left_reports [OF assms] by simp

lemma run_append: "mouse_run straight (ms @ ms') s = do {
    (rs, s1) \<leftarrow> mouse_run straight ms s; (rs', s2) \<leftarrow> mouse_run straight ms' s1; Some (rs @ rs', s2) }"
proof (induction ms arbitrary: s)
  case Nil
  then show ?case by (simp split: Option.bind_split)
next
  case (Cons m ms)
  show ?case
  proof (cases "mouse_capture straight True m s")
    case (Some r)
    obtain b m1 s1 where r: "r = (b, m1, s1)" by (cases r)
    show ?thesis using Some Cons [of s1] unfolding r by (cases "mouse_run straight ms s1") (auto split: Option.bind_split)
  qed simp
qed

text \<open>
  A short press of the right button. A press of one to five records is
  handed on as a click: when the button is released the two records with the button down and with
  nothing pressed go to the queue, the record of the release is kept back, and the next press
  starts a new track.
\<close>

theorem mouse_click:
  assumes "length (track s) = 200" "key_cnt s = 0" "key_state s = 0" "\<forall>m \<in> set ms. button m = 2"
    and "ms \<noteq> []" "length ms \<le> 5" "button m \<noteq> 2"
  shows "\<exists>s'. mouse_run straight (ms @ [m]) s = Some (held True ms @ [(False, \<lparr>button = 0, m_x = 0, m_y = 0, m_z = 0\<rparr>)], s') \<and>
    mq_commu s' = mq_commu s @ [mouse_mail (m\<lparr>button := 2\<rparr>), 11 # replicate 8 0] \<and>
    key_cnt s' = 0 \<and> key_state s' = 0 \<and> ms_out s' = ms_out s"
proof -
  have "tracking (0, 0) s" using assms(1,2) by (simp add: tracking_def)
  from run_held [OF this assms(4), of straight] obtain s1 where s1: "mouse_run straight ms s = Some (held True ms, s1)"
    "key_cnt s1 = length ms" "key_state s1 = 1" "mq_commu s1 = mq_commu s" "ms_out s1 = ms_out s"
    using assms(2,3,5,6) by (auto split: if_splits)
  have "mouse_capture straight True m s1 = Some (False, \<lparr>button = 0, m_x = 0, m_y = 0, m_z = 0\<rparr>,
      s1\<lparr>mq_commu := mq_commu s1 @ [mouse_mail (m\<lparr>button := 2\<rparr>), 11 # replicate 8 0], key_cnt := 0, key_state := 0\<rparr>)"
    using assms(6,7) s1(2,3) by (cases m) (simp add: mouse_capture_def mouse_ana_def mouse_mail_def le16_def eval_nat_numeral)
  then show ?thesis using s1 by (simp add: run_append)
qed

definition demo_mouse :: mouse_st where
  "demo_mouse = \<lparr>track = replicate 200 (0, 0), key_cnt = 0, key_state = 0, mq_commu = [], ms_out = \<lparr>buf_out = replicate 10 0, sm_sent = []\<rparr>\<rparr>"

theorem mouse_track_witness:
  "mouse_run (\<lambda>_. True) (replicate 201 \<lparr>button = 2, m_x = 1, m_y = 0, m_z = 0\<rparr>) demo_mouse = None"
  using mouse_track [of demo_mouse "replicate 201 \<lparr>button = 2, m_x = 1, m_y = 0, m_z = 0\<rparr>"]
  by (simp add: demo_mouse_def)

theorem window_shortcuts_witness:
  "map_option sm_sent (win_api_window_toLeft \<lparr>buf_out = replicate 10 0, sm_sent = []\<rparr>) = Some [report 0 0, report 8 0, report 8 0,
    report 8 80, report 8 0, report 8 80, report 8 0, report 8 80, report 8 0, report 8 82]"
  using window_shortcuts [of "\<lparr>buf_out = replicate 10 0, sm_sent = []\<rparr>"] by simp

theorem mouse_click_witness:
  "\<exists>s'. mouse_run (\<lambda>_. True) [\<lparr>button = 2, m_x = 0, m_y = 0, m_z = 0\<rparr>, \<lparr>button = 0, m_x = 3, m_y = 0, m_z = 0\<rparr>] demo_mouse =
      Some ([(False, \<lparr>button = 0, m_x = 0, m_y = 0, m_z = 0\<rparr>), (False, \<lparr>button = 0, m_x = 0, m_y = 0, m_z = 0\<rparr>)], s') \<and>
    mq_commu s' = [[11, 2, 0, 3, 0, 0, 0, 0, 0], 11 # replicate 8 0]"
  using mouse_click [of demo_mouse "[\<lparr>button = 2, m_x = 0, m_y = 0, m_z = 0\<rparr>]" "\<lparr>button = 0, m_x = 3, m_y = 0, m_z = 0\<rparr>"]
  by (auto simp: demo_mouse_def held_def mouse_mail_def le16_def)

end
