(* ===== verification/Lua_App.thy ===== *)
theory Lua_App
  imports Key_Handler Mouse_Gesture
begin

text \<open>
  The functions the firmware offers to Lua scripts (src/APP/lua_app.c). The interpreter is not part
  of the model: a call gets the list of its arguments and answers the numbers it pushes. A missing
  number reads as 0, as lua_tointeger documents; a missing string is a null pointer. Reading an
  argument of the other type is left to the interpreter and is None here.
\<close>

section \<open>Arguments\<close>

datatype lua_arg = LNum int | LStr "u8 list"

definition lua_tointeger :: "lua_arg list \<Rightarrow> nat \<Rightarrow> int option" where
  "lua_tointeger args i = (if i \<le> length args then (case args ! (i - 1) of LNum n \<Rightarrow> Some n | LStr _ \<Rightarrow> None) else Some 0)"

text \<open>The bytes of a string argument with its terminator.\<close>

definition lua_tostring :: "lua_arg list \<Rightarrow> nat \<Rightarrow> u8 list option" where
  "lua_tostring args i = (if i \<le> length args then (case args ! (i - 1) of LNum _ \<Rightarrow> None | LStr s \<Rightarrow> Some (s @ [0])) else None)"

section \<open>Flags and events\<close>

text \<open>Shifting by a negative amount or by 32 and more is undefined.\<close>

definition lua_flag_set :: "lua_arg list \<Rightarrow> app_st \<Rightarrow> app_st option" where
  "lua_flag_set args st = do {
     pos \<leftarrow> lua_tointeger args 1;
     v \<leftarrow> lua_tointeger args 2;
     (if pos < 0 \<or> 32 \<le> pos then None
      else let f = lua_flag st AND NOT (push_bit (nat pos) 1) in
        Some (st\<lparr>lua_flag := f OR push_bit (nat pos) (word_of_int v)\<rparr>)) }"

text \<open>wait_event pushes the ten bytes of the next message of mq_lua.\<close>

definition lua_wait_event :: "u8 list \<Rightarrow> int list option" where
  "lua_wait_event mail = forM [0..<10] (\<lambda>i out. do { b \<leftarrow> rd mail i; Some (out @ [uint b]) }) []"

text \<open>key_register: the fields of the hotkey the code leaves unset are never read.\<close>

definition lua_key_register :: "lua_arg list \<Rightarrow> app_st \<Rightarrow> app_st option" where
  "lua_key_register args st = do {
     ev \<leftarrow> lua_tointeger args 1;
     s2 \<leftarrow> lua_tostring args 2;
     c \<leftarrow> rd s2 0;
     k \<leftarrow> rd ascii2usb (unat c);
     s3 \<leftarrow> lua_tostring args 3;
     (_, f) \<leftarrow> filter_add_string (filter_Init\<lparr>filter_key := k\<rparr>) s3;
     p \<leftarrow> key_cap_add (cap_zero\<lparr>cap_filter := f, key_exe := lua_send_mail_fn, cap_flag := word_of_int ev\<rparr>) (pool st);
     Some (st\<lparr>pool := p\<rparr>) }"

section \<open>Sending reports\<close>

definition lua_mouse_send :: "lua_arg list \<Rightarrow> app_st \<Rightarrow> app_st option" where
  "lua_mouse_send args st = do {
     b \<leftarrow> lua_tointeger args 1; x \<leftarrow> lua_tointeger args 2; y \<leftarrow> lua_tointeger args 3; z \<leftarrow> lua_tointeger args 4;
     Some (emit [ToCommu (1 # le16 (word_of_int b) @ le16 (word_of_int x) @ le16 (word_of_int y) @ le16 (word_of_int z))] st) }"

text \<open>key_put_pure: mail is the uninitialised array of fifteen bytes.\<close>

definition lua_key_put_pure :: "u8 list \<Rightarrow> lua_arg list \<Rightarrow> app_st \<Rightarrow> app_st option" where
  "lua_key_put_pure mail args st = do {
     m0 \<leftarrow> wr mail 0 0;
     m1 \<leftarrow> forM [1..<length args + 1] (\<lambda>i m. do { v \<leftarrow> lua_tointeger args i; wr m i (word_of_int v) }) m0;
     (r, buf, st1) \<leftarrow> key_handle (drop 1 m1) st;
     (if r then do { m2 \<leftarrow> wr (take 1 m1 @ buf) 8 92; Some (emit [ToCommuWrite (take 9 m2)] st1) } else Some st1) }"

text \<open>The length of the string is counted up to 101.\<close>

function put_length :: "u8 list \<Rightarrow> nat \<Rightarrow> nat option" where
  "put_length s n = do { c \<leftarrow> rd s n;
     (if c \<noteq> 0 then (if 100 < n + 1 then Some (n + 1) else put_length s (n + 1)) else Some n) }"
  by pat_completeness auto
termination by (relation "measure (\<lambda>(s, n). 101 - n)") auto

declare put_length.simps [simp del]

definition lua_key_put :: "lua_arg list \<Rightarrow> app_st \<Rightarrow> app_st option" where
  "lua_key_put args st = do {
     s \<leftarrow> lua_tostring args 1;
     c0 \<leftarrow> rd s 0;
     _ \<leftarrow> rd ascii2usb (unat c0);
     n \<leftarrow> put_length s 0;
     us \<leftarrow> forM [0..<n] (\<lambda>i us. do { c \<leftarrow> rd s i; u \<leftarrow> rd ascii2usb (unat c); Some (us @ [ucast u :: u16]) }) [];
     o1 \<leftarrow> press_string_pure us n (out st);
     o2 \<leftarrow> buf_clear o1;
     Some (st\<lparr>out := o2\<rparr>) }"

section \<open>The distance sensor\<close>

text \<open>
  ultrasonic_read: pin n is the level of the echo pin at the n-th time it is read. The block behind
  the first while belongs to no loop, so the counter cnt in it is 1 and its limit is never reached.
\<close>

partial_function (option) wait_echo :: "(nat \<Rightarrow> bool) \<Rightarrow> nat \<Rightarrow> nat option" where
  "wait_echo pin n = (if \<not> pin n then wait_echo pin (n + 1) else Some (n + 1))"

function echo_time :: "(nat \<Rightarrow> bool) \<Rightarrow> nat \<Rightarrow> nat \<Rightarrow> nat" where
  "echo_time pin n t = (if pin n then (if 35000 < t + 1 then 0 else echo_time pin (n + 1) (t + 1)) else t)"
  by pat_completeness auto
termination by (relation "measure (\<lambda>(pin, n, t). 35001 - t)") auto

declare echo_time.simps [simp del]

definition ultrasonic_read :: "(nat \<Rightarrow> bool) \<Rightarrow> nat option" where
  "ultrasonic_read pin = do { n \<leftarrow> wait_echo pin 0; Some (if 14000 < (1 :: nat) then 0 else echo_time pin n 0) }"

section \<open>Lemmas\<close>

lemma single_bit: "(k :: u8) AND push_bit i 1 \<noteq> 0 \<and> k AND NOT (push_bit i 1) = 0 \<longleftrightarrow> k = push_bit i 1 \<and> i < 8"
proof
  assume a: "k AND push_bit i 1 \<noteq> 0 \<and> k AND NOT (push_bit i 1) = 0"
  then obtain n where n: "n < 8" "bit k n" "bit (push_bit i (1 :: u8)) n" by (auto simp: bit_eq_iff bit_and_iff)
  then have i: "n = i" by (simp add: bit_exp_iff)
  have "\<not> (bit k j \<and> \<not> bit (push_bit i (1 :: u8)) j)" for j
  proof
    assume j: "bit k j \<and> \<not> bit (push_bit i (1 :: u8)) j"
    then have "j < 8" using bit_imp_le_length [of k j] by simp
    with j have "bit (k AND NOT (push_bit i 1)) j" by (simp only: bit_and_iff bit_not_iff possible_bit_word) simp
    moreover have "k AND NOT (push_bit i 1) = 0" using a by (rule conjunct2)
    ultimately show False by (simp only: bit_0_eq bot_apply bot_bool_def)
  qed
  moreover have "\<not> bit (push_bit i (1 :: u8)) j" if "j \<noteq> i" for j using that by (simp add: bit_exp_iff)
  ultimately have "bit k j \<longleftrightarrow> bit (push_bit i (1 :: u8)) j" for j using n(2,3) unfolding i by metis
  then show "k = push_bit i 1 \<and> i < 8" using n i by (auto intro: bit_eqI)
next
  assume k: "k = push_bit i 1 \<and> i < 8"
  then have "bit (push_bit i (1 :: u8)) i" by (simp add: bit_exp_iff)
  then have "push_bit i (1 :: u8) \<noteq> 0" by (metis bit_0_eq bot_apply bot_bool_def)
  then show "k AND push_bit i 1 \<noteq> 0 \<and> k AND NOT (push_bit i 1) = 0" using k by simp
qed

lemma find_snoc: "find P (xs @ [x]) = (case find P xs of None \<Rightarrow> if P x then Some x else None | Some y \<Rightarrow> Some y)"
  by (induction xs) simp_all

lemma filter_add_string_single:
  assumes "control_key_index s = Some (int i)"
  shows "filter_add_string (filter_Init\<lparr>filter_key := k\<rparr>) s =
    Some (0, \<lparr>control_filter = push_bit i 1 # replicate 7 0, control_filter_cnt = 1, filter_key = k\<rparr>)"
  using assms by (simp add: filter_add_string_def filter_Init_def Let_def eval_nat_numeral)

lemma single_filter_matches:
  "cap_matches ctrl k (c\<lparr>cap_filter := \<lparr>control_filter = push_bit i 1 # replicate 7 0, control_filter_cnt = 1, filter_key = k'\<rparr>\<rparr>)
    \<longleftrightarrow> ctrl = push_bit i 1 \<and> i < 8 \<and> k = k'"
  using single_bit [of ctrl i] by (auto simp: cap_matches_def control_key_filt_def)


section \<open>Properties\<close>

text \<open>
  Property C19 (lua_hotkey_event): key_register and the keyboard thread together. When a script
  registers event number ev on the key of character c with one modifier, there is room in the pool,
  and no earlier hotkey matches, then a report of exactly that modifier and key, with no other claim
  on it, is consumed and puts ev on the script's queue.
\<close>

lemma key_register_pool:
  assumes wf: "app_wf st" and room: "length (hotkeys (pool st)) < 199"
    and name: "control_key_index (name @ [0]) = Some (int i)" and c: "unat c < 128"
  shows "\<exists>st' h. lua_key_register [LNum ev, LStr [c], LStr name] st = Some st' \<and> app_wf st' \<and>
    hotkeys (pool st') = hotkeys (pool st) @ [h] \<and> st'\<lparr>pool := pool st\<rparr> = st \<and>
    key_exe h = lua_send_mail_fn \<and> cap_flag h = word_of_int ev \<and>
    (\<forall>ctrl k. cap_matches ctrl k h \<longleftrightarrow> ctrl = push_bit i 1 \<and> i < 8 \<and> k = ascii2usb ! unat c)"
proof -
  let ?f = "\<lparr>control_filter = push_bit i 1 # replicate 7 0, control_filter_cnt = 1, filter_key = ascii2usb ! unat c\<rparr>"
  let ?h = "cap_zero\<lparr>cap_filter := ?f, key_exe := lua_send_mail_fn, cap_flag := word_of_int ev\<rparr>"
  have "pool_wf (pool st)" "key_cap_cnt (pool st) < 199" using wf room by (auto simp: app_wf_def hotkeys_def pool_wf_def)
  from key_cap_add_room [OF this, of ?h] obtain p where p: "key_cap_add ?h (pool st) = Some p" "pool_wf p"
    "hotkeys p = hotkeys (pool st) @ [cap_body ?h]" by blast
  have "rd ascii2usb (unat c) = Some (ascii2usb ! unat c)" using c by (simp add: ascii2usb_def)
  then have r: "lua_key_register [LNum ev, LStr [c], LStr name] st = Some (st\<lparr>pool := p\<rparr>)"
    using filter_add_string_single [OF name, of "ascii2usb ! unat c"] p(1)
    by (simp add: lua_key_register_def lua_tointeger_def lua_tostring_def cap_zero_def)
  have "app_wf (st\<lparr>pool := p\<rparr>)" using wf p by (simp add: app_wf_def filter_wf_def)
  moreover have "cap_matches ctrl k (cap_body ?h) \<longleftrightarrow> ctrl = push_bit i 1 \<and> i < 8 \<and> k = ascii2usb ! unat c" for ctrl k
    using single_filter_matches [where ctrl = ctrl and k = k and i = i and c = "cap_zero\<lparr>key_exe := lua_send_mail_fn, cap_flag := word_of_int ev\<rparr>"]
    by (simp add: cap_matches_def cap_zero_def)
  ultimately show ?thesis using r p by (intro exI [of _ "st\<lparr>pool := p\<rparr>"] exI [of _ "cap_body ?h"]) simp
qed

theorem lua_hotkey_event:
  assumes "app_wf st" "length (hotkeys (pool st)) < 199"
    and "control_key_index (name @ [0]) = Some (int i)" "unat c < 128"
    and "hotkey_flag st = 0" "lua_flag st AND 1 = 0" "\<not> mb_app st"
    and "3 \<le> length buf" "key_process (key_changetable st) (buf ! 0) = Some (push_bit i 1)" "i < 8"
    and "buf ! 2 = ascii2usb ! unat c" "find (cap_matches (push_bit i 1) (buf ! 2)) (hotkeys (pool st)) = None"
  shows "\<exists>st1 st2. lua_key_register [LNum ev, LStr [c], LStr name] st = Some st1 \<and>
    key_handle buf st1 = Some (False, buf[0 := push_bit i 1], st2) \<and> events st2 = events st @ [ToLuaFlag (word_of_int ev)]"
proof -
  obtain st1 h where r: "lua_key_register [LNum ev, LStr [c], LStr name] st = Some st1" "app_wf st1"
    "hotkeys (pool st1) = hotkeys (pool st) @ [h]" "st1\<lparr>pool := pool st\<rparr> = st" "key_exe h = lua_send_mail_fn"
    "cap_flag h = word_of_int ev" "\<forall>ctrl k. cap_matches ctrl k h \<longleftrightarrow> ctrl = push_bit i 1 \<and> i < 8 \<and> k = ascii2usb ! unat c"
    using key_register_pool [OF assms(1-4), of ev] by blast
  have same: "hotkey_flag st1 = hotkey_flag st" "lua_flag st1 = lua_flag st" "mb_app st1 = mb_app st"
    "key_changetable st1 = key_changetable st" "events st1 = events st"
    by (subst r(4) [symmetric], simp)+
  have "find (cap_matches (push_bit i 1) (buf ! 2)) (hotkeys (pool st1)) = Some h"
    using assms(10-12) r(3,7) by (simp add: find_snoc)
  then have "key_handle buf st1 = do { st' \<leftarrow> run_key_exe h st1;
      Some (False, buf[0 := push_bit i 1], st'\<lparr>hotkey_flag := 1, hotkey_value := buf ! 2\<rparr>) }"
    using key_handle_hit [OF r(2)] same assms(5-9) by simp
  then show ?thesis using r(1,5,6) same(5) by (auto simp: run_key_exe_def)
qed


theorem lua_hotkey_event_witness:
  "\<exists>p st1 st2. lua_key_register [LNum 7, LStr [100], LStr (bytes ''lalt'')] (app_start p) = Some st1 \<and>
     key_handle [4, 0, 7, 0, 0, 0, 0, 0, 0] st1 = Some (False, [4, 0, 7, 0, 0, 0, 0, 0, 0], st2) \<and> events st2 = [ToLuaFlag 7]"
proof -
  obtain p where p: "app_wf (app_start p)" "hotkeys p = [demo_cap]" using demo_pool by blast
  have "control_key_index (bytes ''lalt'' @ [0]) = Some 2" by code_simp
  moreover have "key_process [0, 1, 2, 3, 4, 5, 6, 7] 4 = Some 4" by code_simp
  moreover have "\<not> cap_matches 4 7 demo_cap"
    by (simp add: cap_matches_def demo_cap_def filter_Init_def)
  moreover have "ascii2usb ! 100 = 7" by code_simp
  ultimately show ?thesis
    using lua_hotkey_event [OF p(1), of "bytes ''lalt''" 2 100 "[4, 0, 7, 0, 0, 0, 0, 0, 0]" 7] p(2)
    by (fastforce simp: app_start_def)
qed

text \<open>The character on the same key without shift, which is what the codes of key_put type.\<close>

definition unshifted :: "nat \<Rightarrow> u8" where
  "unshifted c = the (decode_key False (ascii2usb ! c))"

definition unshifted_ok :: "nat \<Rightarrow> bool" where
  "unshifted_ok c \<longleftrightarrow> ascii2usb ! c \<notin> {0, 1, 2, 3} \<and> decode_key False (ascii2usb ! c) \<noteq> None"

lemma unshifted_ok_all: "filter (\<lambda>c. typable c \<and> \<not> unshifted_ok c) [0..<128] = []"
  by code_simp

lemma unshifted_types: "typable c \<Longrightarrow> types_char (ucast (ascii2usb ! c)) (unshifted c)"
proof -
  assume t: "typable c"
  then have "c \<in> set [0..<128]" by (simp add: typable_def)
  with t unshifted_ok_all have "unshifted_ok c" by (metis (mono_tags, lifting) filter_empty_conv)
  moreover have "\<not> bit (ucast (ascii2usb ! c) :: u16) 8" "\<not> bit (ucast (ascii2usb ! c) :: u16) 9"
    "\<not> bit (ucast (ascii2usb ! c) :: u16) 10"
    by (auto simp: bit_simps dest: bit_imp_le_length)
  moreover have "ucast (ucast (ascii2usb ! c) :: u16) = ascii2usb ! c"
    by (rule bit_word_eqI) (simp add: bit_simps)
  ultimately show ?thesis
    by (auto simp: types_char_def plain_code_def unshifted_ok_def unshifted_def)
qed

lemma put_length_spec:
  assumes "0 \<notin> set s" "length s \<le> 100" "i \<le> length s"
  shows "put_length (s @ [0]) i = Some (length s)"
  using assms(3)
proof (induction "length s - i" arbitrary: i)
  case 0
  then have "rd (s @ [0]) i = Some 0" by (simp add: rd_def nth_append)
  then show ?case using 0 by (subst put_length.simps) simp
next
  case (Suc d)
  then have i: "i < length s" by simp
  then have "rd (s @ [0]) i = Some (s ! i)" by (simp add: rd_def nth_append)
  moreover have "s ! i \<noteq> 0" using assms(1) nth_mem [OF i] by metis
  ultimately have "rd (s @ [0]) i = Some (s ! i)" "s ! i \<noteq> 0" by simp_all
  then show ?case using Suc assms(2) by (subst put_length.simps) simp
qed

lemma put_codes:
  assumes "\<forall>c \<in> set s. c < 128" "n \<le> length s"
  shows "forM [0..<n] (\<lambda>i us. do { c \<leftarrow> rd (map of_nat s @ [0]) i; u \<leftarrow> rd ascii2usb (unat (c :: u8)); Some (us @ [ucast u :: u16]) }) []
    = Some (map (\<lambda>c. ucast (ascii2usb ! c)) (take n s))"
  using assms(2)
proof (induction n)
  case (Suc n)
  then have "s ! n < 128" using assms(1) by simp
  then have "rd ascii2usb (unat (of_nat (s ! n) :: u8)) = Some (ascii2usb ! (s ! n))"
    by (simp add: ascii2usb_def unat_of_nat)
  then show ?case using Suc by (simp add: forM_append rd_def nth_append take_Suc_conv_app_nth)
qed simp

lemma decode_reports_append:
  "decode_reports (xs @ ys) st = do { (o1, st1) \<leftarrow> decode_reports xs st; (o2, st2) \<leftarrow> decode_reports ys st1; Some (o1 @ o2, st2) }"
  by (induction xs arbitrary: st) (auto simp: split_beta split: Option.bind_splits)

text \<open>
  Property C20 (lua_key_put_types): key_put types on the keys of its string, without shift. For a
  string of at most 100 typable characters the reports sent decode, whatever the decoder saw before,
  to the characters that are on the same keys without shift, in order, and in the end no key is left
  pressed. So a string without shifted characters arrives unchanged.
\<close>

theorem lua_key_put_types:
  assumes "\<forall>c \<in> set s. typable c" "length s \<le> 100" "length (buf_out (app_st.out st)) = 10" "length (keys kb) = 6"
  shows "\<exists>st' rs kb'. lua_key_put [LStr (map of_nat s)] st = Some st' \<and>
    sm_sent (app_st.out st') = sm_sent (app_st.out st) @ rs \<and>
    decode_reports rs kb = Some (map unshifted s, kb') \<and> no_keys kb'"
proof -
  let ?o = "app_st.out st" and ?us = "map (\<lambda>c. ucast (ascii2usb ! c) :: u16) s" and ?m = "map of_nat s :: u8 list"
  have lt: "\<forall>c \<in> set s. c < 128" using assms(1) by (auto simp: typable_def)
  have nz: "0 \<notin> set ?m"
  proof
    assume "0 \<in> set ?m"
    then obtain c where c: "c \<in> set s" "(of_nat c :: u8) = 0" by auto
    moreover have "unat (of_nat c :: u8) = c" using lt c(1) by (auto simp: unat_of_nat)
    ultimately have "c = 0" by simp
    moreover have "ascii2usb ! 0 = 0" by code_simp
    ultimately show False using c assms(1) by (auto simp: typable_def)
  qed
  have l2: "list_all2 types_char ?us (map unshifted s)"
    using assms(1) unshifted_types by (auto simp: list.rel_map intro!: list.rel_refl_strong)
  then have plain: "\<forall>u \<in> set ?us. plain_code u"
    by (auto simp: list_all2_conv_all_nth in_set_conv_nth types_char_def)
  obtain b where b: "press_string_pure ?us (length ?us) ?o = Some (?o\<lparr>buf_out := b,
     sm_sent := sm_sent ?o @ report (buf_out ?o ! 1) 0 # type_reports ?us\<rparr>)"
    using press_string_reports [OF plain assms(3)] by blast
  let ?o1 = "?o\<lparr>buf_out := b, sm_sent := sm_sent ?o @ report (buf_out ?o ! 1) 0 # type_reports ?us\<rparr>"
  have "length b = 10" using press_string_total [OF assms(3), of "length ?us" ?us] b by simp
  then have c: "buf_clear ?o1 = Some (?o1\<lparr>buf_out := out_clear (b ! 1), sm_sent := sm_sent ?o1 @ [report (b ! 1) 0]\<rparr>)"
    using buf_clear_out [of ?o1] by simp
  have first: "\<exists>c0 u. rd (?m @ [0]) 0 = Some c0 \<and> rd ascii2usb (unat c0) = Some u"
  proof (cases s)
    case (Cons x xs)
    then show ?thesis using lt by (auto simp: rd_def ascii2usb_def unat_of_nat)
  qed (simp add: ascii2usb_def)
  obtain k1 where k1: "KEYBRD_Decode (report (buf_out ?o ! 1) 0) kb = Some ([], k1)" "no_keys k1"
    using KEYBRD_Decode_release [OF assms(4)] by blast
  obtain k2 where k2: "decode_reports (type_reports ?us) k1 = Some (map unshifted s, k2)" "length (keys k2) = 6"
    using decode_type_reports [OF l2 k1(2)] by blast
  obtain k3 where k3: "KEYBRD_Decode (report (b ! 1) 0) k2 = Some ([], k3)" "no_keys k3"
    using KEYBRD_Decode_release [OF k2(2)] by blast
  let ?rs = "report (buf_out ?o ! 1) 0 # type_reports ?us @ [report (b ! 1) 0]"
  have "decode_reports ?rs kb = Some (map unshifted s, k3)"
    using k1 k2 k3 by (simp add: decode_reports_append)
  moreover have "lua_key_put [LStr ?m] st =
      Some (st\<lparr>out := ?o1\<lparr>buf_out := out_clear (b ! 1), sm_sent := sm_sent ?o1 @ [report (b ! 1) 0]\<rparr>\<rparr>)"
    using first b c put_length_spec [OF nz, of 0] put_codes [OF lt order_refl] assms(2)
    by (auto simp: lua_key_put_def lua_tostring_def)
  ultimately show ?thesis using k3(2) by (intro exI conjI) auto
qed


theorem lua_key_put_types_witness:
  "\<exists>p st' rs kb'. lua_key_put [LStr [72, 105, 55]] (app_start p) = Some st' \<and>
    decode_reports rs kbd_start = Some ([104, 105, 55], kb') \<and> sm_sent (app_st.out st') = rs"
proof -
  obtain p where p: "app_wf (app_start p)" using demo_pool by blast
  have "\<forall>c \<in> set [72, 105, 55]. typable c" by (simp add: typable_def ascii2usb_def)
  moreover have "map unshifted [72, 105, 55] = [104, 105, 55]" by code_simp
  ultimately show ?thesis
    using lua_key_put_types [of "[72, 105, 55]" "app_start p" kbd_start] p
    by (force simp: app_start_def kbd_start_def)
qed

text \<open>When the echo pin goes high.\<close>

lemma wait_echo_Some: "(\<forall>i < k. \<not> pin (n + i)) \<Longrightarrow> pin (n + k) \<Longrightarrow> wait_echo pin n = Some (n + k + 1)"
proof (induction k arbitrary: n)
  case (Suc k)
  have "\<not> pin n" using Suc.prems(1) by (metis add_0_right zero_less_Suc)
  moreover have "wait_echo pin (n + 1) = Some (n + 1 + k + 1)"
    using Suc.prems by (intro Suc.IH) (auto dest: spec [of _ "Suc _"])
  ultimately show ?case by (subst wait_echo.simps) simp
qed (subst wait_echo.simps, simp)

lemma wait_echo_high:
  assumes "wait_echo pin n = Some m"
  shows "\<exists>k \<ge> n. pin k"
  using assms
proof (rule wait_echo.raw_induct [rotated, where P = "\<lambda>pin n m. \<exists>k \<ge> n. pin k"])
  fix wait :: "(nat \<Rightarrow> bool) \<Rightarrow> nat \<Rightarrow> nat option" and pin :: "nat \<Rightarrow> bool" and n m :: nat
  assume IH: "\<And>pin n m. wait pin n = Some m \<Longrightarrow> \<exists>k \<ge> n. pin k"
    and step: "(if \<not> pin n then wait pin (n + 1) else Some (n + 1)) = Some m"
  show "\<exists>k \<ge> n. pin k"
  proof (cases "pin n")
    case False
    then obtain k where "k \<ge> n + 1" "pin k" using IH [of pin "n + 1" m] step by auto
    then show ?thesis by (intro exI [of _ k]) simp
  qed auto
qed

lemma echo_time_high:
  "t \<le> 35000 \<Longrightarrow> (\<forall>i < k. pin (n + i)) \<Longrightarrow> \<not> pin (n + k) \<Longrightarrow> echo_time pin n t = (if t + k \<le> 35000 then t + k else 0)"
proof (induction k arbitrary: n t)
  case (Suc k)
  have p: "pin n" using Suc.prems(2) by (metis add_0_right zero_less_Suc)
  show ?case
  proof (cases "35000 < t + 1")
    case True
    then show ?thesis using p by (subst echo_time.simps) simp
  next
    case False
    then have "echo_time pin (n + 1) (t + 1) = (if t + 1 + k \<le> 35000 then t + 1 + k else 0)"
      using Suc.prems by (intro Suc.IH) (auto dest: spec [of _ "Suc _"])
    then show ?thesis using p False by (subst echo_time.simps) simp
  qed
qed (subst echo_time.simps, simp)

text \<open>
  Ultrasonic_read returns exactly when the echo pin goes high at
  some time: the limit of 14000 rounds in the code does not end the waiting. If the pin is high for
  h > 0 readings from its first high one on and then low, the answer is h - 1, and 0 when that is
  above 35000.
\<close>

theorem ultrasonic_returns:
  "(ultrasonic_read pin \<noteq> None \<longleftrightarrow> (\<exists>n. pin n)) \<and>
   (\<forall>n h. (\<forall>i < n. \<not> pin i) \<and> 0 < h \<and> (\<forall>i < h. pin (n + i)) \<and> \<not> pin (n + h) \<longrightarrow>
      ultrasonic_read pin = Some (if h - 1 \<le> 35000 then h - 1 else 0))"
proof (intro conjI allI impI)
  have "wait_echo pin 0 \<noteq> None \<longleftrightarrow> (\<exists>n. pin n)"
  proof
    assume "\<exists>n. pin n"
    then obtain n where "pin n" "\<forall>i < n. \<not> pin i" using exists_least_iff [of pin] by auto
    then show "wait_echo pin 0 \<noteq> None" using wait_echo_Some [of n pin 0] by simp
  qed (auto dest: wait_echo_high)
  then show "ultrasonic_read pin \<noteq> None \<longleftrightarrow> (\<exists>n. pin n)" by (auto simp: ultrasonic_read_def)
next
  fix n h
  assume a: "(\<forall>i < n. \<not> pin i) \<and> 0 < h \<and> (\<forall>i < h. pin (n + i)) \<and> \<not> pin (n + h)"
  then have "pin n" by (metis add_0_right)
  then have "wait_echo pin 0 = Some (n + 1)" using a wait_echo_Some [of n pin 0] by simp
  moreover have "echo_time pin (n + 1) 0 = (if 0 + (h - 1) \<le> 35000 then 0 + (h - 1) else 0)"
  proof (intro echo_time_high allI impI)
    fix i assume "i < h - 1"
    then have "pin (n + (i + 1))" using a by (metis less_diff_conv)
    then show "pin (n + 1 + i)" by (simp add: ac_simps)
  qed (use a in simp_all)
  ultimately show "ultrasonic_read pin = Some (if h - 1 \<le> 35000 then h - 1 else 0)"
    by (simp add: ultrasonic_read_def)
qed

theorem ultrasonic_returns_witness:
  "ultrasonic_read (\<lambda>n. 3 \<le> n \<and> n < 8) = Some 4"
  using ultrasonic_returns [of "\<lambda>n. 3 \<le> n \<and> n < 8", THEN conjunct2, rule_format, of 3 5] by simp


text \<open>
  Setting a flag to 0 or 1 sets exactly that bit of the flags; a larger value spills into the
  flags above it.
\<close>

theorem lua_flag_set_bits:
  assumes "p < 32" "v \<in> {0, 1}"
  shows "\<exists>st'. lua_flag_set [LNum (int p), LNum v] st = Some st' \<and>
    (\<forall>n. bit (lua_flag st') n = (if n = p then v = 1 else bit (lua_flag st) n))"
proof -
  have "bit (lua_flag st AND NOT (push_bit p 1) OR push_bit p (word_of_int v)) n = (if n = p then v = 1 else bit (lua_flag st) n)" for n
    using assms by (auto simp: bit_or_iff bit_and_iff bit_not_iff bit_exp_iff dest: bit_imp_le_length)
  then show ?thesis using assms(1) by (simp add: lua_flag_set_def lua_tointeger_def)
qed

theorem lua_flag_set_bits_witness:
  "\<exists>st'. lua_flag_set [LNum 1, LNum 1] (app_start cap_pool_start) = Some st' \<and> bit (lua_flag st') 1 \<and> \<not> bit (lua_flag st') 0"
  using lua_flag_set_bits [of 1 1 "app_start cap_pool_start"] by (auto simp: app_start_def)

end
