(* ===== verification/Oled.thy ===== *)
theory Oled
  imports Cash_Prelude
begin

text \<open>
  The display: the driver of src/drivers/oled.c with its frame buffer, the text window cmd of
  src/APP/app_interface.c and the bitmaps of src/APP/draw_bmp.c. What is clocked out to the panel
  is a list of command and data bytes; the font F8X16 (src/drivers/ziku.h, glyphs of 16 bytes from
  the blank on) and the reading of files are parameters. None is an access outside an array.
\<close>

section \<open>The frame buffer\<close>

datatype panel_byte = Cmd u8 | Dat u8

record oled_st =
  OLED_buf :: "u8 list list"
  OLED_mode :: u8
  panel :: "panel_byte list"

definition OLED_start :: oled_st where
  "OLED_start = \<lparr>OLED_buf = replicate 8 (replicate 128 0), OLED_mode = 0, panel = []\<rparr>"

definition OLED_WrCmd :: "u8 \<Rightarrow> oled_st \<Rightarrow> oled_st" where
  "OLED_WrCmd c s = s\<lparr>panel := panel s @ [Cmd c]\<rparr>"

definition OLED_WrDat :: "u8 \<Rightarrow> oled_st \<Rightarrow> oled_st" where
  "OLED_WrDat d s = s\<lparr>panel := panel s @ [Dat d]\<rparr>"

definition OLED_Set_Pos :: "u8 \<Rightarrow> u8 \<Rightarrow> oled_st \<Rightarrow> oled_st" where
  "OLED_Set_Pos x y s = OLED_WrCmd ((x AND 0x0f) OR 0x01)
     (OLED_WrCmd (drop_bit 4 (x AND 0xf0) OR 0x10) (OLED_WrCmd (0xb0 + y) s))"

text \<open>The reset of the panel is left out.\<close>

definition OLED_Init :: "oled_st \<Rightarrow> oled_st" where
  "OLED_Init s = OLED_Set_Pos 0 0 (fold OLED_WrCmd
     [0xae, 0x00, 0x10, 0x40, 0x81, 0xcf, 0xa1, 0xc8, 0xa6, 0xa8, 0x3f, 0xd3, 0x00, 0xd5, 0x80, 0xd9, 0xf1,
      0xda, 0x12, 0xdb, 0x40, 0x20, 0x02, 0x8d, 0x14, 0xa4, 0xa6, 0xaf] s)"

definition OLED_Flush :: "oled_st \<Rightarrow> oled_st option" where
  "OLED_Flush s = forM [0..<8] (\<lambda>y s. do {
     row \<leftarrow> rd (OLED_buf s) y;
     forM [0..<128] (\<lambda>x s. do { d \<leftarrow> rd row x; Some (OLED_WrDat d s) })
       (OLED_WrCmd 0x10 (OLED_WrCmd 0x01 (OLED_WrCmd (0xb0 + of_nat y) s))) }) s"

definition OLED_CLS :: "oled_st \<Rightarrow> oled_st option" where
  "OLED_CLS s = do {
     let s1 = fold (\<lambda>y s. fold (\<lambda>x. OLED_WrDat 0) [0..<128]
       (OLED_WrCmd 0x10 (OLED_WrCmd 0x01 (OLED_WrCmd (0xb0 + of_nat y) s)))) [0..<8] s;
     b \<leftarrow> forM [0..<8] (\<lambda>x b. forM [0..<128] (\<lambda>y b. do { row \<leftarrow> rd b x; row' \<leftarrow> wr row y 0; wr b x row' }) b) (OLED_buf s1);
     Some (s1\<lparr>OLED_buf := b\<rparr>) }"

text \<open>OLED_P8x16Str: two rows of eight columns per character; it ends at the right edge.\<close>

function OLED_P8x16Str :: "u8 list \<Rightarrow> u8 \<Rightarrow> u8 \<Rightarrow> u8 list \<Rightarrow> oled_st \<Rightarrow> oled_st option" where
  "OLED_P8x16Str font x y ch s = do {
     c0 \<leftarrow> rd ch 0;
     (if c0 = 0 then Some s
      else if 120 < x then Some s
      else do {
        let c = unat (c0 - 32);
        s1 \<leftarrow> forM [0..<8] (\<lambda>i s. do { d \<leftarrow> rd font (c * 16 + i); Some (OLED_WrDat d s) }) (OLED_Set_Pos x y s);
        s2 \<leftarrow> forM [0..<8] (\<lambda>i s. do { d \<leftarrow> rd font (c * 16 + i + 8); Some (OLED_WrDat d s) }) (OLED_Set_Pos x (y + 1) s1);
        OLED_P8x16Str font (x + 8) y (tl ch) s2 }) }"
  by pat_completeness auto
termination by (relation "measure (\<lambda>(font, x, y, ch, s). length ch)") (auto simp: rd_def split: if_splits)

declare OLED_P8x16Str.simps [simp del]

text \<open>One pixel of rt_OLED_write: bit i of the buffer, inverted in mode 1, at column x + i.\<close>

definition put_pixel :: "u8 \<Rightarrow> u8 list \<Rightarrow> nat \<Rightarrow> nat \<Rightarrow> nat \<Rightarrow> u8 list list \<Rightarrow> u8 list list option" where
  "put_pixel mode buffer x y i b =
     (if x + i < 127 then do {
        row \<leftarrow> rd b (y div 8);
        v \<leftarrow> rd row (x + i);
        d \<leftarrow> rd buffer (i div 8);
        let lit = (if mode = 1 then \<not> bit d (7 - i mod 8) else bit d (7 - i mod 8));
        row' \<leftarrow> wr row (x + i) (if lit then v OR push_bit (y mod 8) 1 else v AND NOT (push_bit (y mod 8) 1));
        wr b (y div 8) row' }
      else Some b)"

text \<open>
  rt_OLED_write for a position that is not negative. The counter is 16 bits wide, so a size of 65536
  and more is never reached.
\<close>

definition rt_OLED_write :: "u8 list \<Rightarrow> nat \<Rightarrow> u8 list \<Rightarrow> nat \<Rightarrow> oled_st \<Rightarrow> oled_st option" where
  "rt_OLED_write font pos buffer sz s =
     (if OLED_mode s = 0 then OLED_P8x16Str font (push_bit 3 (of_nat (pos div 256))) (of_nat (pos mod 256)) buffer s
      else if OLED_mode s = 1 \<or> OLED_mode s = 2 then
        if 65536 \<le> sz then None
        else do {
          b \<leftarrow> forM [0..<sz] (put_pixel (OLED_mode s) buffer (pos mod 128) (pos div 128 mod 256)) (OLED_buf s);
          Some (s\<lparr>OLED_buf := b\<rparr>) }
      else Some s)"

definition rt_OLED_control :: "u8 \<Rightarrow> oled_st \<Rightarrow> oled_st option" where
  "rt_OLED_control cmd s =
     (if cmd = 0 then OLED_CLS s else if cmd = 1 then OLED_Flush s
      else if cmd = 2 then Some (s\<lparr>OLED_mode := 0\<rparr>) else if cmd = 3 then Some (s\<lparr>OLED_mode := 1\<rparr>)
      else if cmd = 4 then Some (s\<lparr>OLED_mode := 2\<rparr>) else Some s)"

section \<open>The text window\<close>

text \<open>
  cmd_line of src/APP/app_interface.c: four lines of sixteen characters, the static array OLED_buf
  of that function and its count of lines; from the fifth text on the window scrolls.
\<close>

record cmd_st =
  cmd_buf :: "u8 list"
  line_cnt :: u32
  cmd_oled :: oled_st

fun cmd_length :: "u8 list \<Rightarrow> nat \<Rightarrow> nat option" where
  "cmd_length [] n = None"
| "cmd_length (c # cs) n = (if c = 0 then Some n else if n + 1 = 16 then Some 16 else cmd_length cs (n + 1))"

definition cmd_line :: "u8 list \<Rightarrow> u8 list \<Rightarrow> cmd_st \<Rightarrow> cmd_st option" where
  "cmd_line font content s = do {
     n \<leftarrow> cmd_length content 0;
     b \<leftarrow> (if line_cnt s < 4
       then forM [0..<n] (\<lambda>j b. do { c \<leftarrow> rd content j; wr b (unat (push_bit 4 (line_cnt s)) + j) c }) (cmd_buf s)
       else do {
         b1 \<leftarrow> forM [0..<3] (\<lambda>i b. forM [0..<16] (\<lambda>j b. do { c \<leftarrow> rd b ((i + 1) * 16 + j); wr b (i * 16 + j) c }) b) (cmd_buf s);
         b2 \<leftarrow> forM [0..<16] (\<lambda>i b. wr b (48 + i) 0) b1;
         forM [0..<n] (\<lambda>i b. do { c \<leftarrow> rd content i; wr b (48 + i) c }) b2 });
     o1 \<leftarrow> rt_OLED_control 0 (cmd_oled s);
     o2 \<leftarrow> forM [0..<4] (\<lambda>i. rt_OLED_write font (i * 2) (drop (i * 16) b) 16) o1;
     Some (s\<lparr>cmd_buf := b, line_cnt := line_cnt s + 1, cmd_oled := o2\<rparr>) }"

section \<open>Bitmaps\<close>

definition le32 :: "u8 list \<Rightarrow> nat \<Rightarrow> u32 option" where
  "le32 b i = do { b0 \<leftarrow> rd b i; b1 \<leftarrow> rd b (i + 1); b2 \<leftarrow> rd b (i + 2); b3 \<leftarrow> rd b (i + 3);
     Some (ucast b0 OR push_bit 8 (ucast b1) OR push_bit 16 (ucast b2) OR push_bit 24 (ucast b3)) }"

definition num_change :: "u32 \<Rightarrow> u32" where
  "num_change n = push_bit 24 (n AND 0xff) OR push_bit 8 (n AND 0xff00) OR drop_bit 8 (n AND 0xff0000)
     OR drop_bit 24 (n AND 0xff000000)"

text \<open>
  draw_bmp: file is what opening and reading the file gives, read_buf the buffer of 5000 bytes.
  The position of a row is computed in 32 bits and read as a signed number.
\<close>

definition bmp_pos :: "bool \<Rightarrow> u16 \<Rightarrow> u16 \<Rightarrow> u32 \<Rightarrow> int" where
  "bmp_pos orientation x y i =
     sint (if \<not> orientation then push_bit 7 (63 - (ucast y + i)) + ucast x else push_bit 7 (ucast y + i) + ucast x :: u32)"

definition bmp_stride :: "u32 \<Rightarrow> u32" where
  "bmp_stride w = w div 32 * 4 + of_bool (0 < w mod 32) * 4"

definition bmp_row :: "u8 list \<Rightarrow> u8 list \<Rightarrow> bool \<Rightarrow> u16 \<Rightarrow> u16 \<Rightarrow> u32 \<Rightarrow> nat \<Rightarrow> oled_st \<Rightarrow> oled_st option" where
  "bmp_row font rb orientation x y w i s = (let pos = bmp_pos orientation x y (of_nat i) in
     if 0 \<le> pos \<and> pos \<le> 128 * 64 - 1
     then rt_OLED_write font (nat pos) (drop (unat (0x3e + bmp_stride w * of_nat i)) rb) (unat w) s
     else Some s)"

definition draw_bmp :: "u8 list \<Rightarrow> bool \<Rightarrow> u8 list option \<Rightarrow> u16 \<Rightarrow> u16 \<Rightarrow> u8 list \<Rightarrow> oled_st \<Rightarrow> (int \<times> u8 list \<times> oled_st) option" where
  "draw_bmp font orientation file x y0 read_buf s = (let y = 63 - y0 in
     case file of
       None \<Rightarrow> Some (-1, read_buf, s)
     | Some bs \<Rightarrow> do {
         rb \<leftarrow> memcpy_at read_buf 0 bs;
         w \<leftarrow> le32 rb 18;
         h \<leftarrow> le32 rb 22;
         color1 \<leftarrow> le32 rb 0x36;
         s1 \<leftarrow> rt_OLED_control (if 0xffff < color1 then 4 else 3) s;
         s2 \<leftarrow> forM [0..<unat h] (bmp_row font rb orientation x y w) s1;
         s3 \<leftarrow> rt_OLED_control 1 s2;
         s4 \<leftarrow> rt_OLED_control 2 s3;
         Some (0, rb, s4) })"

section \<open>Pixels\<close>

definition fb_wf :: "u8 list list \<Rightarrow> bool" where
  "fb_wf b \<longleftrightarrow> length b = 8 \<and> (\<forall>row \<in> set b. length row = 128)"

definition pixel :: "u8 list list \<Rightarrow> nat \<Rightarrow> nat \<Rightarrow> bool" where
  "pixel b px py = bit (b ! (py div 8) ! px) (py mod 8)"

lemma fb_wf_row: "fb_wf b \<Longrightarrow> k < 8 \<Longrightarrow> length (b ! k) = 128"
  by (simp add: fb_wf_def)

lemma fb_wf_update: "fb_wf b \<Longrightarrow> length row = 128 \<Longrightarrow> fb_wf (b[k := row])"
  by (auto simp: fb_wf_def dest: subsetD [OF set_update_subset_insert])

lemma set_bit_bit: "k < 8 \<Longrightarrow> n < 8 \<Longrightarrow>
  bit (if l then v OR push_bit k 1 else v AND NOT (push_bit k (1 :: u8))) n = (if n = k then l else bit v n)"
  by (auto simp: bit_or_iff bit_and_iff bit_not_iff bit_exp_iff)

text \<open>The bit of a row of pixels that is shown at column i of it.\<close>

definition lit :: "u8 \<Rightarrow> u8 list \<Rightarrow> nat \<Rightarrow> bool" where
  "lit mode buffer i = (bit (buffer ! (i div 8)) (7 - i mod 8) \<noteq> (mode = 1))"

lemma put_pixel_spec:
  assumes wf: "fb_wf b" and y: "y < 64" and i: "i div 8 < length buffer"
  shows "\<exists>b'. put_pixel mode buffer x y i b = Some b' \<and> fb_wf b' \<and>
    (\<forall>px < 128. \<forall>py < 64. pixel b' px py = (if px = x + i \<and> px < 127 \<and> py = y then lit mode buffer i else pixel b px py))"
proof (cases "x + i < 127")
  case True
  let ?k = "y div 8"
  have k: "?k < 8" "?k < length b" "x + i < length (b ! ?k)" using wf y True fb_wf_row [OF wf, of ?k] by (auto simp: fb_wf_def)
  let ?v = "b ! ?k ! (x + i)"
  let ?w = "if lit mode buffer i then ?v OR push_bit (y mod 8) 1 else ?v AND NOT (push_bit (y mod 8) 1)"
  let ?b = "b[?k := (b ! ?k)[x + i := ?w]]"
  have "put_pixel mode buffer x y i b = Some ?b"
    using True k i by (auto simp: put_pixel_def lit_def Let_def)
  moreover have "fb_wf ?b" using fb_wf_update [OF wf] fb_wf_row [OF wf k(1)] by simp
  moreover have "pixel ?b px py = (if px = x + i \<and> px < 127 \<and> py = y then lit mode buffer i else pixel b px py)"
    if "px < 128" "py < 64" for px py
  proof (cases "py div 8 = ?k \<and> px = x + i")
    case t: True
    have "bit ?w (py mod 8) = (if py mod 8 = y mod 8 then lit mode buffer i else bit ?v (py mod 8))"
      by (rule set_bit_bit) simp_all
    moreover have "py = y \<longleftrightarrow> py mod 8 = y mod 8" using t by (metis div_mult_mod_eq)
    moreover have "?b ! (py div 8) ! px = ?w" using t k by simp
    ultimately show ?thesis using t True by (simp add: pixel_def)
  next
    case False
    then show ?thesis using k by (auto simp: pixel_def nth_list_update)
  qed
  ultimately show ?thesis by blast
qed (use wf in \<open>auto simp: put_pixel_def\<close>)

lemma put_pixels_spec:
  assumes wf: "fb_wf b" and y: "y < 64" and n: "n \<le> 8 * length buffer"
  shows "\<exists>b'. forM [0..<n] (put_pixel mode buffer x y) b = Some b' \<and> fb_wf b' \<and>
    (\<forall>px < 128. \<forall>py < 64. pixel b' px py =
      (if x \<le> px \<and> px < x + n \<and> px < 127 \<and> py = y then lit mode buffer (px - x) else pixel b px py))"
  using n
proof (induction n)
  case 0
  then show ?case using wf by auto
next
  case (Suc n)
  then obtain b1 where b1: "forM [0..<n] (put_pixel mode buffer x y) b = Some b1" "fb_wf b1"
    "\<forall>px < 128. \<forall>py < 64. pixel b1 px py =
      (if x \<le> px \<and> px < x + n \<and> px < 127 \<and> py = y then lit mode buffer (px - x) else pixel b px py)" by auto
  have "n div 8 < length buffer" using Suc.prems by (simp add: less_mult_imp_div_less)
  from put_pixel_spec [OF b1(2) y this, of mode x] obtain b2 where
    b2: "put_pixel mode buffer x y n b1 = Some b2" "fb_wf b2"
    "\<forall>px < 128. \<forall>py < 64. pixel b2 px py = (if px = x + n \<and> px < 127 \<and> py = y then lit mode buffer n else pixel b1 px py)"
    by blast
  have "pixel b2 px py = (if x \<le> px \<and> px < x + Suc n \<and> px < 127 \<and> py = y then lit mode buffer (px - x) else pixel b px py)"
    if "px < 128" "py < 64" for px py
    using b1(3) b2(3) that by (cases "px = x + n") auto
  then show ?case using b1 b2 by (simp add: forM_append)
qed

text \<open>Writing a row of pixels through the device.\<close>

lemma OLED_write_row:
  assumes wf: "fb_wf (OLED_buf s)" and m: "OLED_mode s = 1 \<or> OLED_mode s = 2" and n: "n \<le> 8 * length buffer" "n < 65536"
    and xy: "x < 128" "y < 64"
  shows "\<exists>s'. rt_OLED_write font (y * 128 + x) buffer n s = Some s' \<and> fb_wf (OLED_buf s') \<and>
    OLED_mode s' = OLED_mode s \<and> panel s' = panel s \<and>
    (\<forall>px < 128. \<forall>py < 64. pixel (OLED_buf s') px py =
      (if x \<le> px \<and> px < x + n \<and> px < 127 \<and> py = y then lit (OLED_mode s) buffer (px - x) else pixel (OLED_buf s) px py))"
proof -
  have "OLED_mode s \<noteq> 0" using m by auto
  moreover have "(y * 128 + x) mod 128 = x" "(y * 128 + x) div 128 mod 256 = y" using xy by simp_all
  ultimately show ?thesis
    using put_pixels_spec [OF wf xy(2) n(1), of "OLED_mode s" x] m n(2)
    by (auto simp: rt_OLED_write_def)
qed

section \<open>Drawing a bitmap\<close>

lemma sint_u32: "- 2147483648 \<le> k \<Longrightarrow> k < 2147483648 \<Longrightarrow> sint (word_of_int k :: u32) = k"
  by (simp add: signed_of_int signed_take_bit_int_eq_self)

lemma bmp_pos_row:
  assumes "x < 128" "y \<le> 63" "i < 10000"
  shows "bmp_pos False (of_nat x) (63 - of_nat y) (of_nat i) = (int y - int i) * 128 + int x"
proof -
  have "(63 - of_nat y :: u16) = of_nat (63 - y)" using assms(2) by (simp add: of_nat_diff)
  then have u: "ucast (63 - of_nat y :: u16) = (of_nat (63 - y) :: u32)"
    by (simp add: unsigned_of_nat take_bit_nat_eq_self)
  have r: "63 - (of_nat (63 - y) + of_nat i) = (word_of_int (int y - int i) :: u32)"
  proof -
    have e: "(63 :: u32) = of_nat y + of_nat (63 - y)" using assms(2) by (simp flip: of_nat_add)
    have "63 - (of_nat (63 - y) + of_nat i) = (of_nat y + of_nat (63 - y)) - (of_nat (63 - y) + of_nat i :: u32)"
      by (simp only: e [symmetric])
    also have "\<dots> = word_of_int (int y - int i)" by simp
    finally show ?thesis .
  qed
  have "ucast (of_nat x :: u16) = (of_nat x :: u32)"
    using assms(1) by (simp add: unsigned_of_nat take_bit_nat_eq_self)
  then have "bmp_pos False (of_nat x) (63 - of_nat y) (of_nat i)
      = sint (push_bit 7 (word_of_int (int y - int i)) + of_nat x :: u32)" unfolding bmp_pos_def u r by simp
  also have "push_bit 7 (word_of_int (int y - int i)) + of_nat x = (word_of_int ((int y - int i) * 128 + int x) :: u32)"
    by (simp add: push_bit_eq_mult)
  also have "sint \<dots> = (int y - int i) * 128 + int x"
  proof (rule sint_u32)
    have b: "int x < 128" "int y \<le> 63" "int i < 10000" "0 \<le> int x" "0 \<le> int y" "0 \<le> int i" using assms by simp_all
    show "- 2147483648 \<le> (int y - int i) * 128 + int x" using b unfolding left_diff_distrib by linarith
    show "(int y - int i) * 128 + int x < 2147483648" using b unfolding left_diff_distrib by linarith
  qed
  finally show ?thesis .
qed

lemma div_up: "(w + 31) div 32 = w div 32 + of_bool (0 < w mod (32 :: nat))"
proof -
  define q r where "q = w div 32" and "r = w mod 32"
  have w: "w = 32 * q + r" "r < 32" by (simp_all add: q_def r_def)
  have "(r + 31) div 32 = of_bool (0 < r)"
    using w(2) by (cases "r = 0") (auto intro!: div_nat_eqI)
  moreover have "(w + 31) div 32 = q + (r + 31) div 32" unfolding w(1) by (simp add: add.assoc)
  ultimately show ?thesis unfolding q_def [symmetric] r_def [symmetric] by simp
qed

lemma bmp_stride_of: "w < 65536 \<Longrightarrow> bmp_stride (of_nat w) = of_nat ((w + 31) div 32 * 4)"
proof -
  assume w: "w < 65536"
  then have u: "unat (of_nat w :: u32) = w" by (simp add: unat_of_nat)
  have d: "(of_nat w :: u32) div 32 = of_nat (w div 32)" "(of_nat w :: u32) mod 32 = of_nat (w mod 32)"
    using w u by (simp_all add: word_arith_nat_div word_arith_nat_mod)
  have "(0 :: u32) < of_nat (w mod 32) \<longleftrightarrow> 0 < w mod 32"
    by (simp add: word_less_nat_alt unat_of_nat)
  moreover note div_up [of w]
  ultimately show ?thesis using d by (simp add: bmp_stride_def)
qed

lemma rd_overlay: "i < length bs \<Longrightarrow> length bs \<le> length b \<Longrightarrow> rd (overlay b 0 bs) i = rd bs i"
  by (simp add: rd_def overlay_nth)

lemma le32_overlay: "i + 3 < length bs \<Longrightarrow> length bs \<le> length b \<Longrightarrow> le32 (overlay b 0 bs) i = le32 bs i"
  by (simp add: le32_def rd_overlay del: rd_in)

text \<open>The bit of a bitmap file at column c of its i-th row, counted from the bottom.\<close>

definition bmp_bit :: "u8 list \<Rightarrow> nat \<Rightarrow> nat \<Rightarrow> nat \<Rightarrow> bool" where
  "bmp_bit bs w i c = bit (bs ! (62 + (w + 31) div 32 * 4 * i + c div 8)) (7 - c mod 8)"

definition flush_bytes :: "u8 list list \<Rightarrow> panel_byte list" where
  "flush_bytes b = concat (map (\<lambda>y. [Cmd (0xb0 + of_nat y), Cmd 0x01, Cmd 0x10] @ map Dat (b ! y)) [0..<8])"

lemma flush_row:
  "n \<le> length row \<Longrightarrow> forM [0..<n] (\<lambda>x s. do { d \<leftarrow> rd row x; Some (OLED_WrDat d s) }) s
    = Some (s\<lparr>panel := panel s @ map Dat (take n row)\<rparr>)"
  by (induction n) (auto simp: forM_append OLED_WrDat_def take_Suc_conv_app_nth)

lemma OLED_Flush_bytes:
  assumes "fb_wf (OLED_buf s)"
  shows "OLED_Flush s = Some (s\<lparr>panel := panel s @ flush_bytes (OLED_buf s)\<rparr>)"
proof -
  let ?f = "\<lambda>y s. do { row \<leftarrow> rd (OLED_buf s) y;
     forM [0..<128] (\<lambda>x s. do { d \<leftarrow> rd row x; Some (OLED_WrDat d s) })
       (OLED_WrCmd 0x10 (OLED_WrCmd 0x01 (OLED_WrCmd (0xb0 + of_nat y) s))) }"
  have "n \<le> 8 \<Longrightarrow> forM [0..<n] ?f s = Some (s\<lparr>panel := panel s @
      concat (map (\<lambda>y. [Cmd (0xb0 + of_nat y), Cmd 0x01, Cmd 0x10] @ map Dat (OLED_buf s ! y)) [0..<n])\<rparr>)" for n
  proof (induction n)
    case (Suc n)
    then have "length (OLED_buf s ! n) = 128" "n < length (OLED_buf s)"
      using assms fb_wf_row [OF assms, of n] by (auto simp: fb_wf_def)
    then show ?case using Suc by (simp add: forM_append flush_row OLED_WrCmd_def)
  qed simp
  from this [of 8] show ?thesis by (simp add: OLED_Flush_def flush_bytes_def)
qed

lemma bmp_rows_spec:
  assumes wf: "fb_wf (OLED_buf s)" and m: "OLED_mode s = 1 \<or> OLED_mode s = 2"
    and w: "0 < w" "w < 65536" and xy: "x < 128" "y \<le> 63" and rb: "62 + (w + 31) div 32 * 4 * h \<le> length rb" "length rb < 10000"
    and n: "n \<le> h"
  shows "\<exists>s'. forM [0..<n] (bmp_row font rb False (of_nat x) (63 - of_nat y) (of_nat w)) s = Some s' \<and>
    fb_wf (OLED_buf s') \<and> OLED_mode s' = OLED_mode s \<and> panel s' = panel s \<and>
    (\<forall>px < 128. \<forall>py < 64. pixel (OLED_buf s') px py =
      (if x \<le> px \<and> px < x + w \<and> px < 127 \<and> py \<le> y \<and> y < py + n
       then bmp_bit rb w (y - py) (px - x) \<noteq> (OLED_mode s = 1) else pixel (OLED_buf s) px py))"
  using n
proof (induction n)
  case 0
  then show ?case using wf by auto
next
  case (Suc n)
  define st where "st = (w + 31) div 32 * 4"
  let ?D = "bmp_row font rb False (of_nat x) (63 - of_nat y) (of_nat w)"
  from Suc obtain s1 where s1: "forM [0..<n] ?D s = Some s1" "fb_wf (OLED_buf s1)" "OLED_mode s1 = OLED_mode s"
    "panel s1 = panel s" "\<forall>px < 128. \<forall>py < 64. pixel (OLED_buf s1) px py =
      (if x \<le> px \<and> px < x + w \<and> px < 127 \<and> py \<le> y \<and> y < py + n
       then bmp_bit rb w (y - py) (px - x) \<noteq> (OLED_mode s = 1) else pixel (OLED_buf s) px py)" by auto
  have st: "0 < st" "w \<le> 8 * st" using w unfolding st_def by linarith+
  have "st * (n + 1) \<le> st * h" using Suc.prems by (intro mult_le_mono2) simp
  then have sn: "62 + st * n + st \<le> length rb" using rb(1) by (simp add: distrib_left st_def)
  have "n \<le> st * n" using st(1) by (cases st) simp_all
  then have n1: "n < 10000" using sn rb(2) by linarith
  have pos: "bmp_pos False (of_nat x) (63 - of_nat y) (of_nat n) = (int y - int n) * 128 + int x"
    using xy n1 by (intro bmp_pos_row)
  have "unat (0x3e + bmp_stride (of_nat w) * of_nat n :: u32) = 62 + st * n"
  proof -
    have "(0x3e + bmp_stride (of_nat w) * of_nat n :: u32) = of_nat (62 + st * n)"
      by (simp add: bmp_stride_of [OF w(2)] st_def)
    moreover have "62 + st * n < 4294967296" using sn rb(2) by linarith
    ultimately show ?thesis by (simp only: unat_of_nat) simp
  qed
  then have drop: "drop (unat (0x3e + bmp_stride (of_nat w) * of_nat n :: u32)) rb = drop (62 + st * n) rb" by simp
  have uw: "unat (of_nat w :: u32) = w" using w(2) by (simp add: unat_of_nat)
  show ?case
  proof (cases "n \<le> y")
    case True
    then have p: "bmp_pos False (of_nat x) (63 - of_nat y) (of_nat n) = int ((y - n) * 128 + x)"
      using pos by (simp add: of_nat_diff)
    have le: "(y - n) * 128 + x \<le> 8191" using xy True by linarith
    have "w \<le> 8 * length (drop (62 + st * n) rb)" using sn st(2) by simp
    moreover have "OLED_mode s1 = 1 \<or> OLED_mode s1 = 2" "y - n < 64" using m s1(3) xy(2) by simp_all
    ultimately obtain s2 where
      s2: "rt_OLED_write font ((y - n) * 128 + x) (drop (62 + st * n) rb) w s1 = Some s2" "fb_wf (OLED_buf s2)"
      "OLED_mode s2 = OLED_mode s1" "panel s2 = panel s1"
      "\<forall>px < 128. \<forall>py < 64. pixel (OLED_buf s2) px py = (if x \<le> px \<and> px < x + w \<and> px < 127 \<and> py = y - n
        then lit (OLED_mode s1) (drop (62 + st * n) rb) (px - x) else pixel (OLED_buf s1) px py)"
      using OLED_write_row [OF s1(2) _ _ w(2) xy(1), of "drop (62 + st * n) rb" "y - n" font] by blast
    have "nat (int ((y - n) * 128 + x)) = (y - n) * 128 + x" by (rule nat_int)
    moreover have "0 \<le> int ((y - n) * 128 + x)" "int ((y - n) * 128 + x) \<le> 128 * 64 - 1" using le by linarith+
    ultimately have "?D n s1 = Some s2" unfolding bmp_row_def Let_def p drop uw using s2(1) by presburger
    moreover have "lit (OLED_mode s1) (drop (62 + st * n) rb) c = (bmp_bit rb w n c \<noteq> (OLED_mode s = 1))" if "c < w" for c
    proof -
      have "c div 8 < st" using that st(2) by (simp add: less_mult_imp_div_less)
      then show ?thesis using sn s1(3) by (simp add: lit_def bmp_bit_def add.assoc flip: st_def)
    qed
    moreover have "y < py + Suc n \<longleftrightarrow> y < py + n \<or> py = y - n" "py = y - n \<Longrightarrow> y - py = n \<and> py \<le> y \<and> \<not> y < py + n" for py
      using True by auto
    ultimately show ?thesis using s1 s2 by (auto simp: forM_append)
  next
    case False
    then have "bmp_pos False (of_nat x) (63 - of_nat y) (of_nat n) < 0" using pos xy(1) unfolding left_diff_distrib by linarith
    then have "?D n s1 = Some s1" by (simp add: bmp_row_def Let_def)
    moreover have "y < py + Suc n \<longleftrightarrow> y < py + n" if "py \<le> y" for py using False that by auto
    ultimately show ?thesis using s1 by (auto simp: forM_append)
  qed
qed

section \<open>Properties\<close>

text \<open>
  A bitmap file of w times h pixels with one bit per pixel is drawn
  upright with its lower left corner at (x, y): every pixel of the frame buffer inside that
  rectangle becomes the corresponding bit of the file, inverted when the first colour of its palette
  is dark; every other pixel keeps its value; and the panel is sent the whole frame buffer. What
  would lie above the upper edge is cut off, and so is everything from column 127 on: the last
  column of the display is never drawn.
\<close>

theorem draw_bmp_pixels:
  assumes "length read_buf = 5000" "length bs \<le> 5000" "fb_wf (OLED_buf s)"
    and "le32 bs 18 = Some (of_nat w)" "le32 bs 22 = Some (of_nat h)" "le32 bs 54 = Some c1" "h < 2 ^ 32"
    and "0 < w" "w < 65536" "62 + (w + 31) div 32 * 4 * h \<le> length bs" "x < 128" "y \<le> 63"
  shows "\<exists>rb s'. draw_bmp font False (Some bs) (of_nat x) (of_nat y) read_buf s = Some (0, rb, s') \<and> OLED_mode s' = 0 \<and>
    (\<forall>px < 128. \<forall>py < 64. pixel (OLED_buf s') px py =
      (if x \<le> px \<and> px < x + w \<and> px < 127 \<and> py \<le> y \<and> y < py + h
       then bmp_bit bs w (y - py) (px - x) \<noteq> (c1 \<le> 0xffff) else pixel (OLED_buf s) px py)) \<and>
    panel s' = panel s @ flush_bytes (OLED_buf s')"
proof -
  let ?rb = "overlay read_buf 0 bs"
  have rb: "memcpy_at read_buf 0 bs = Some ?rb" "length ?rb = 5000" using assms(1,2) by (simp_all add: memcpy_at_def)
  have hd: "le32 ?rb 18 = Some (of_nat w)" "le32 ?rb 22 = Some (of_nat h)" "le32 ?rb 54 = Some c1"
    using assms(1,2,4-6,10) by (simp_all add: le32_overlay)
  have uh: "unat (of_nat h :: u32) = h" using assms(7) by (simp add: unat_of_nat)
  define m :: u8 where "m = (if 0xffff < c1 then 2 else 1)"
  have m12: "m = 1 \<or> m = 2" by (simp add: m_def)
  let ?s1 = "s\<lparr>OLED_mode := m\<rparr>"
  have ctl: "rt_OLED_control (if 0xffff < c1 then 4 else 3) s = Some ?s1" by (simp add: rt_OLED_control_def m_def)
  have sz: "62 + (w + 31) div 32 * 4 * h \<le> length ?rb" "length ?rb < 10000"
    using le_trans [OF assms(10,2)] unfolding rb(2) by simp_all
  obtain s2 where s2: "forM [0..<h] (bmp_row font ?rb False (of_nat x) (63 - of_nat y) (of_nat w)) ?s1 = Some s2"
    "fb_wf (OLED_buf s2)" "panel s2 = panel s"
    "\<forall>px < 128. \<forall>py < 64. pixel (OLED_buf s2) px py =
      (if x \<le> px \<and> px < x + w \<and> px < 127 \<and> py \<le> y \<and> y < py + h
       then bmp_bit ?rb w (y - py) (px - x) \<noteq> (m = 1) else pixel (OLED_buf s) px py)"
    using bmp_rows_spec [of ?s1 w x y h ?rb h font] assms(3,8,9,11,12) sz m12 by auto
  have bit: "bmp_bit ?rb w i c = bmp_bit bs w i c" if "c < w" "i < h" for i c
  proof -
    have "c div 8 < (w + 31) div 32 * 4" using that(1) by linarith
    moreover have "(w + 31) div 32 * 4 * (i + 1) \<le> (w + 31) div 32 * 4 * h"
      using that(2) by (intro mult_le_mono2) simp
    ultimately have "62 + (w + 31) div 32 * 4 * i + c div 8 < length bs" using assms(10) by (simp add: distrib_left)
    then show ?thesis using assms(1,2) by (simp add: bmp_bit_def overlay_nth)
  qed
  have "m = 1 \<longleftrightarrow> c1 \<le> 0xffff" by (simp add: m_def linorder_not_less [symmetric])
  then have "\<forall>px < 128. \<forall>py < 64. pixel (OLED_buf s2) px py =
      (if x \<le> px \<and> px < x + w \<and> px < 127 \<and> py \<le> y \<and> y < py + h
       then bmp_bit bs w (y - py) (px - x) \<noteq> (c1 \<le> 0xffff) else pixel (OLED_buf s) px py)"
    using s2(4) by (auto simp: bit)
  moreover have "draw_bmp font False (Some bs) (of_nat x) (of_nat y) read_buf s =
      Some (0, ?rb, s2\<lparr>panel := panel s2 @ flush_bytes (OLED_buf s2), OLED_mode := 0\<rparr>)"
    using rb(1) hd uh s2(1) ctl OLED_Flush_bytes [OF s2(2)]
    by (simp add: draw_bmp_def Let_def) (simp add: rt_OLED_control_def)
  ultimately show ?thesis using s2(3)
    by (intro exI [of _ ?rb] exI [of _ "s2\<lparr>panel := panel s2 @ flush_bytes (OLED_buf s2), OLED_mode := 0\<rparr>"]) simp
qed

text \<open>A picture of two by two pixels.\<close>

definition tiny_bmp :: "u8 list" where
  "tiny_bmp = replicate 18 0 @ [2, 0, 0, 0, 2, 0, 0, 0] @ replicate 28 0 @ [0, 0, 0, 0, 255, 255, 255, 0] @
     [0x80, 0, 0, 0, 0x40, 0, 0, 0]"

theorem draw_bmp_pixels_witness:
  "\<exists>rb s'. draw_bmp [] False (Some tiny_bmp) 10 20 (replicate 5000 0) OLED_start = Some (0, rb, s') \<and>
    \<not> pixel (OLED_buf s') 10 20 \<and> pixel (OLED_buf s') 11 20 \<and> pixel (OLED_buf s') 10 19 \<and> \<not> pixel (OLED_buf s') 12 20"
proof -
  have l: "le32 tiny_bmp 18 = Some 2" "le32 tiny_bmp 22 = Some 2" "le32 tiny_bmp 54 = Some 0" "length tiny_bmp = 70"
    by code_simp+
  have b: "bmp_bit tiny_bmp 2 0 0" "\<not> bmp_bit tiny_bmp 2 0 1" "\<not> bmp_bit tiny_bmp 2 1 0" "\<not> pixel (OLED_buf OLED_start) 12 20"
    by code_simp+
  have "fb_wf (OLED_buf OLED_start)" by (simp add: fb_wf_def OLED_start_def)
  then show ?thesis
    using draw_bmp_pixels [of "replicate 5000 0" tiny_bmp OLED_start 2 2 0 10 20 "[]"] l b by fastforce
qed

end
