(* ===== verification/Flash_Chip.thy ===== *)
theory Flash_Chip
  imports Cash_Prelude
begin

text \<open>
  The driver of the serial flash memory (src/slave2/HARDWARE/FLASH/W25Q16.C). The chip itself is
  not part of the program: it is a parameter spi, which maps the state of the chip and the bytes
  that are sent while it is selected to the bytes that come back and the new state. What the
  driver relies on is the predicate w25q, the documented behaviour of the chip. Waiting for the
  chip may take any number of rounds; None stands for not coming back and for leaving an array.
\<close>

section \<open>Commands\<close>

type_synonym 'c spi = "'c \<Rightarrow> u8 list \<Rightarrow> u8 list \<times> 'c"

definition W25X_WriteEnable :: u8 where "W25X_WriteEnable = 0x06"
definition W25X_WriteDisable :: u8 where "W25X_WriteDisable = 0x04"
definition W25X_ReadStatusReg :: u8 where "W25X_ReadStatusReg = 0x05"
definition W25X_WriteStatusReg :: u8 where "W25X_WriteStatusReg = 0x01"
definition W25X_ReadData :: u8 where "W25X_ReadData = 0x03"
definition W25X_PageProgram :: u8 where "W25X_PageProgram = 0x02"
definition W25X_SectorErase :: u8 where "W25X_SectorErase = 0x20"
definition W25X_ChipErase :: u8 where "W25X_ChipErase = 0xC7"
definition W25X_PowerDown :: u8 where "W25X_PowerDown = 0xB9"
definition W25X_ReleasePowerDown :: u8 where "W25X_ReleasePowerDown = 0xAB"

lemmas w25x_defs = W25X_WriteEnable_def W25X_WriteDisable_def W25X_ReadStatusReg_def W25X_WriteStatusReg_def
  W25X_ReadData_def W25X_PageProgram_def W25X_SectorErase_def W25X_ChipErase_def W25X_PowerDown_def
  W25X_ReleasePowerDown_def

text \<open>The three address bytes, highest first.\<close>

definition addr24 :: "u32 \<Rightarrow> u8 list" where
  "addr24 a = [ucast (drop_bit 16 a), ucast (drop_bit 8 a), ucast a]"

section \<open>Operations\<close>

definition SPI_Flash_ReadSR :: "'c spi \<Rightarrow> 'c \<Rightarrow> u8 \<times> 'c" where
  "SPI_Flash_ReadSR spi c = (let (r, c1) = spi c [W25X_ReadStatusReg, 0xFF] in (r ! 1, c1))"

definition SPI_FLASH_Write_SR :: "'c spi \<Rightarrow> u8 \<Rightarrow> 'c \<Rightarrow> 'c" where
  "SPI_FLASH_Write_SR spi sr c = snd (spi c [W25X_WriteStatusReg, sr])"

definition SPI_FLASH_Write_Enable :: "'c spi \<Rightarrow> 'c \<Rightarrow> 'c" where
  "SPI_FLASH_Write_Enable spi c = snd (spi c [W25X_WriteEnable])"

definition SPI_FLASH_Write_Disable :: "'c spi \<Rightarrow> 'c \<Rightarrow> 'c" where
  "SPI_FLASH_Write_Disable spi c = snd (spi c [W25X_WriteDisable])"

definition SPI_Flash_ReadID :: "'c spi \<Rightarrow> 'c \<Rightarrow> u16 \<times> 'c" where
  "SPI_Flash_ReadID spi c = (let (r, c1) = spi c [0x90, 0, 0, 0, 0xFF, 0xFF] in
     (push_bit 8 (ucast (r ! 4)) OR ucast (r ! 5), c1))"

text \<open>The loop of Wait_Busy may run forever, when the chip never gets ready.\<close>

partial_function (option) SPI_Flash_Wait_Busy :: "'c spi \<Rightarrow> 'c \<Rightarrow> 'c option" where
  "SPI_Flash_Wait_Busy spi c = (let (sr, c1) = SPI_Flash_ReadSR spi c in
     if sr AND 1 = 1 then SPI_Flash_Wait_Busy spi c1 else Some c1)"

text \<open>Read fills the first n bytes of the buffer.\<close>

definition SPI_Flash_Read :: "'c spi \<Rightarrow> u8 list \<Rightarrow> u32 \<Rightarrow> u16 \<Rightarrow> 'c \<Rightarrow> (u8 list \<times> 'c) option" where
  "SPI_Flash_Read spi buf a n c = (let (r, c1) = spi c (W25X_ReadData # addr24 a @ replicate (unat n) 0xFF) in
     do { b \<leftarrow> forM [0..<unat n] (\<lambda>i b. wr b i (r ! (4 + i))) buf; Some (b, c1) })"

definition SPI_Flash_Write_Page :: "'c spi \<Rightarrow> u8 list \<Rightarrow> u32 \<Rightarrow> u16 \<Rightarrow> 'c \<Rightarrow> 'c option" where
  "SPI_Flash_Write_Page spi buf a n c =
     (if unat n \<le> length buf then do {
        let c1 = SPI_FLASH_Write_Enable spi c;
        let (_, c2) = spi c1 (W25X_PageProgram # addr24 a @ take (unat n) buf);
        SPI_Flash_Wait_Busy spi c2 }
      else None)"

text \<open>Write_NoCheck: the loop with its variables, and the call.\<close>

partial_function (option) nocheck_loop :: "'c spi \<Rightarrow> u8 list \<Rightarrow> u32 \<Rightarrow> u16 \<Rightarrow> u16 \<Rightarrow> 'c \<Rightarrow> 'c option" where
  "nocheck_loop spi buf a n pageremain c = Option.bind (SPI_Flash_Write_Page spi buf a pageremain c) (\<lambda>c1.
     if n = pageremain then Some c1
     else (let n1 = n - pageremain in
       nocheck_loop spi (drop (unat pageremain) buf) (a + ucast pageremain) n1 (if n1 > 256 then 256 else n1) c1))"

definition SPI_Flash_Write_NoCheck :: "'c spi \<Rightarrow> u8 list \<Rightarrow> u32 \<Rightarrow> u16 \<Rightarrow> 'c \<Rightarrow> 'c option" where
  "SPI_Flash_Write_NoCheck spi buf a n c = (let pr = ucast (256 - a mod 256) :: u16 in
     nocheck_loop spi buf a n (if n \<le> pr then n else pr) c)"

definition SPI_Flash_Erase_Chip :: "'c spi \<Rightarrow> 'c \<Rightarrow> 'c option" where
  "SPI_Flash_Erase_Chip spi c = do {
     c1 \<leftarrow> SPI_Flash_Wait_Busy spi (SPI_FLASH_Write_Enable spi c);
     SPI_Flash_Wait_Busy spi (snd (spi c1 [W25X_ChipErase])) }"

definition SPI_Flash_Erase_Sector :: "'c spi \<Rightarrow> u32 \<Rightarrow> 'c \<Rightarrow> 'c option" where
  "SPI_Flash_Erase_Sector spi sec c = do {
     let a = sec * 4096;
     c1 \<leftarrow> SPI_Flash_Wait_Busy spi (SPI_FLASH_Write_Enable spi c);
     SPI_Flash_Wait_Busy spi (snd (spi c1 (W25X_SectorErase # addr24 a))) }"

definition SPI_Flash_PowerDown :: "'c spi \<Rightarrow> 'c \<Rightarrow> 'c" where
  "SPI_Flash_PowerDown spi c = snd (spi c [W25X_PowerDown])"

definition SPI_Flash_WAKEUP :: "'c spi \<Rightarrow> 'c \<Rightarrow> 'c" where
  "SPI_Flash_WAKEUP spi c = snd (spi c [W25X_ReleasePowerDown])"

text \<open>
  Write: secbuf is the global SPI_FLASH_BUF of 4096 bytes. needs_erase is the loop that looks for
  a byte that is not 0xFF; write_sector is one round of the outer loop for the sector secpos.
\<close>

primrec needs_erase :: "u8 list \<Rightarrow> nat \<Rightarrow> nat list \<Rightarrow> bool option" where
  "needs_erase b off [] = Some False"
| "needs_erase b off (i # is) = (case rd b (off + i) of None \<Rightarrow> None
     | Some v \<Rightarrow> if v \<noteq> 0xFF then Some True else needs_erase b off is)"

definition write_sector :: "'c spi \<Rightarrow> u8 list \<Rightarrow> u32 \<Rightarrow> u32 \<Rightarrow> u16 \<Rightarrow> u16 \<Rightarrow> u8 list \<Rightarrow> 'c \<Rightarrow> (u8 list \<times> 'c) option" where
  "write_sector spi buf a secpos secoff secremain secbuf c = do {
     (b1, c1) \<leftarrow> SPI_Flash_Read spi secbuf (secpos * 4096) 4096 c;
     erase \<leftarrow> needs_erase b1 (unat secoff) [0..<unat secremain];
     (if erase then do {
        c2 \<leftarrow> SPI_Flash_Erase_Sector spi secpos c1;
        b2 \<leftarrow> forM [0..<unat secremain] (\<lambda>i b. do { v \<leftarrow> rd buf i; wr b (unat secoff + i) v }) b1;
        c3 \<leftarrow> SPI_Flash_Write_NoCheck spi b2 (secpos * 4096) 4096 c2;
        Some (b2, c3) }
      else do {
        c2 \<leftarrow> SPI_Flash_Write_NoCheck spi buf a secremain c1;
        Some (b1, c2) }) }"

partial_function (option) write_loop ::
  "'c spi \<Rightarrow> u8 list \<Rightarrow> u32 \<Rightarrow> u16 \<Rightarrow> u32 \<Rightarrow> u16 \<Rightarrow> u16 \<Rightarrow> u8 list \<Rightarrow> 'c \<Rightarrow> (u8 list \<times> 'c) option" where
  "write_loop spi buf a n secpos secoff secremain secbuf c =
     Option.bind (write_sector spi buf a secpos secoff secremain secbuf c) (\<lambda>(b1, c1).
       if n = secremain then Some (b1, c1)
       else (let n1 = n - secremain in
         write_loop spi (drop (unat secremain) buf) (a + ucast secremain) n1 (secpos + 1) 0
           (if n1 > 4096 then 4096 else n1) b1 c1))"

definition SPI_Flash_Write :: "'c spi \<Rightarrow> u8 list \<Rightarrow> u32 \<Rightarrow> u16 \<Rightarrow> u8 list \<Rightarrow> 'c \<Rightarrow> (u8 list \<times> 'c) option" where
  "SPI_Flash_Write spi buf a n secbuf c = (let secremain = 4096 - ucast (a mod 4096) :: u16 in
     write_loop spi buf a n (a div 4096) (ucast (a mod 4096)) (if n \<le> secremain then n else secremain) secbuf c)"

section \<open>The chip\<close>

text \<open>Programming can only clear bits; an overwrite is what a caller of Write wants.\<close>

definition programmed :: "(nat \<Rightarrow> u8) \<Rightarrow> nat \<Rightarrow> u8 list \<Rightarrow> nat \<Rightarrow> u8" where
  "programmed m a bs x = (if a \<le> x \<and> x < a + length bs then m x AND bs ! (x - a) else m x)"

definition overwritten :: "(nat \<Rightarrow> u8) \<Rightarrow> nat \<Rightarrow> u8 list \<Rightarrow> nat \<Rightarrow> u8" where
  "overwritten m a bs x = (if a \<le> x \<and> x < a + length bs then bs ! (x - a) else m x)"

definition FLASH_SIZE :: nat where "FLASH_SIZE = 2 ^ 21"

text \<open>
  The documented behaviour of the chip: mem is its content, wel the write enable latch, busy the
  number of status reads until the running operation is finished.
\<close>

definition w25q :: "'c spi \<Rightarrow> ('c \<Rightarrow> nat \<Rightarrow> u8) \<Rightarrow> ('c \<Rightarrow> bool) \<Rightarrow> ('c \<Rightarrow> nat) \<Rightarrow> bool" where
  "w25q spi mem wel busy \<longleftrightarrow>
     (\<forall>c. (fst (spi c [W25X_ReadStatusReg, 0xFF]) ! 1 AND 1 = 1 \<longleftrightarrow> 0 < busy c) \<and>
        busy (snd (spi c [W25X_ReadStatusReg, 0xFF])) = busy c - 1 \<and>
        mem (snd (spi c [W25X_ReadStatusReg, 0xFF])) = mem c \<and>
        wel (snd (spi c [W25X_ReadStatusReg, 0xFF])) = wel c) \<and>
     (\<forall>c. busy c = 0 \<longrightarrow> wel (snd (spi c [W25X_WriteEnable])) \<and> busy (snd (spi c [W25X_WriteEnable])) = 0 \<and>
        mem (snd (spi c [W25X_WriteEnable])) = mem c) \<and>
     (\<forall>c a n. busy c = 0 \<and> unat a + n \<le> FLASH_SIZE \<longrightarrow>
        (\<forall>i < n. fst (spi c (W25X_ReadData # addr24 a @ replicate n 0xFF)) ! (4 + i) = mem c (unat a + i)) \<and>
        busy (snd (spi c (W25X_ReadData # addr24 a @ replicate n 0xFF))) = 0 \<and>
        mem (snd (spi c (W25X_ReadData # addr24 a @ replicate n 0xFF))) = mem c) \<and>
     (\<forall>c a bs. busy c = 0 \<and> wel c \<and> unat a + length bs \<le> FLASH_SIZE \<and> unat a mod 256 + length bs \<le> 256 \<longrightarrow>
        mem (snd (spi c (W25X_PageProgram # addr24 a @ bs))) = programmed (mem c) (unat a) bs) \<and>
     (\<forall>c a. busy c = 0 \<and> wel c \<and> unat a < FLASH_SIZE \<longrightarrow>
        mem (snd (spi c (W25X_SectorErase # addr24 a))) =
          (\<lambda>x. if x div 4096 = unat a div 4096 then 0xFF else mem c x))"

lemma w25q_status:
  "w25q spi mem wel busy \<Longrightarrow> SPI_Flash_ReadSR spi c = (sr, c1) \<Longrightarrow>
   (sr AND 1 = 1 \<longleftrightarrow> 0 < busy c) \<and> busy c1 = busy c - 1 \<and> mem c1 = mem c \<and> wel c1 = wel c"
  unfolding w25q_def SPI_Flash_ReadSR_def by (auto simp: Let_def split: prod.splits) (metis fst_conv snd_conv)+

lemma w25q_enable:
  "w25q spi mem wel busy \<Longrightarrow> busy c = 0 \<Longrightarrow>
   wel (SPI_FLASH_Write_Enable spi c) \<and> busy (SPI_FLASH_Write_Enable spi c) = 0 \<and> mem (SPI_FLASH_Write_Enable spi c) = mem c"
  unfolding w25q_def SPI_FLASH_Write_Enable_def by blast

lemma wait_busy_spec:
  assumes "w25q spi mem wel busy"
  shows "\<exists>c'. SPI_Flash_Wait_Busy spi c = Some c' \<and> busy c' = 0 \<and> mem c' = mem c \<and> wel c' = wel c"
proof (induction "busy c" arbitrary: c rule: less_induct)
  case less
  obtain sr c1 where sr: "SPI_Flash_ReadSR spi c = (sr, c1)" by fastforce
  note st = w25q_status [OF assms sr]
  show ?case
  proof (cases "0 < busy c")
    case True
    then show ?thesis using st sr less [of c1] by (subst SPI_Flash_Wait_Busy.simps) simp
  next
    case False
    then show ?thesis using st sr by (subst SPI_Flash_Wait_Busy.simps) simp
  qed
qed

text \<open>Algebra of the two kinds of writing.\<close>

lemma programmed_append: "programmed (programmed m a xs) (a + length xs) ys = programmed m a (xs @ ys)"
  by (rule ext) (auto simp: programmed_def nth_append)

lemma overwritten_append: "overwritten (overwritten m a xs) (a + length xs) ys = overwritten m a (xs @ ys)"
  by (rule ext) (auto simp: overwritten_def nth_append)

lemma programmed_erased:
  assumes "\<And>i. i < length bs \<Longrightarrow> m (a + i) = 0xFF"
  shows "programmed m a bs = overwritten m a bs"
proof (rule ext)
  fix x
  have "(0xFF :: u8) AND b = b" for b :: u8 by (rule bit_word_eqI) (auto simp: bit_simps numeral_eq_Suc less_Suc_eq)
  then show "programmed m a bs x = overwritten m a bs x"
    using assms [of "x - a"] by (auto simp: programmed_def overwritten_def)
qed

lemma write_page_spec:
  assumes "w25q spi mem wel busy" "busy c = 0" "unat n \<le> length buf"
    and "unat a + unat n \<le> FLASH_SIZE" "unat a mod 256 + unat n \<le> 256"
  shows "\<exists>c'. SPI_Flash_Write_Page spi buf a n c = Some c' \<and> busy c' = 0 \<and>
    mem c' = programmed (mem c) (unat a) (take (unat n) buf)"
proof -
  let ?c1 = "SPI_FLASH_Write_Enable spi c"
  let ?c2 = "snd (spi ?c1 (W25X_PageProgram # addr24 a @ take (unat n) buf))"
  have "mem ?c2 = programmed (mem c) (unat a) (take (unat n) buf)"
    using assms w25q_enable [OF assms(1,2)] unfolding w25q_def by (auto simp: min_def)
  then show ?thesis using wait_busy_spec [OF assms(1), of ?c2] assms(3)
    by (auto simp: SPI_Flash_Write_Page_def Let_def split_beta)
qed

lemma unat_sub_u16: "p \<le> n \<Longrightarrow> unat (n - p) = unat n - unat p" for n p :: u16
  by (rule unat_sub)

lemma unat_add_u32: "unat a + unat p < 2 ^ 32 \<Longrightarrow> unat (a + ucast (p :: u16)) = unat a + unat p" for a :: u32
  using unat_add_lem [of a "ucast p"] by simp

lemma nocheck_loop_spec:
  assumes chip: "w25q spi mem wel busy"
  shows "busy c = 0 \<Longrightarrow> unat n \<le> length buf \<Longrightarrow> unat a + unat n \<le> FLASH_SIZE \<Longrightarrow> p \<le> n \<Longrightarrow>
    unat a mod 256 + unat p \<le> 256 \<Longrightarrow> p = n \<or> 0 < unat p \<and> (unat a + unat p) mod 256 = 0 \<Longrightarrow>
    \<exists>c'. nocheck_loop spi buf a n p c = Some c' \<and> busy c' = 0 \<and> mem c' = programmed (mem c) (unat a) (take (unat n) buf)"
proof (induction "unat n" arbitrary: buf a n p c rule: less_induct)
  case less
  have pn: "unat p \<le> unat n" using less.prems(4) by (simp add: word_le_nat_alt)
  obtain c1 where c1: "SPI_Flash_Write_Page spi buf a p c = Some c1" "busy c1 = 0"
    "mem c1 = programmed (mem c) (unat a) (take (unat p) buf)"
    using write_page_spec [OF chip less.prems(1), of p buf a] less.prems pn by auto
  show ?case
  proof (cases "p = n")
    case True
    then show ?thesis using c1 by (subst nocheck_loop.simps) simp
  next
    case False
    let ?n1 = "n - p" and ?a1 = "a + ucast p" and ?b1 = "drop (unat p) buf"
    let ?p1 = "if ?n1 > 256 then 256 else ?n1"
    have p: "0 < unat p" "(unat a + unat p) mod 256 = 0" using less.prems(6) False by auto
    have n1: "unat ?n1 = unat n - unat p" using less.prems(4) by (rule unat_sub_u16)
    have a1: "unat ?a1 = unat a + unat p"
      using less.prems(3) pn by (intro unat_add_u32) (simp add: FLASH_SIZE_def)
    have p1: "?p1 \<le> ?n1" "unat ?p1 \<le> 256" "?p1 = ?n1 \<or> unat ?p1 = 256" by (auto simp: word_less_nat_alt word_le_nat_alt)
    have "\<exists>c'. nocheck_loop spi ?b1 ?a1 ?n1 ?p1 c1 = Some c' \<and> busy c' = 0 \<and>
        mem c' = programmed (mem c1) (unat ?a1) (take (unat ?n1) ?b1)"
    proof (rule less.hyps)
      show "unat ?n1 < unat n" using n1 p(1) pn by linarith
      show "unat ?n1 \<le> length ?b1" using n1 less.prems(2) by simp
      show "unat ?a1 + unat ?n1 \<le> FLASH_SIZE" using n1 a1 less.prems(3) pn by simp
      show "unat ?a1 mod 256 + unat ?p1 \<le> 256" using a1 p(2) p1(2) by simp
      show "?p1 = ?n1 \<or> 0 < unat ?p1 \<and> (unat ?a1 + unat ?p1) mod 256 = 0" using a1 p(2) p1(3) by auto
    qed (use c1(2) p1(1) in simp_all)
    then obtain c' where c': "nocheck_loop spi ?b1 ?a1 ?n1 ?p1 c1 = Some c'" "busy c' = 0"
      "mem c' = programmed (mem c1) (unat ?a1) (take (unat ?n1) ?b1)" by blast
    have "mem c' = programmed (mem c) (unat a) (take (unat p) buf @ take (unat ?n1) ?b1)"
      unfolding c'(3) c1(3) using a1 programmed_append [of "mem c" "unat a" "take (unat p) buf"] less.prems(2) pn
      by (simp add: min_absorb2)
    also have "take (unat p) buf @ take (unat ?n1) ?b1 = take (unat n) buf"
      using n1 pn by (metis le_add_diff_inverse take_add)
    finally show ?thesis using c1(1) c'(1,2) False by (subst nocheck_loop.simps) (simp add: Let_def)
  qed
qed

lemma write_nocheck_spec:
  assumes "w25q spi mem wel busy" "busy c = 0" "unat n \<le> length buf" "unat a + unat n \<le> FLASH_SIZE"
  shows "\<exists>c'. SPI_Flash_Write_NoCheck spi buf a n c = Some c' \<and> busy c' = 0 \<and>
    mem c' = programmed (mem c) (unat a) (take (unat n) buf)"
proof -
  let ?pr = "ucast (256 - a mod 256) :: u16"
  have m: "unat (a mod 256) = unat a mod 256" by (simp add: unat_mod)
  have "a mod 256 \<le> 256" by (simp add: word_le_nat_alt m)
  then have "unat (256 - a mod 256) = 256 - unat a mod 256" by (simp add: unat_sub m)
  then have pr: "unat ?pr = 256 - unat a mod 256" by (simp add: unat_ucast_u32_u16)
  let ?p = "if n \<le> ?pr then n else ?pr"
  have "(unat a + (256 - unat a mod 256)) mod 256 = 0" by (rule mod_complement) simp
  then have "?p = n \<or> 0 < unat ?p \<and> (unat a + unat ?p) mod 256 = 0" using pr by simp
  moreover have "?p \<le> n" "unat ?p \<le> 256 - unat a mod 256" using pr by (auto simp: word_le_nat_alt)
  ultimately show ?thesis unfolding SPI_Flash_Write_NoCheck_def Let_def
    by (intro nocheck_loop_spec [OF assms]) auto
qed

section \<open>Whole sectors\<close>

lemma read_spec:
  assumes "w25q spi mem wel busy" "busy c = 0" "unat n \<le> length buf" "unat a + unat n \<le> FLASH_SIZE"
  shows "\<exists>c'. SPI_Flash_Read spi buf a n c = Some (overlay buf 0 (map (\<lambda>i. mem c (unat a + i)) [0..<unat n]), c') \<and>
    busy c' = 0 \<and> mem c' = mem c"
proof -
  let ?t = "spi c (W25X_ReadData # addr24 a @ replicate (unat n) 0xFF)"
  let ?src = "map (\<lambda>i. mem c (unat a + i)) [0..<unat n]"
  have t: "\<forall>i < unat n. fst ?t ! (4 + i) = mem c (unat a + i)" "busy (snd ?t) = 0" "mem (snd ?t) = mem c"
    using assms unfolding w25q_def by blast+
  have "forM [0..<unat n] (\<lambda>i b. wr b i (fst ?t ! (4 + i))) buf = forM [0..<length ?src] (\<lambda>i b. wr b (0 + i) (?src ! i)) buf"
    unfolding length_map length_upt minus_nat.diff_0 by (rule forM_cong) (use t(1) in simp)
  also have "\<dots> = Some (overlay buf 0 ?src)" by (rule forM_fill) (use assms(3) in simp)
  finally show ?thesis using t(2,3) by (simp add: SPI_Flash_Read_def split_beta Let_def)
qed

lemma erase_sector_spec:
  assumes "w25q spi mem wel busy" "busy c = 0" "unat sec * 4096 < FLASH_SIZE"
  shows "\<exists>c'. SPI_Flash_Erase_Sector spi sec c = Some c' \<and> busy c' = 0 \<and>
    mem c' = (\<lambda>x. if x div 4096 = unat sec then 0xFF else mem c x)"
proof -
  have s: "unat (sec * 4096) = unat sec * 4096"
    using unat_mult_lem [of sec 4096] assms(3) by (simp add: FLASH_SIZE_def)
  obtain c1 where c1: "SPI_Flash_Wait_Busy spi (SPI_FLASH_Write_Enable spi c) = Some c1" "busy c1 = 0" "wel c1" "mem c1 = mem c"
    using w25q_enable [OF assms(1,2)] wait_busy_spec [OF assms(1), of "SPI_FLASH_Write_Enable spi c"] by auto
  have "mem (snd (spi c1 (W25X_SectorErase # addr24 (sec * 4096)))) = (\<lambda>x. if x div 4096 = unat sec then 0xFF else mem c x)"
    using assms(1,3) c1 s unfolding w25q_def by auto
  then show ?thesis
    using c1(1) wait_busy_spec [OF assms(1), of "snd (spi c1 (W25X_SectorErase # addr24 (sec * 4096)))"]
    by (auto simp: SPI_Flash_Erase_Sector_def)
qed

lemma needs_erase_spec:
  "\<forall>j \<in> set is. off + j < length b \<Longrightarrow> needs_erase b off is = Some (\<exists>j \<in> set is. b ! (off + j) \<noteq> 0xFF)"
  by (induction "is") auto

text \<open>A sector rebuilt from its old content and the data is the data written into the old content.\<close>

lemma sector_rebuilt:
  fixes m :: "nat \<Rightarrow> u8"
  assumes "off + length data \<le> 4096"
  shows "overwritten (\<lambda>x. if x div 4096 = s then 0xFF else m x) (s * 4096)
      (overlay (map (\<lambda>i. m (s * 4096 + i)) [0..<4096]) off data) = overwritten m (s * 4096 + off) data"
proof (rule ext)
  fix x
  let ?b = "overlay (map (\<lambda>i. m (s * 4096 + i)) [0..<4096]) off data"
  have len: "length ?b = 4096" using assms by simp
  show "overwritten (\<lambda>x. if x div 4096 = s then 0xFF else m x) (s * 4096) ?b x = overwritten m (s * 4096 + off) data x"
  proof (cases "s * 4096 \<le> x \<and> x < s * 4096 + 4096")
    case True
    then have "?b ! (x - s * 4096) = (if off \<le> x - s * 4096 \<and> x - s * 4096 < off + length data
        then data ! (x - s * 4096 - off) else m x)"
      using assms by (subst overlay_nth) auto
    then show ?thesis using True len by (auto simp: overwritten_def)
  next
    case False
    then have "x div 4096 \<noteq> s" by auto
    then show ?thesis using False assms len by (auto simp: overwritten_def)
  qed
qed

lemma write_sector_spec:
  assumes chip: "w25q spi mem wel busy" and c: "busy c = 0" "length secbuf = 4096"
    and a: "unat a = unat secpos * 4096 + unat secoff" "unat a < FLASH_SIZE"
    and n: "unat secoff + unat n \<le> 4096" "unat n \<le> length buf"
  shows "\<exists>b' c'. write_sector spi buf a secpos secoff n secbuf c = Some (b', c') \<and> length b' = 4096 \<and> busy c' = 0 \<and>
    mem c' = overwritten (mem c) (unat a) (take (unat n) buf)"
proof -
  let ?S = "unat secpos * 4096" and ?off = "unat secoff"
  have S: "?S < FLASH_SIZE" "?S + 4096 \<le> FLASH_SIZE"
  proof -
    show "?S < FLASH_SIZE" using a by simp
    then have "unat secpos < 512" by (simp add: FLASH_SIZE_def)
    then show "?S + 4096 \<le> FLASH_SIZE" by (simp add: FLASH_SIZE_def)
  qed
  have sp: "unat (secpos * 4096) = ?S"
    using unat_mult_lem [of secpos 4096] S(1) by (simp add: FLASH_SIZE_def)
  let ?old = "map (\<lambda>i. mem c (?S + i)) [0..<4096]"
  obtain c1 where c1: "SPI_Flash_Read spi secbuf (secpos * 4096) 4096 c = Some (?old, c1)" "busy c1 = 0" "mem c1 = mem c"
    using read_spec [OF chip c(1), of 4096 secbuf "secpos * 4096"] sp S(2) c(2) by (auto simp: overlay_full)
  have er: "needs_erase ?old ?off [0..<unat n] = Some (\<exists>j < unat n. mem c (?S + ?off + j) \<noteq> 0xFF)"
    using n(1) by (subst needs_erase_spec) (auto simp: add.assoc)
  let ?data = "take (unat n) buf"
  show ?thesis
  proof (cases "\<exists>j < unat n. mem c (?S + ?off + j) \<noteq> 0xFF")
    case True
    obtain c2 where c2: "SPI_Flash_Erase_Sector spi secpos c1 = Some c2" "busy c2 = 0"
      "mem c2 = (\<lambda>x. if x div 4096 = unat secpos then 0xFF else mem c x)"
      using erase_sector_spec [OF chip c1(2) S(1), unfolded c1(3)] by blast
    let ?b2 = "overlay ?old ?off ?data"
    have b2: "forM [0..<unat n] (\<lambda>i b. do { v \<leftarrow> rd buf i; wr b (?off + i) v }) ?old = Some ?b2" "length ?b2 = 4096"
      using copy_into_buffer [OF n(2), of ?off ?old] n by simp_all
    obtain c3 where c3: "SPI_Flash_Write_NoCheck spi ?b2 (secpos * 4096) 4096 c2 = Some c3" "busy c3 = 0"
      "mem c3 = programmed (mem c2) ?S ?b2"
      using write_nocheck_spec [OF chip c2(2), of 4096 ?b2 "secpos * 4096"] sp S(2) b2(2) by auto
    have "mem c3 = overwritten (mem c2) ?S ?b2"
      unfolding c3(3) by (rule programmed_erased) (use b2(2) in \<open>simp add: c2(3)\<close>)
    also have "\<dots> = overwritten (mem c) (unat a) ?data"
      unfolding c2(3) a(1) by (rule sector_rebuilt) (use n in simp)
    finally show ?thesis using c1(1) er True c2(1) b2 c3(1,2) by (simp add: write_sector_def)
  next
    case False
    obtain c2 where c2: "SPI_Flash_Write_NoCheck spi buf a n c1 = Some c2" "busy c2 = 0"
      "mem c2 = programmed (mem c) (unat a) ?data"
      using write_nocheck_spec [OF chip c1(2) n(2), of a] a S(2) n(1) c1(3) by auto
    moreover have "programmed (mem c) (unat a) ?data = overwritten (mem c) (unat a) ?data"
      using False a(1) by (intro programmed_erased) auto
    ultimately show ?thesis using c1(1) er False by (simp add: write_sector_def)
  qed
qed

lemma write_loop_spec:
  assumes chip: "w25q spi mem wel busy"
  shows "busy c = 0 \<Longrightarrow> length secbuf = 4096 \<Longrightarrow> unat n \<le> length buf \<Longrightarrow> unat a + unat n \<le> FLASH_SIZE \<Longrightarrow>
    unat a < FLASH_SIZE \<Longrightarrow> unat a = unat secpos * 4096 + unat secoff \<Longrightarrow> p \<le> n \<Longrightarrow> unat secoff + unat p \<le> 4096 \<Longrightarrow>
    p = n \<or> 0 < unat p \<and> unat secoff + unat p = 4096 \<Longrightarrow>
    \<exists>b' c'. write_loop spi buf a n secpos secoff p secbuf c = Some (b', c') \<and> busy c' = 0 \<and>
      mem c' = overwritten (mem c) (unat a) (take (unat n) buf)"
proof (induction "unat n" arbitrary: buf a n secpos secoff p secbuf c rule: less_induct)
  case less
  have pn: "unat p \<le> unat n" using less.prems(7) by (simp add: word_le_nat_alt)
  obtain b1 c1 where c1: "write_sector spi buf a secpos secoff p secbuf c = Some (b1, c1)" "length b1 = 4096" "busy c1 = 0"
    "mem c1 = overwritten (mem c) (unat a) (take (unat p) buf)"
    using write_sector_spec [OF chip less.prems(1,2,6,5,8), of buf] less.prems(3) pn by auto
  show ?case
  proof (cases "p = n")
    case True
    then show ?thesis using c1 by (subst write_loop.simps) simp
  next
    case False
    let ?n1 = "n - p" and ?a1 = "a + ucast p" and ?b1 = "drop (unat p) buf"
    let ?p1 = "if ?n1 > 4096 then 4096 else ?n1"
    have p: "0 < unat p" "unat secoff + unat p = 4096" using less.prems(9) False by auto
    have n1: "unat ?n1 = unat n - unat p" using less.prems(7) by (rule unat_sub_u16)
    have n1_pos: "0 < unat ?n1" using False by (simp add: unat_gt_0)
    have a1: "unat ?a1 = unat a + unat p"
      using less.prems(4) pn by (intro unat_add_u32) (simp add: FLASH_SIZE_def)
    have sp: "unat (secpos + 1) = unat secpos + 1"
      using unat_add_lem [of secpos 1] less.prems(5,6) by (simp add: FLASH_SIZE_def)
    have p1: "?p1 \<le> ?n1" "unat ?p1 \<le> 4096" "?p1 = ?n1 \<or> unat ?p1 = 4096" by (auto simp: word_less_nat_alt word_le_nat_alt)
    have "\<exists>b' c'. write_loop spi ?b1 ?a1 ?n1 (secpos + 1) 0 ?p1 b1 c1 = Some (b', c') \<and> busy c' = 0 \<and>
        mem c' = overwritten (mem c1) (unat ?a1) (take (unat ?n1) ?b1)"
    proof (rule less.hyps)
      show "unat ?n1 < unat n" using n1 p(1) pn by linarith
      show "unat ?n1 \<le> length ?b1" using n1 less.prems(3) by simp
      show "unat ?a1 + unat ?n1 \<le> FLASH_SIZE" using n1 a1 less.prems(4) pn by simp
      show "unat ?a1 < FLASH_SIZE" using n1 a1 less.prems(4) n1_pos pn by simp
      show "unat ?a1 = unat (secpos + 1) * 4096 + unat (0 :: u16)" using a1 sp p(2) less.prems(6) by simp
      show "?p1 = ?n1 \<or> 0 < unat ?p1 \<and> unat (0 :: u16) + unat ?p1 = 4096" using p1(3) by auto
    qed (use c1(2,3) p1(1,2) in simp_all)
    then obtain b' c' where c': "write_loop spi ?b1 ?a1 ?n1 (secpos + 1) 0 ?p1 b1 c1 = Some (b', c')" "busy c' = 0"
      "mem c' = overwritten (mem c1) (unat ?a1) (take (unat ?n1) ?b1)" by blast
    have "mem c' = overwritten (mem c) (unat a) (take (unat p) buf @ take (unat ?n1) ?b1)"
      unfolding c'(3) c1(4) using a1 overwritten_append [of "mem c" "unat a" "take (unat p) buf"] less.prems(3) pn
      by (simp add: min_absorb2)
    also have "take (unat p) buf @ take (unat ?n1) ?b1 = take (unat n) buf"
      using n1 pn by (metis le_add_diff_inverse take_add)
    finally show ?thesis using c1(1) c'(1,2) False by (subst write_loop.simps) (simp add: Let_def)
  qed
qed

lemma flash_write_spec:
  assumes "w25q spi mem wel busy" "busy c = 0" "length secbuf = 4096" "unat n \<le> length buf"
    and "unat a + unat n \<le> FLASH_SIZE" "unat a < FLASH_SIZE"
  shows "\<exists>b' c'. SPI_Flash_Write spi buf a n secbuf c = Some (b', c') \<and> busy c' = 0 \<and>
    mem c' = overwritten (mem c) (unat a) (take (unat n) buf)"
proof -
  have off: "unat (a mod 4096) = unat a mod 4096" "unat (a div 4096) = unat a div 4096" by (simp_all add: unat_mod unat_div)
  let ?off = "ucast (a mod 4096) :: u16"
  have o: "unat ?off = unat a mod 4096" using off by (subst unat_ucast_u32_u16) simp_all
  have "?off \<le> 4096" using o by (simp add: word_le_nat_alt)
  then have r: "unat (4096 - ?off) = 4096 - unat a mod 4096" using o by (simp add: unat_sub)
  let ?r = "4096 - ?off" let ?p = "if n \<le> ?r then n else ?r"
  have m: "unat a mod 4096 < 4096" by simp
  have "?p \<le> n" "unat ?off + unat ?p \<le> 4096" using o r m by (auto simp: word_le_nat_alt)
  moreover have "?p = n \<or> 0 < unat ?p \<and> unat ?off + unat ?p = 4096" using o r m by auto
  moreover have "unat a = unat (a div 4096) * 4096 + unat ?off" using off o by simp
  ultimately show ?thesis unfolding SPI_Flash_Write_def Let_def
    by (intro write_loop_spec [OF assms(1-6)])
qed

section \<open>Properties\<close>

text \<open>The state of the chip after n status reads.\<close>

primrec polled :: "'c spi \<Rightarrow> nat \<Rightarrow> 'c \<Rightarrow> 'c" where
  "polled spi 0 c = c"
| "polled spi (Suc n) c = polled spi n (snd (SPI_Flash_ReadSR spi c))"

definition reports_busy :: "'c spi \<Rightarrow> 'c \<Rightarrow> bool" where
  "reports_busy spi c \<longleftrightarrow> fst (SPI_Flash_ReadSR spi c) AND 1 = 1"

lemma wait_busy_step:
  "SPI_Flash_Wait_Busy spi c = (if reports_busy spi c then SPI_Flash_Wait_Busy spi (polled spi 1 c) else Some (polled spi 1 c))"
  by (subst SPI_Flash_Wait_Busy.simps) (simp add: reports_busy_def split_beta)

lemma wait_busy_polls:
  "\<forall>i < n. reports_busy spi (polled spi i c) \<Longrightarrow> \<not> reports_busy spi (polled spi n c) \<Longrightarrow>
   SPI_Flash_Wait_Busy spi c = Some (polled spi (Suc n) c)"
proof (induction n arbitrary: c)
  case 0
  then have "\<not> reports_busy spi c" by simp
  then show ?case by (simp only: wait_busy_step [of spi c] if_False One_nat_def)
next
  case (Suc n)
  have "reports_busy spi (polled spi i (polled spi 1 c))" if "i < n" for i
    using Suc.prems(1) [rule_format, of "Suc i"] that by simp
  moreover have "\<not> reports_busy spi (polled spi n (polled spi 1 c))" using Suc.prems(2) by simp
  ultimately have "SPI_Flash_Wait_Busy spi (polled spi 1 c) = Some (polled spi (Suc n) (polled spi 1 c))"
    by (intro Suc.IH) simp_all
  moreover have "reports_busy spi c" using Suc.prems(1) [rule_format, of 0] by simp
  ultimately have "SPI_Flash_Wait_Busy spi c = Some (polled spi (Suc n) (polled spi 1 c))"
    by (simp only: wait_busy_step [of spi c] if_True)
  then show ?case by simp
qed

lemma wait_busy_returns_polls:
  assumes "SPI_Flash_Wait_Busy spi c = Some c'"
  shows "\<exists>n. (\<forall>i < n. reports_busy spi (polled spi i c)) \<and> \<not> reports_busy spi (polled spi n c)"
  using assms
proof (rule SPI_Flash_Wait_Busy.raw_induct [rotated, where P = "\<lambda>spi c c'. \<exists>n. (\<forall>i < n. reports_busy spi (polled spi i c)) \<and>
    \<not> reports_busy spi (polled spi n c)"])
  fix wait :: "'a spi \<Rightarrow> 'a \<Rightarrow> 'a option" and spi :: "'a spi" and c c' :: 'a
  assume IH: "\<And>spi c c'. wait spi c = Some c' \<Longrightarrow>
      \<exists>n. (\<forall>i < n. reports_busy spi (polled spi i c)) \<and> \<not> reports_busy spi (polled spi n c)"
    and step: "(let (sr, c1) = SPI_Flash_ReadSR spi c in if sr AND 1 = 1 then wait spi c1 else Some c1) = Some c'"
  show "\<exists>n. (\<forall>i < n. reports_busy spi (polled spi i c)) \<and> \<not> reports_busy spi (polled spi n c)"
  proof (cases "reports_busy spi c")
    case True
    obtain sr c1 where sr: "SPI_Flash_ReadSR spi c = (sr, c1)" by fastforce
    with True step have w: "wait spi c1 = Some c'" by (simp only: reports_busy_def Let_def split fst_conv if_True simp_thms)
    have p: "polled spi (Suc j) c = polled spi j c1" for j by (simp add: sr)
    obtain n where n: "\<forall>i < n. reports_busy spi (polled spi i c1)" "\<not> reports_busy spi (polled spi n c1)"
      using IH [OF w] by blast
    have "reports_busy spi (polled spi i c)" if "i < Suc n" for i
    proof (cases i)
      case 0
      then show ?thesis using True by simp
    next
      case (Suc j)
      then show ?thesis using n(1) that unfolding Suc p by simp
    qed
    moreover have "\<not> reports_busy spi (polled spi (Suc n) c)" unfolding p by (rule n(2))
    ultimately show ?thesis by blast
  next
    case False
    then show ?thesis by (intro exI [of _ 0]) simp
  qed
qed

text \<open>
  When waiting for the flash chip ends. Whatever the chip does,
  SPI_Flash_Wait_Busy returns exactly when some status read has the busy bit clear, and it returns
  right after the first such read. There is no time limit: a chip that stays busy hangs the caller.
\<close>

theorem wait_busy_returns:
  "SPI_Flash_Wait_Busy spi c = Some c' \<longleftrightarrow>
     (\<exists>n. (\<forall>i < n. reports_busy spi (polled spi i c)) \<and> \<not> reports_busy spi (polled spi n c) \<and> c' = polled spi (Suc n) c)"
proof
  assume a: "SPI_Flash_Wait_Busy spi c = Some c'"
  from wait_busy_returns_polls [OF a] obtain n where n: "\<forall>i < n. reports_busy spi (polled spi i c)"
    "\<not> reports_busy spi (polled spi n c)" by blast
  moreover have "c' = polled spi (Suc n) c" using a wait_busy_polls [OF n] by simp
  ultimately show "\<exists>n. (\<forall>i < n. reports_busy spi (polled spi i c)) \<and>
      \<not> reports_busy spi (polled spi n c) \<and> c' = polled spi (Suc n) c" by blast
next
  assume "\<exists>n. (\<forall>i < n. reports_busy spi (polled spi i c)) \<and> \<not> reports_busy spi (polled spi n c) \<and> c' = polled spi (Suc n) c"
  then obtain n where n: "\<forall>i < n. reports_busy spi (polled spi i c)" "\<not> reports_busy spi (polled spi n c)"
    "c' = polled spi (Suc n) c" by blast
  show "SPI_Flash_Wait_Busy spi c = Some c'" unfolding n(3) by (rule wait_busy_polls [OF n(1,2)])
qed

text \<open>
  Property C34 (flash_write_replaces): writing the flash memory. On a chip that behaves as documented
  and is not busy, SPI_Flash_Write at any address and for any length that fits the chip returns and
  replaces exactly the given range of bytes by the data; every other byte of the chip keeps its
  value, although whole sectors are erased on the way and pages must not be crossed.
\<close>

theorem flash_write_replaces:
  assumes "w25q spi mem wel busy" "busy c = 0" "length secbuf = 4096" "unat n \<le> length buf"
    and "unat a + unat n \<le> FLASH_SIZE" "unat a < FLASH_SIZE"
  shows "\<exists>b' c'. SPI_Flash_Write spi buf a n secbuf c = Some (b', c') \<and> busy c' = 0 \<and>
    (\<forall>i < unat n. mem c' (unat a + i) = buf ! i) \<and>
    (\<forall>x. x < unat a \<or> unat a + unat n \<le> x \<longrightarrow> mem c' x = mem c x)"
proof -
  obtain b' c' where c': "SPI_Flash_Write spi buf a n secbuf c = Some (b', c')" "busy c' = 0"
    "mem c' = overwritten (mem c) (unat a) (take (unat n) buf)"
    using flash_write_spec [OF assms] by blast
  then show ?thesis using assms(4) by (auto simp: overwritten_def)
qed

text \<open>A chip to run the driver on.\<close>

record sim_chip =
  cells :: "nat \<Rightarrow> u8"
  latch :: bool
  pending :: nat

definition sim_addr :: "u8 list \<Rightarrow> nat" where
  "sim_addr bs = unat (bs ! 0) * 65536 + unat (bs ! 1) * 256 + unat (bs ! 2)"

definition sim_spi :: "sim_chip spi" where
  "sim_spi c bs = (let cmd = hd bs; arg = tl bs in
     if cmd = W25X_ReadStatusReg then ([0, if 0 < pending c then 1 else 0], c\<lparr>pending := pending c - 1\<rparr>)
     else if cmd = W25X_WriteEnable then ([0], c\<lparr>latch := True\<rparr>)
     else if cmd = W25X_ReadData then
       (replicate 4 0 @ map (\<lambda>i. cells c (sim_addr arg + i)) [0..<length arg - 3], c)
     else if cmd = W25X_PageProgram then
       ([], c\<lparr>cells := programmed (cells c) (sim_addr arg) (drop 3 arg), latch := False, pending := 2\<rparr>)
     else if cmd = W25X_SectorErase then
       ([], c\<lparr>cells := (\<lambda>x. if x div 4096 = sim_addr arg div 4096 then 0xFF else cells c x), latch := False, pending := 3\<rparr>)
     else ([], c))"

lemma sim_addr_addr24: "unat a \<le> FLASH_SIZE \<Longrightarrow> sim_addr (addr24 a @ bs) = unat a"
proof -
  assume a: "unat a \<le> FLASH_SIZE"
  have "unat (ucast (drop_bit 16 a) :: u8) = unat a div 65536 mod 256" "unat (ucast (drop_bit 8 a) :: u8) = unat a div 256 mod 256"
    "unat (ucast a :: u8) = unat a mod 256"
    by (simp_all add: unsigned_ucast_eq unat_drop_bit_eq drop_bit_eq_div take_bit_eq_mod unat_div)
  then have e: "sim_addr (addr24 a @ bs) = unat a div 65536 mod 256 * 65536 + unat a div 256 mod 256 * 256 + unat a mod 256"
    by (simp add: sim_addr_def addr24_def)
  have "unat a div 65536 < 256" using a by (simp add: FLASH_SIZE_def)
  moreover have "unat a = unat a div 65536 * 65536 + unat a div 256 mod 256 * 256 + unat a mod 256"
  proof -
    let ?q = "unat a div 256"
    have "unat a = ?q * 256 + unat a mod 256" "?q = ?q div 256 * 256 + ?q mod 256" by (rule div_mult_mod_eq [symmetric])+
    moreover have "unat a div 65536 = ?q div 256" by (simp add: div_mult2_eq [symmetric])
    ultimately show ?thesis by linarith
  qed
  ultimately show ?thesis unfolding e by simp
qed

lemma sim_w25q: "w25q sim_spi cells latch pending"
proof -
  have a: "tl (cmd # addr24 a @ bs) = addr24 a @ bs" "length (addr24 a) = 3" for cmd a bs by (simp_all add: addr24_def)
  have "sim_addr (addr24 a @ bs) = unat a" if "unat a + n \<le> FLASH_SIZE" for a bs n
    using that by (intro sim_addr_addr24) simp
  moreover have "sim_addr (addr24 a) = unat a" if "unat a < FLASH_SIZE" for a
    using sim_addr_addr24 [of a "[]"] that by simp
  ultimately show ?thesis
    unfolding w25q_def by (auto simp: sim_spi_def w25x_defs Let_def a nth_append)
qed

theorem wait_busy_returns_witness:
  "SPI_Flash_Wait_Busy sim_spi \<lparr>cells = (\<lambda>x. 7), latch = False, pending = 1\<rparr> = Some \<lparr>cells = (\<lambda>x. 7), latch = False, pending = 0\<rparr>"
proof -
  let ?c = "\<lparr>cells = (\<lambda>x. 7), latch = False, pending = 1\<rparr> :: sim_chip"
  have p: "polled sim_spi 1 ?c = ?c\<lparr>pending := 0\<rparr>" "polled sim_spi 2 ?c = ?c\<lparr>pending := 0\<rparr>"
    by (simp_all add: numeral_2_eq_2 SPI_Flash_ReadSR_def sim_spi_def w25x_defs)
  have "reports_busy sim_spi (polled sim_spi 0 ?c)" "\<not> reports_busy sim_spi (polled sim_spi 1 ?c)"
    unfolding p by (simp_all add: reports_busy_def SPI_Flash_ReadSR_def sim_spi_def w25x_defs)
  then have "SPI_Flash_Wait_Busy sim_spi ?c = Some (?c\<lparr>pending := 0\<rparr>)"
    unfolding wait_busy_returns using p(2) by (intro exI [of _ 1]) (simp add: numeral_2_eq_2)
  then show ?thesis by simp
qed

theorem flash_write_replaces_witness:
  "\<exists>b' c'. SPI_Flash_Write sim_spi [1, 2, 3] 4095 3 (replicate 4096 0) \<lparr>cells = (\<lambda>x. 7), latch = False, pending = 0\<rparr> = Some (b', c') \<and>
     cells c' 4094 = 7 \<and> cells c' 4095 = 1 \<and> cells c' 4096 = 2 \<and> cells c' 4097 = 3 \<and> cells c' 4098 = 7"
proof -
  have "\<exists>b' c'. SPI_Flash_Write sim_spi [1, 2, 3] 4095 3 (replicate 4096 0) \<lparr>cells = (\<lambda>x. 7), latch = False, pending = 0\<rparr> = Some (b', c') \<and>
    pending c' = 0 \<and> (\<forall>i < unat (3 :: u16). cells c' (unat (4095 :: u32) + i) = [1, 2, 3] ! i) \<and>
    (\<forall>x. x < unat (4095 :: u32) \<or> unat (4095 :: u32) + unat (3 :: u16) \<le> x \<longrightarrow>
      cells c' x = cells \<lparr>cells = (\<lambda>x. 7), latch = False, pending = 0\<rparr> x)"
    by (rule flash_write_replaces [OF sim_w25q]) (simp_all add: FLASH_SIZE_def)
  then obtain b' c' where c': "SPI_Flash_Write sim_spi [1, 2, 3] 4095 3 (replicate 4096 0) \<lparr>cells = (\<lambda>x. 7), latch = False, pending = 0\<rparr> = Some (b', c')"
    "\<And>i. i < 3 \<Longrightarrow> cells c' (4095 + i) = [1, 2, 3] ! i" "\<And>x. x < 4095 \<or> 4098 \<le> x \<Longrightarrow> cells c' x = 7" by auto
  then show ?thesis using c'(2) [of 0] c'(2) [of 1] c'(2) [of 2] by auto
qed

end
