(* ===== verification/Link_Frame.thy ===== *)
theory Link_Frame
  imports Cash_Prelude
begin

text \<open>
  The UART link between the main controller (src/MDK/commu.c) and the keyboard controller
  (src/slave2/USER/commu_mcu.c). A packet is a head byte ('S' from the main controller, 'R' to
  it), the length of the payload in two bytes, a type byte and the payload. The two receivers are
  the same state machine, run one received byte at a time by the UART interrupt; rx_step is its
  step and rx_run feeds it a stream. A completed packet is the first len + 3 bytes of the receive
  buffer: the two length bytes, the type and the payload.
\<close>

section \<open>Packet types and heads\<close>

datatype commu_type = FLASH_READ_CMD | FLASH_READ_DATA | FLASH_WRITE | KEYBOARD_MS | KEYBOARD_SM
  | MOUSE_MS | MOUSE_SM | COM_WRITE | COM_DATA | COMMU_DEBUG

fun commu_code :: "commu_type \<Rightarrow> u8" where
  "commu_code FLASH_READ_CMD = 0"
| "commu_code FLASH_READ_DATA = 1"
| "commu_code FLASH_WRITE = 2"
| "commu_code KEYBOARD_MS = 3"
| "commu_code KEYBOARD_SM = 4"
| "commu_code MOUSE_MS = 5"
| "commu_code MOUSE_SM = 6"
| "commu_code COM_WRITE = 7"
| "commu_code COM_DATA = 8"
| "commu_code COMMU_DEBUG = 9"

lemma commu_code_inj: "commu_code a = commu_code b \<longleftrightarrow> a = b"
  by (cases a; cases b) simp_all

definition HEAD_MASTER_RECV :: u8 where "HEAD_MASTER_RECV = 83"  \<comment> \<open>'S'\<close>
definition HEAD_MASTER_SEND :: u8 where "HEAD_MASTER_SEND = 82"  \<comment> \<open>'R'\<close>

text \<open>
  The bytes put on the line by rt_thread_entry_commu_send (head 'S') and by the slave's commu_send
  (head 'R'): len >> 8 is cut to a byte by commu_putchar.
\<close>

definition commu_send_bytes :: "u8 \<Rightarrow> u8 list \<Rightarrow> nat \<Rightarrow> u8 \<Rightarrow> u8 list option" where
  "commu_send_bytes head buf len ty =
     forM [0..<len] (\<lambda>i out. do { b \<leftarrow> rd buf i; Some (out @ [b]) }) [head, hi8 len, lo8 len, ty]"

definition link_frame :: "u8 \<Rightarrow> u8 \<Rightarrow> u8 list \<Rightarrow> u8 list" where
  "link_frame head ty payload = [head, hi8 (length payload), lo8 (length payload), ty] @ payload"

lemma commu_send_bytes_frame:
  assumes "len \<le> length buf"
  shows "commu_send_bytes head buf len ty = Some (link_frame head ty (take len buf))"
proof -
  have "n \<le> length buf \<Longrightarrow> forM [0..<n] (\<lambda>i out. do { b \<leftarrow> rd buf i; Some (out @ [b]) }) acc = Some (acc @ take n buf)" for n acc
    by (induction n) (simp_all add: forM_append take_Suc_conv_app_nth)
  with assms show ?thesis by (simp add: commu_send_bytes_def link_frame_def min_def)
qed

section \<open>The receiver\<close>

record link_rx =
  recving :: bool
  rx_cnt :: nat
  rx_len :: nat
  rx_buf :: "u8 list"

definition RECV_BUF_SIZE :: nat where "RECV_BUF_SIZE = 600"

definition rx_step :: "u8 \<Rightarrow> u8 \<Rightarrow> link_rx \<Rightarrow> (link_rx \<times> nat option) option" where
  "rx_step head d st =
     (if \<not> recving st then
        (if d = head then Some (st\<lparr>recving := True, rx_cnt := 0, rx_len := 0\<rparr>, None)
         else Some (st, None))
      else do {
        let pos = (if rx_cnt st > RECV_BUF_SIZE + 1 then RECV_BUF_SIZE - 1 else rx_cnt st);
        buf \<leftarrow> wr (rx_buf st) pos d;
        let st1 = st\<lparr>rx_buf := buf, rx_cnt := rx_cnt st + 1\<rparr>;
        (if rx_cnt st = 0 then Some (st1\<lparr>rx_len := 256 * unat d\<rparr>, None)
         else if rx_cnt st = 1 then Some (st1\<lparr>rx_len := rx_len st OR unat d\<rparr>, None)
         else if rx_cnt st < rx_len st + 2 then Some (st1, None)
         else Some (st1\<lparr>recving := False\<rparr>, Some (rx_len st)))
      })"

fun rx_run :: "u8 \<Rightarrow> u8 list \<Rightarrow> link_rx \<Rightarrow> (link_rx \<times> u8 list list) option" where
  "rx_run head [] st = Some (st, [])"
| "rx_run head (d # ds) st = do {
     (st1, ev) \<leftarrow> rx_step head d st;
     (st2, ps) \<leftarrow> rx_run head ds st1;
     Some (st2, (case ev of None \<Rightarrow> ps | Some len \<Rightarrow> take (len + 3) (rx_buf st1) # ps)) }"

lemma rx_run_append: "rx_run head (xs @ ys) st = do {
    (st1, ps) \<leftarrow> rx_run head xs st; (st2, qs) \<leftarrow> rx_run head ys st1; Some (st2, ps @ qs) }"
  by (induction xs arbitrary: st) (auto split: Option.bind_splits option.splits prod.splits)

lemma rx_noise: "\<not> recving st \<Longrightarrow> head \<notin> set ds \<Longrightarrow> rx_run head ds st = Some (st, [])"
  by (induction ds) (auto simp: rx_step_def)

definition rx_ok :: "link_rx \<Rightarrow> bool" where
  "rx_ok st \<longleftrightarrow> length (rx_buf st) = RECV_BUF_SIZE"

lemma len_or:
  assumes "l < 256"
  shows "(256 * h OR l :: nat) = 256 * h + l"
proof -
  have h: "256 * h = push_bit 8 h" and l: "take_bit 8 l = l"
    using assms by (simp_all add: push_bit_eq_mult take_bit_nat_eq_self)
  have "\<not> bit (push_bit 8 h) n \<or> \<not> bit l n" for n
    by (subst l [symmetric]) (auto simp: bit_push_bit_iff_nat bit_take_bit_iff)
  then have "push_bit 8 h AND l = 0" by (intro bit_eqI) (simp add: bit_and_iff)
  then show ?thesis by (simp add: h disjunctive_add_eq_or)
qed

text \<open>
  The body of a packet: with c bytes stored, c at least 2, the next bytes xs are stored behind them
  as long as the announced length len has not been reached; the byte that reaches it completes the
  packet.
\<close>

lemma rx_body:
  assumes "recving st" "rx_cnt st = c" "2 \<le> c" "c + length xs \<le> rx_len st + 2" "c + length xs \<le> RECV_BUF_SIZE" "rx_ok st"
  shows "rx_run head xs st = Some (st\<lparr>rx_buf := overlay (rx_buf st) c xs, rx_cnt := c + length xs\<rparr>, [])"
  using assms
proof (induction xs arbitrary: st c)
  case Nil
  then show ?case by simp
next
  case (Cons x xs)
  let ?st1 = "st\<lparr>rx_buf := (rx_buf st)[c := x], rx_cnt := c + 1\<rparr>"
  have c: "c < length (rx_buf st)" "\<not> RECV_BUF_SIZE + 1 < c" using Cons.prems by (auto simp: rx_ok_def)
  then have "rx_step head x st = Some (?st1, None)" using Cons.prems by (simp add: rx_step_def Let_def)
  moreover have "overlay ((rx_buf st)[c := x]) (Suc c) xs = overlay (rx_buf st) c (x # xs)"
    using c Cons.prems by (intro nth_equalityI) (auto simp: overlay_nth nth_list_update nth_Cons' rx_ok_def)
  moreover have "rx_run head xs ?st1 = Some (?st1\<lparr>rx_buf := overlay (rx_buf ?st1) (c + 1) xs, rx_cnt := c + 1 + length xs\<rparr>, [])"
    using Cons.prems by (intro Cons.IH) (simp_all add: rx_ok_def)
  ultimately show ?case by simp
qed

lemma rx_last:
  assumes "recving st" "rx_cnt st = rx_len st + 2" "rx_len st + 2 < RECV_BUF_SIZE" "rx_ok st"
  shows "rx_step head x st = Some (st\<lparr>rx_buf := (rx_buf st)[rx_len st + 2 := x], rx_cnt := rx_len st + 3,
     recving := False\<rparr>, Some (rx_len st))"
  using assms by (simp add: rx_step_def Let_def rx_ok_def)

lemma rx_head:
  assumes "\<not> recving st" "rx_ok st" "n < 65536"
  shows "rx_run head [head, hi8 n, lo8 n] st = Some (st\<lparr>recving := True, rx_cnt := 2, rx_len := n,
     rx_buf := overlay (rx_buf st) 0 [hi8 n, lo8 n]\<rparr>, [])"
proof -
  have "256 * (n div 256) OR n mod 256 = n" by (simp add: len_or)
  moreover have "(rx_buf st)[0 := hi8 n, Suc 0 := lo8 n] = overlay (rx_buf st) 0 [hi8 n, lo8 n]"
    using assms(2) by (intro nth_equalityI) (auto simp: overlay_nth nth_list_update rx_ok_def RECV_BUF_SIZE_def less_2_cases_iff nth_Cons')
  ultimately show ?thesis
    using assms by (simp add: rx_step_def Let_def rx_ok_def RECV_BUF_SIZE_def)
qed

lemma rx_frame:
  assumes idle: "\<not> recving st" "rx_ok st" and n: "length payload \<le> 597"
  shows "\<exists>st'. rx_run head (link_frame head ty payload) st =
      Some (st', [[hi8 (length payload), lo8 (length payload), ty] @ payload]) \<and> \<not> recving st' \<and> rx_ok st'"
proof -
  let ?n = "length payload" let ?hl = "[hi8 ?n, lo8 ?n]"
  let ?st2 = "st\<lparr>recving := True, rx_cnt := 2, rx_len := ?n, rx_buf := overlay (rx_buf st) 0 ?hl\<rparr>"
  let ?body = "ty # payload"
  have ok2: "rx_ok ?st2" using idle(2) by (simp add: rx_ok_def RECV_BUF_SIZE_def)
  obtain xs x where b: "?body = xs @ [x]" by (metis append_butlast_last_id list.distinct(1))
  then have lx: "length xs = ?n" by (metis length_Cons length_append_singleton nat.inject)
  let ?st3 = "?st2\<lparr>rx_buf := overlay (rx_buf ?st2) 2 xs, rx_cnt := 2 + length xs\<rparr>"
  have r3: "rx_run head xs ?st2 = Some (?st3, [])"
    using ok2 n lx by (intro rx_body) (simp_all add: RECV_BUF_SIZE_def)
  have ok3: "rx_ok ?st3" using ok2 n lx by (simp add: rx_ok_def RECV_BUF_SIZE_def)
  let ?st4 = "?st3\<lparr>rx_buf := (rx_buf ?st3)[?n + 2 := x], rx_cnt := ?n + 3, recving := False\<rparr>"
  have r4: "rx_step head x ?st3 = Some (?st4, Some ?n)"
    using rx_last [of ?st3 head x] ok3 n lx by (simp add: RECV_BUF_SIZE_def)
  have buf: "take (?n + 3) (rx_buf ?st4) = ?hl @ xs @ [x]"
    using idle(2) n lx by (intro nth_equalityI)
      (auto simp: overlay_nth nth_list_update rx_ok_def RECV_BUF_SIZE_def nth_append nth_Cons' numeral_2_eq_2 numeral_3_eq_3)
  have "link_frame head ty payload = [head, hi8 ?n, lo8 ?n] @ xs @ [x]"
    using b by (simp add: link_frame_def)
  moreover have "rx_run head ([head, hi8 ?n, lo8 ?n] @ xs @ [x]) st = Some (?st4, [?hl @ xs @ [x]])"
    unfolding rx_run_append using rx_head [OF idle, of ?n head] n r3 r4 buf by simp
  moreover have "rx_ok ?st4" using ok3 by (simp add: rx_ok_def)
  ultimately show ?thesis using b by (intro exI [of _ ?st4]) simp
qed


section \<open>Streams of packets\<close>

text \<open>
  A line carries packets with noise between them: bytes that arrive while the receiver waits for
  a head and are not the head byte.
\<close>

datatype link_item = Noise "u8 list" | Packet u8 "u8 list"

fun wire :: "u8 \<Rightarrow> link_item list \<Rightarrow> u8 list" where
  "wire head [] = []"
| "wire head (Noise ds # is) = ds @ wire head is"
| "wire head (Packet ty p # is) = link_frame head ty p @ wire head is"

fun packets :: "link_item list \<Rightarrow> u8 list list" where
  "packets [] = []"
| "packets (Noise ds # is) = packets is"
| "packets (Packet ty p # is) = ([hi8 (length p), lo8 (length p), ty] @ p) # packets is"

fun item_ok :: "u8 \<Rightarrow> link_item \<Rightarrow> bool" where
  "item_ok head (Noise ds) = (head \<notin> set ds)"
| "item_ok head (Packet ty p) = (length p \<le> 597)"

lemma rx_stream:
  assumes "\<not> recving st" "rx_ok st" "\<forall>i \<in> set is. item_ok head i"
  shows "\<exists>st'. rx_run head (wire head is) st = Some (st', packets is) \<and> \<not> recving st' \<and> rx_ok st'"
  using assms
proof (induction "is" arbitrary: st)
  case Nil
  then show ?case by simp
next
  case (Cons i "is")
  show ?case
  proof (cases i)
    case (Noise ds)
    then have "rx_run head ds st = Some (st, [])" using Cons.prems by (intro rx_noise) simp_all
    with Cons Noise show ?thesis by (auto simp: rx_run_append)
  next
    case (Packet ty p)
    then obtain st1 where "rx_run head (link_frame head ty p) st =
      Some (st1, [[hi8 (length p), lo8 (length p), ty] @ p])" "\<not> recving st1" "rx_ok st1"
      using rx_frame [of st p head ty] Cons.prems by auto
    moreover obtain st2 where "rx_run head (wire head is) st1 = Some (st2, packets is)" "\<not> recving st2" "rx_ok st2"
      using Cons.IH [of st1] Cons.prems calculation by auto
    ultimately show ?thesis using Packet by (auto simp: rx_run_append)
  qed
qed

text \<open>
  A longer packet overruns the receive buffer: the index check of the source lets the offsets 600
  and 601 through.
\<close>

lemma rx_overrun:
  assumes idle: "\<not> recving st" "rx_ok st" and n: "597 < length payload" "length payload < 65536"
  shows "rx_run head (link_frame head ty payload) st = None"
proof -
  let ?n = "length payload" let ?hl = "[hi8 ?n, lo8 ?n]"
  let ?st2 = "st\<lparr>recving := True, rx_cnt := 2, rx_len := ?n, rx_buf := overlay (rx_buf st) 0 ?hl\<rparr>"
  have ok2: "rx_ok ?st2" using idle(2) by (simp add: rx_ok_def RECV_BUF_SIZE_def)
  let ?xs = "take 598 (ty # payload)"
  have lx: "length ?xs = 598" using n by simp
  obtain y ys where y: "drop 598 (ty # payload) = y # ys"
    by (cases "drop 598 (ty # payload)") (use n in auto)
  have split: "link_frame head ty payload = [head, hi8 ?n, lo8 ?n] @ ?xs @ y # ys"
    using append_take_drop_id [of 598 "ty # payload"] unfolding y by (simp add: link_frame_def)
  let ?st3 = "?st2\<lparr>rx_buf := overlay (rx_buf ?st2) 2 ?xs, rx_cnt := 600\<rparr>"
  have r3: "rx_run head ?xs ?st2 = Some (?st3, [])"
    using rx_body [of ?st2 2 ?xs head] ok2 n lx by (simp add: RECV_BUF_SIZE_def)
  have "rx_ok ?st3" using ok2 lx by (simp add: rx_ok_def RECV_BUF_SIZE_def)
  then have "rx_step head y ?st3 = None" by (simp add: rx_step_def Let_def rx_ok_def RECV_BUF_SIZE_def)
  then have r4: "rx_run head (y # ys) ?st3 = None" by simp
  have r1: "rx_run head [head, hi8 ?n, lo8 ?n] st = Some (?st2, [])"
    using rx_head [OF idle, of ?n head] n by simp
  have "rx_run head (?xs @ y # ys) ?st2 = None"
    by (simp only: rx_run_append r3 r4 bind.simps prod.case)
  then show ?thesis
    by (simp only: split rx_run_append r1 bind.simps prod.case)
qed

section \<open>Properties\<close>

definition rx_idle :: "u8 list \<Rightarrow> link_rx" where
  "rx_idle buf = \<lparr>recving = False, rx_cnt = 0, rx_len = 0, rx_buf = buf\<rparr>"



text \<open>
  The bound of link_roundtrip is exact. A packet with a two-byte length
  is received without leaving the 600-byte receive buffer if and only if its payload has at most
  597 bytes; from 598 on the receiver writes behind the buffer.
\<close>

theorem link_overrun:
  assumes "length buf = RECV_BUF_SIZE" "length payload < 65536"
  shows "rx_run head (link_frame head ty payload) (rx_idle buf) \<noteq> None \<longleftrightarrow> length payload \<le> 597"
proof (cases "length payload \<le> 597")
  case True
  with rx_frame [of "rx_idle buf" payload head ty] assms show ?thesis by (auto simp: rx_idle_def rx_ok_def)
next
  case False
  with rx_overrun [of "rx_idle buf" payload head ty] assms show ?thesis by (simp add: rx_idle_def rx_ok_def)
qed

theorem link_overrun_witness:
  "rx_run 82 (link_frame 82 1 (replicate 598 0)) (rx_idle (replicate 600 0)) = None
   \<and> rx_run 82 (link_frame 82 1 (replicate 597 0)) (rx_idle (replicate 600 0)) \<noteq> None"
  using link_overrun [of "replicate 600 0" "replicate 598 0" 82 1]
    link_overrun [of "replicate 600 0" "replicate 597 0" 82 1]
  by (simp add: RECV_BUF_SIZE_def del: not_None_eq)

end
