(* ===== verification/Ini_Parse.thy ===== *)
theory Ini_Parse
  imports Cash_Prelude "HOL-Library.Sublist"
begin

text \<open>
  The reader of profile.ini (parse_file of src/APP/inifile.c). The file is a C string in a larger
  buffer; positions are indices into that buffer. A loop of the code is a function on the current
  index that is undefined when it runs off the buffer. Sections and keys are compared with strncmp
  for the length of the name in the file, so a name in the file matches every longer name.
\<close>

section \<open>Characters\<close>

definition newline :: "u8 \<Rightarrow> bool" where
  "newline c \<longleftrightarrow> c = 10 \<or> c = 13"

definition isspace :: "u8 \<Rightarrow> bool" where
  "isspace c \<longleftrightarrow> 9 \<le> c \<and> c \<le> 13 \<or> c = 32"

abbreviation LBR :: u8 where "LBR \<equiv> 91"
abbreviation RBR :: u8 where "RBR \<equiv> 93"
abbreviation EQC :: u8 where "EQC \<equiv> 61"
abbreviation SEMI :: u8 where "SEMI \<equiv> 59"

section \<open>Loops\<close>

text \<open>The first index from i on whose byte satisfies the condition; None when the buffer ends first.\<close>

function scan_to :: "(u8 \<Rightarrow> bool) \<Rightarrow> u8 list \<Rightarrow> nat \<Rightarrow> nat option" where
  "scan_to Q p i = (case rd p i of None \<Rightarrow> None | Some c \<Rightarrow> if Q c then Some i else scan_to Q p (i + 1))"
  by pat_completeness auto
termination
  by (relation "measure (\<lambda>(Q, p, i). length p - i)") (auto simp: rd_def split: if_splits)

declare scan_to.simps [simp del]

lemma scan_to_ge: "scan_to Q p i = Some e \<Longrightarrow> i \<le> e \<and> e < length p"
proof (induction Q p i rule: scan_to.induct)
  case (1 Q p i)
  then show ?case
    by (subst (asm) scan_to.simps) (auto simp: rd_Some_iff split: option.splits if_splits)
qed

text \<open>do i++ while not at the closing bracket and not at the end.\<close>

definition find_brace :: "u8 list \<Rightarrow> nat \<Rightarrow> nat option" where
  "find_brace p i = scan_to (\<lambda>c. c = RBR \<or> c = 0) p (i + 1)"

definition skip_space :: "u8 list \<Rightarrow> nat \<Rightarrow> nat option" where
  "skip_space p i = scan_to (\<lambda>c. \<not> isspace c) p i"

definition line_end :: "u8 list \<Rightarrow> nat \<Rightarrow> nat option" where
  "line_end p i = scan_to (\<lambda>c. newline c \<or> c = 0) p i"

lemma line_end_ge: "line_end p i = Some e \<Longrightarrow> i \<le> e \<and> e < length p"
  by (simp add: line_end_def scan_to_ge)

record ini_pos =
  sec_s :: int
  sec_e :: int
  key_s :: int
  key_e :: int
  value_s :: int
  value_e :: int

text \<open>
  The search for the equals sign in the line from ns to i, at index j; the answer is the index of
  the equals sign when the key before it matches.
\<close>

function find_key :: "u8 list \<Rightarrow> u8 list \<Rightarrow> nat \<Rightarrow> nat \<Rightarrow> nat \<Rightarrow> nat option option" where
  "find_key p key ns i j =
     (if \<not> j < i then Some None
      else (case rd p j of None \<Rightarrow> None
      | Some c \<Rightarrow>
          if c = EQC then Some None
          else (case rd p (j + 1) of None \<Rightarrow> None
          | Some d \<Rightarrow>
              if d = EQC then
                (case strncmp_eq (key @ [0]) (drop ns p) (j + 1 - ns) of None \<Rightarrow> None
                 | Some e \<Rightarrow> if e then Some (Some (j + 1)) else find_key p key ns i (j + 1))
              else find_key p key ns i (j + 1))))"
  by pat_completeness auto
termination
  by (relation "measure (\<lambda>(p, key, ns, i, j). i - j)") auto

declare find_key.simps [simp del]

datatype sec_res = KeyFound ini_pos | SecEnd nat

text \<open>The lines of a section, from index i on.\<close>

function section_lines :: "u8 list \<Rightarrow> u8 list \<Rightarrow> ini_pos \<Rightarrow> nat \<Rightarrow> sec_res option" where
  "section_lines p key pos i =
     (case rd p i of None \<Rightarrow> None
      | Some c \<Rightarrow>
          if c = 0 then Some (SecEnd i)
          else (case rd p (i - 1) of None \<Rightarrow> None
          | Some b \<Rightarrow>
              if newline b \<and> c = LBR then Some (SecEnd i)
              else (case line_end p i of None \<Rightarrow> None
              | Some e \<Rightarrow>
                  (case (if c \<noteq> SEMI then find_key p key i e i else Some None) of
                     None \<Rightarrow> None
                   | Some (Some j) \<Rightarrow> Some (KeyFound (pos\<lparr>key_s := int i, key_e := int j - 1,
                       value_s := int j + 1, value_e := int e\<rparr>))
                   | Some None \<Rightarrow> section_lines p key pos (e + 1)))))"
  by pat_completeness auto
termination
  by (relation "measure (\<lambda>(p, key, pos, i). length p - i)") (auto simp: rd_Some_iff line_end_def dest: scan_to_ge)

declare section_lines.simps [simp del]

lemma section_lines_ge: "section_lines p key pos i = Some (SecEnd n) \<Longrightarrow> i \<le> n"
proof (induction "length p - i" arbitrary: i rule: less_induct)
  case less
  have IH: "line_end p i = Some e \<Longrightarrow> section_lines p key pos (Suc e) = Some (SecEnd n) \<Longrightarrow> i \<le> n" for e
  proof -
    assume a: "line_end p i = Some e" "section_lines p key pos (Suc e) = Some (SecEnd n)"
    then have e: "i \<le> e" "e < length p" using line_end_ge by blast+
    then have "length p - Suc e < length p - i" by linarith
    then have "Suc e \<le> n" using less.hyps a(2) by blast
    then show "i \<le> n" using e(1) by linarith
  qed
  show ?case
    using less.prems by (subst (asm) section_lines.simps) (auto dest: IH split: option.splits if_splits)
qed

text \<open>The outer loop; the answer is 1 with the positions of the value, or 0.\<close>

function parse_loop :: "u8 list \<Rightarrow> u8 list \<Rightarrow> u8 list \<Rightarrow> ini_pos \<Rightarrow> nat \<Rightarrow> (nat \<times> ini_pos) option" where
  "parse_loop sec key p pos i =
     (case rd p i of None \<Rightarrow> None
      | Some c \<Rightarrow>
          if c = 0 then Some (0, pos)
          else (case (if i = 0 then Some True else map_option newline (rd p (i - 1))) of None \<Rightarrow> None
          | Some st \<Rightarrow>
              if st \<and> c = LBR then
                (case find_brace p i of None \<Rightarrow> None
                 | Some e \<Rightarrow>
                     (case strncmp_eq (drop (i + 1) p) (sec @ [0]) (e - (i + 1)) of None \<Rightarrow> None
                      | Some m \<Rightarrow>
                          if \<not> m then parse_loop sec key p pos e
                          else (case skip_space p (e + 1) of None \<Rightarrow> None
                           | Some b \<Rightarrow>
                               let pos1 = pos\<lparr>sec_s := int i + 1, sec_e := int b\<rparr> in
                               (case section_lines p key pos1 b of None \<Rightarrow> None
                                | Some (KeyFound pos2) \<Rightarrow> Some (1, pos2)
                                | Some (SecEnd n) \<Rightarrow> parse_loop sec key p pos1 n))))
              else parse_loop sec key p pos (i + 1)))"
  by pat_completeness auto
termination
  by (relation "measure (\<lambda>(sec, key, p, pos, i). length p - i)")
    (auto simp: rd_Some_iff find_brace_def skip_space_def dest!: scan_to_ge section_lines_ge)

declare parse_loop.simps [simp del]

definition no_pos :: ini_pos where
  "no_pos = \<lparr>sec_s = -1, sec_e = -1, key_s = -1, key_e = -1, value_s = -1, value_e = -1\<rparr>"

definition parse_file :: "u8 list \<Rightarrow> u8 list \<Rightarrow> u8 list \<Rightarrow> (nat \<times> ini_pos) option" where
  "parse_file sec key buf = parse_loop sec key buf no_pos 0"


section \<open>Files as sections of lines\<close>

datatype ini_line = Pair "u8 list" "u8 list" | Note "u8 list"

type_synonym ini_section = "u8 list \<times> ini_line list"

fun line_text :: "ini_line \<Rightarrow> u8 list" where
  "line_text (Pair k v) = k @ EQC # v"
| "line_text (Note cs) = SEMI # cs"

definition lines_text :: "ini_line list \<Rightarrow> u8 list" where
  "lines_text ls = concat (map (\<lambda>l. line_text l @ [10]) ls)"

definition section_text :: "ini_section \<Rightarrow> u8 list" where
  "section_text s = LBR # fst s @ [RBR, 10] @ lines_text (snd s)"

definition ini_text :: "ini_section list \<Rightarrow> u8 list" where
  "ini_text ss = concat (map section_text ss)"

fun line_ok :: "ini_line \<Rightarrow> bool" where
  "line_ok (Pair k v) \<longleftrightarrow> k \<noteq> [] \<and> hd k \<noteq> LBR \<and> hd k \<noteq> SEMI \<and> \<not> isspace (hd k) \<and> EQC \<notin> set k \<and>
     (\<forall>c \<in> set k \<union> set v. c \<noteq> 0 \<and> \<not> newline c)"
| "line_ok (Note cs) \<longleftrightarrow> (\<forall>c \<in> set cs. c \<noteq> 0 \<and> \<not> newline c)"

definition section_ok :: "ini_section \<Rightarrow> bool" where
  "section_ok s \<longleftrightarrow> 0 \<notin> set (fst s) \<and> RBR \<notin> set (fst s) \<and> (\<forall>l \<in> set (snd s). line_ok l)"

text \<open>
  What is found: the first value whose key is a prefix of the wanted key, in the first section
  whose name is a prefix of the wanted name and which has such a key.
\<close>

fun find_line :: "u8 list \<Rightarrow> ini_line list \<Rightarrow> u8 list option" where
  "find_line key [] = None"
| "find_line key (Pair k v # ls) = (if prefix k key then Some v else find_line key ls)"
| "find_line key (Note cs # ls) = find_line key ls"

fun find_value :: "u8 list \<Rightarrow> u8 list \<Rightarrow> ini_section list \<Rightarrow> u8 list option" where
  "find_value sec key [] = None"
| "find_value sec key (s # ss) =
     (if prefix (fst s) sec then (case find_line key (snd s) of Some v \<Rightarrow> Some v | None \<Rightarrow> find_value sec key ss)
      else find_value sec key ss)"

text \<open>Where the value stands, and the file with the value replaced.\<close>

fun line_off :: "u8 list \<Rightarrow> ini_line list \<Rightarrow> nat" where
  "line_off key [] = 0"
| "line_off key (Pair k v # ls) = (if prefix k key then length k + 1 else length k + length v + 2 + line_off key ls)"
| "line_off key (Note cs # ls) = length cs + 2 + line_off key ls"

fun value_off :: "u8 list \<Rightarrow> u8 list \<Rightarrow> ini_section list \<Rightarrow> nat" where
  "value_off sec key [] = 0"
| "value_off sec key (s # ss) =
     (if prefix (fst s) sec \<and> find_line key (snd s) \<noteq> None then length (fst s) + 3 + line_off key (snd s)
      else length (section_text s) + value_off sec key ss)"

fun set_line :: "u8 list \<Rightarrow> u8 list \<Rightarrow> ini_line list \<Rightarrow> ini_line list" where
  "set_line key new [] = []"
| "set_line key new (Pair k v # ls) = (if prefix k key then Pair k new # ls else Pair k v # set_line key new ls)"
| "set_line key new (Note cs # ls) = Note cs # set_line key new ls"

fun set_value :: "u8 list \<Rightarrow> u8 list \<Rightarrow> u8 list \<Rightarrow> ini_section list \<Rightarrow> ini_section list" where
  "set_value sec key new [] = []"
| "set_value sec key new (s # ss) =
     (if prefix (fst s) sec \<and> find_line key (snd s) \<noteq> None then (fst s, set_line key new (snd s)) # ss
      else s # set_value sec key new ss)"

lemma set_line_text:
  "find_line key ls = Some v \<Longrightarrow> \<exists>pre post. lines_text ls = pre @ v @ post \<and> length pre = line_off key ls \<and>
     lines_text (set_line key new ls) = pre @ new @ post \<and> find_line key (set_line key new ls) = Some new"
proof (induction key ls rule: find_line.induct)
  case (2 key k v' ls)
  show ?case
  proof (cases "prefix k key")
    case True
    with 2 show ?thesis by (intro exI [of _ "k @ [EQC]"] exI [of _ "10 # lines_text ls"]) (simp add: lines_text_def)
  next
    case False
    with 2 obtain pre post where "lines_text ls = pre @ v @ post" "length pre = line_off key ls"
      "lines_text (set_line key new ls) = pre @ new @ post" "find_line key (set_line key new ls) = Some new" by auto
    with False show ?thesis
      by (intro exI [of _ "k @ EQC # v' @ 10 # pre"] exI [of _ post]) (simp add: lines_text_def)
  qed
next
  case (3 key cs ls)
  then obtain pre post where "lines_text ls = pre @ v @ post" "length pre = line_off key ls"
    "lines_text (set_line key new ls) = pre @ new @ post" "find_line key (set_line key new ls) = Some new" by auto
  then show ?case by (intro exI [of _ "SEMI # cs @ 10 # pre"] exI [of _ post]) (simp add: lines_text_def)
qed simp

lemma set_value_text:
  "find_value sec key ss = Some v \<Longrightarrow> \<exists>pre post. ini_text ss = pre @ v @ post \<and> length pre = value_off sec key ss \<and>
     ini_text (set_value sec key new ss) = pre @ new @ post \<and> find_value sec key (set_value sec key new ss) = Some new"
proof (induction sec key ss rule: find_value.induct)
  case (2 sec key s ss)
  show ?case
  proof (cases "prefix (fst s) sec \<and> find_line key (snd s) \<noteq> None")
    case True
    then obtain v' where v': "find_line key (snd s) = Some v'" by auto
    obtain pre post where "lines_text (snd s) = pre @ v' @ post" "length pre = line_off key (snd s)"
      "lines_text (set_line key new (snd s)) = pre @ new @ post" "find_line key (set_line key new (snd s)) = Some new"
      using set_line_text [OF v'] by blast
    with True 2 v' show ?thesis
      by (intro exI [of _ "LBR # fst s @ [RBR, 10] @ pre"] exI [of _ "post @ ini_text ss"])
        (simp add: ini_text_def section_text_def)
  next
    case False
    with 2 obtain pre post where "ini_text ss = pre @ v @ post" "length pre = value_off sec key ss"
      "ini_text (set_value sec key new ss) = pre @ new @ post" "find_value sec key (set_value sec key new ss) = Some new"
      by (auto split: if_splits)
    with False show ?thesis by (intro exI [of _ "section_text s @ pre"] exI [of _ post]) (auto simp: ini_text_def)
  qed
qed simp

lemma set_line_ok: "\<forall>l \<in> set ls. line_ok l \<Longrightarrow> \<forall>c \<in> set new. c \<noteq> 0 \<and> \<not> newline c \<Longrightarrow> \<forall>l \<in> set (set_line key new ls). line_ok l"
  by (induction key new ls rule: set_line.induct) auto

lemma set_value_ok:
  "\<forall>s \<in> set ss. section_ok s \<Longrightarrow> \<forall>c \<in> set new. c \<noteq> 0 \<and> \<not> newline c \<Longrightarrow> \<forall>s \<in> set (set_value sec key new ss). section_ok s"
  by (induction sec key new ss rule: set_value.induct) (auto simp: section_ok_def dest: bspec [OF set_line_ok])

section \<open>The loops on such files\<close>

lemma scan_to_at:
  "at p i (cs @ [c]) \<Longrightarrow> \<forall>x \<in> set cs. \<not> Q x \<Longrightarrow> Q c \<Longrightarrow> scan_to Q p i = Some (i + length cs)"
proof (induction cs arbitrary: i)
  case Nil
  then show ?case by (subst scan_to.simps) simp
next
  case (Cons x xs)
  then show ?case by (subst scan_to.simps) simp
qed

lemma at_drop: "at p i xs \<Longrightarrow> i \<le> length p \<Longrightarrow> \<exists>r. drop i p = xs @ r"
proof (induction xs arbitrary: i)
  case (Cons x xs)
  then have "i < length p" "p ! i = x" by (auto simp: rd_Some_iff)
  moreover obtain r where "drop (Suc i) p = xs @ r" using Cons.IH [of "Suc i"] Cons.prems \<open>i < length p\<close> by auto
  ultimately show ?case by (auto simp flip: Cons_nth_drop_Suc)
qed simp

lemma strncmp_name:
  "0 \<notin> set k \<Longrightarrow> 0 \<notin> set s \<Longrightarrow> strncmp_eq (s @ [0]) (k @ r) (length k) = Some (prefix k s)"
proof (induction k arbitrary: s)
  case (Cons c k)
  then show ?case by (cases s) auto
qed simp

lemma strncmp_name': "0 \<notin> set k \<Longrightarrow> 0 \<notin> set s \<Longrightarrow> strncmp_eq (k @ r) (s @ [0]) (length k) = Some (prefix k s)"
proof (induction k arbitrary: s)
  case (Cons c k)
  then show ?case by (cases s) auto
qed simp

text \<open>The key of a line k=v is compared when the equals sign behind it is reached.\<close>

lemma find_key_pair:
  assumes "at p ns (k @ EQC # v)" "EQC \<notin> set k" "k \<noteq> []" "0 \<notin> set k" "0 \<notin> set key" "i = ns + length k + 1 + length v"
  shows "find_key p key ns i ns = Some (if prefix k key then Some (ns + length k) else None)"
proof -
  have ns: "ns \<le> length p"
    using assms(1,3) by (cases k) (auto simp: rd_Some_iff)
  obtain r where r: "drop ns p = k @ EQC # v @ r" using at_drop [OF assms(1) ns] by auto
  have cmp: "strncmp_eq (key @ [0]) (drop ns p) (length k) = Some (prefix k key)"
    unfolding r by (rule strncmp_name [OF assms(4,5)])
  have eq: "rd p (ns + length k) = Some EQC" using assms(1) by simp
  have stop: "find_key p key ns i (ns + length k) = Some None"
    using eq assms(6) by (subst find_key.simps) simp
  have ch: "rd p (ns + m) = Some (k ! m)" "k ! m \<noteq> EQC" if "m < length k" for m
  proof -
    have "k ! m \<in> set k" using that by simp
    then show "k ! m \<noteq> EQC" using assms(2) by metis
    show "rd p (ns + m) = Some (k ! m)" using assms(1) that by (simp add: at_def nth_append)
  qed
  have "m < length k \<Longrightarrow> find_key p key ns i (ns + m) = Some (if prefix k key then Some (ns + length k) else None)" for m
  proof (induction "length k - m" arbitrary: m)
    case (Suc d)
    note c = ch [OF Suc.prems]
    show ?case
    proof (cases "Suc m = length k")
      case True
      then have l: "ns + length k = Suc (ns + m)" "length k = Suc m" by simp_all
      have "rd p (Suc (ns + m)) = Some EQC" "find_key p key ns i (Suc (ns + m)) = Some None"
        "strncmp_eq (key @ [0]) (drop ns p) (Suc m) = Some (prefix k key)"
        using eq stop cmp by (simp_all only: l(2) add_Suc_right)
      then show ?thesis using c assms(6) Suc.prems l by (subst find_key.simps) simp
    next
      case False
      then have m: "Suc m < length k" "d = length k - Suc m" using Suc.hyps(2) Suc.prems by simp_all
      have d: "rd p (Suc (ns + m)) = Some (k ! Suc m)" "k ! Suc m \<noteq> EQC" using ch [OF m(1)] by simp_all
      have "find_key p key ns i (Suc (ns + m)) = Some (if prefix k key then Some (ns + length k) else None)"
        using Suc.hyps(1) [OF m(2,1)] by simp
      then show ?thesis using c d assms(6) Suc.prems by (subst find_key.simps) simp
    qed
  qed simp
  from this [of 0] assms(3) show ?thesis by simp
qed

lemma line_end_line:
  "line_ok l \<Longrightarrow> at p i (line_text l @ [10]) \<Longrightarrow> line_end p i = Some (i + length (line_text l))"
  unfolding line_end_def by (rule scan_to_at [where c = 10]) (cases l; auto simp: newline_def)+

text \<open>Positions of a found value: it stands between value_s and value_e.\<close>

definition value_at :: "u8 list \<Rightarrow> ini_pos \<Rightarrow> nat \<Rightarrow> u8 list \<Rightarrow> bool" where
  "value_at p pos a v \<longleftrightarrow> value_s pos = int a \<and> value_e pos = int (a + length v) \<and> at p a v"

lemma section_lines_spec:
  assumes "0 \<notin> set key" "\<forall>l \<in> set ls. line_ok l" "at p i (lines_text ls @ [c])" "c = 0 \<or> c = LBR"
    and "0 < i" "rd p (i - 1) = Some 10"
  shows "case find_line key ls of
      Some v \<Rightarrow> (\<exists>pos'. section_lines p key pos i = Some (KeyFound pos') \<and> value_at p pos' (i + line_off key ls) v \<and>
        sec_s pos' = sec_s pos \<and> key_s pos' \<noteq> -1)
    | None \<Rightarrow> section_lines p key pos i = Some (SecEnd (i + length (lines_text ls)))"
  using assms(2-)
proof (induction ls arbitrary: i)
  case Nil
  then show ?case by (subst section_lines.simps) (auto simp: lines_text_def newline_def)
next
  case (Cons l ls)
  have t: "lines_text (l # ls) = line_text l @ 10 # lines_text ls" by (simp add: lines_text_def)
  let ?e = "i + length (line_text l)"
  have e: "line_end p i = Some ?e" using line_end_line [of l p i] Cons.prems t by simp
  have IH: "case find_line key ls of
      Some v \<Rightarrow> (\<exists>pos'. section_lines p key pos (Suc ?e) = Some (KeyFound pos') \<and> value_at p pos' (Suc ?e + line_off key ls) v \<and>
        sec_s pos' = sec_s pos \<and> key_s pos' \<noteq> -1)
    | None \<Rightarrow> section_lines p key pos (Suc ?e) = Some (SecEnd (Suc ?e + length (lines_text ls)))"
    using Cons.prems t by (intro Cons.IH) simp_all
  show ?case
  proof (cases l)
    case (Note cs)
    then have "section_lines p key pos i = section_lines p key pos (Suc ?e)"
      using Cons.prems t e by (subst section_lines.simps) simp
    then show ?thesis using IH Note t by (simp add: add.assoc split: option.splits)
  next
    case (Pair k v)
    then obtain c' k' where k: "k = c' # k'" "c' \<noteq> 0" "c' \<noteq> LBR" "c' \<noteq> SEMI" "0 \<notin> set k" "EQC \<notin> set k"
      using Cons.prems(1) by (cases k) auto
    have at: "at p i (k @ EQC # v)" "rd p i = Some c'" using Cons.prems(2) t Pair k(1) by simp_all
    have f: "find_key p key i ?e i = Some (if prefix k key then Some (i + length k) else None)"
      using find_key_pair [OF at(1) k(6) _ k(5) assms(1)] Pair k(1) by (simp add: add.assoc)
    show ?thesis
    proof (cases "prefix k key")
      case True
      let ?pos' = "pos\<lparr>key_s := int i, key_e := int (i + length k) - 1, value_s := int (i + length k) + 1, value_e := int ?e\<rparr>"
      have "section_lines p key pos i = Some (KeyFound ?pos')"
        using True at(2) k Cons.prems(4,5) e f by (subst section_lines.simps) simp
      moreover have "value_at p ?pos' (i + (length k + 1)) v"
        unfolding value_at_def using at(1) Pair by simp
      ultimately show ?thesis using True Pair by auto
    next
      case False
      then have "section_lines p key pos i = section_lines p key pos (Suc ?e)"
        using at(2) k Cons.prems(4,5) e f by (subst section_lines.simps) simp
      then show ?thesis using IH False Pair t by (simp add: add.assoc split: option.splits)
    qed
  qed
qed


text \<open>Characters the outer loop only steps over.\<close>

lemma parse_step:
  "rd p i = Some c \<Longrightarrow> c \<noteq> 0 \<Longrightarrow> c \<noteq> LBR \<or> (0 < i \<and> rd p (i - 1) = Some b \<and> \<not> newline b) \<Longrightarrow>
   0 < i \<Longrightarrow> rd p (i - 1) = Some b' \<Longrightarrow> parse_loop sec key p pos i = parse_loop sec key p pos (Suc i)"
  by (subst parse_loop.simps) auto

lemma parse_inside:
  "at p i cs \<Longrightarrow> \<forall>c \<in> set cs. c \<noteq> 0 \<and> \<not> newline c \<Longrightarrow> 0 < i \<Longrightarrow> rd p (i - 1) = Some b \<Longrightarrow> \<not> newline b \<Longrightarrow>
   parse_loop sec key p pos i = parse_loop sec key p pos (i + length cs)"
proof (induction cs arbitrary: i b)
  case (Cons c cs)
  then have "parse_loop sec key p pos i = parse_loop sec key p pos (Suc i)"
    by (intro parse_step [where c = c and b = b and b' = b]) auto
  also have "\<dots> = parse_loop sec key p pos (Suc i + length cs)"
    using Cons.prems by (intro Cons.IH [where b = c]) auto
  finally show ?case by simp
qed simp

lemma line_chars:
  assumes "line_ok l"
  shows "\<exists>c cs. line_text l = c # cs \<and> c \<noteq> LBR \<and> (\<forall>x \<in> set (line_text l). x \<noteq> 0 \<and> \<not> newline x)"
  using assms by (cases l) (auto simp: newline_def neq_Nil_conv)

lemma parse_line:
  assumes "line_ok l" "at p i (line_text l @ [10])" "0 < i" "rd p (i - 1) = Some b"
  shows "parse_loop sec key p pos i = parse_loop sec key p pos (i + length (line_text l) + 1)"
proof -
  obtain c cs where c: "line_text l = c # cs" "c \<noteq> LBR" "\<forall>x \<in> set (c # cs). x \<noteq> 0 \<and> \<not> newline x"
    using line_chars [OF assms(1)] by metis
  have at: "rd p i = Some c" "at p (Suc i) cs" "rd p (Suc (i + length cs)) = Some 10" using assms(2) c(1) by simp_all
  have "parse_loop sec key p pos i = parse_loop sec key p pos (Suc i)"
    using at c assms(3,4) by (intro parse_step [where c = c and b = b and b' = b]) auto
  also have "\<dots> = parse_loop sec key p pos (Suc i + length cs)"
    using at c by (intro parse_inside [where b = c]) auto
  also have "\<dots> = parse_loop sec key p pos (Suc (Suc i + length cs))"
  proof -
    have "\<exists>b'. rd p (Suc i + length cs - 1) = Some b'"
      using at(3) by (auto simp: rd_Some_iff intro: Suc_lessD)
    then show ?thesis using at(3) by (auto intro!: parse_step [where c = 10])
  qed
  finally show ?thesis using c(1) by simp
qed

lemma parse_lines:
  "\<forall>l \<in> set ls. line_ok l \<Longrightarrow> at p i (lines_text ls) \<Longrightarrow> 0 < i \<Longrightarrow> rd p (i - 1) = Some b \<Longrightarrow>
   parse_loop sec key p pos i = parse_loop sec key p pos (i + length (lines_text ls))"
proof (induction ls arbitrary: i b)
  case Nil
  then show ?case by (simp add: lines_text_def)
next
  case (Cons l ls)
  have t: "lines_text (l # ls) = line_text l @ 10 # lines_text ls" by (simp add: lines_text_def)
  let ?e = "i + length (line_text l)"
  have "parse_loop sec key p pos i = parse_loop sec key p pos (Suc ?e)"
    using parse_line [of l p i b] Cons.prems t by simp
  also have "\<dots> = parse_loop sec key p pos (Suc ?e + length (lines_text ls))"
    using Cons.prems t by (intro Cons.IH [where b = 10]) simp_all
  finally show ?case using t by (simp add: add.assoc)
qed

lemma lines_start: "\<forall>l \<in> set ls. line_ok l \<Longrightarrow> lines_text ls \<noteq> [] \<Longrightarrow> \<not> isspace (hd (lines_text ls))"
  by (cases ls; cases "hd ls") (auto simp: lines_text_def isspace_def)

text \<open>One section at index i, the start of a line.\<close>

lemma parse_section:
  assumes ok: "section_ok s" "0 \<notin> set key" "0 \<notin> set sec" and c: "c = 0 \<or> c = LBR"
    and at: "at p i (section_text s @ [c])" and i: "i = 0 \<or> rd p (i - 1) = Some 10"
  shows "case (if prefix (fst s) sec then find_line key (snd s) else None) of
      Some v \<Rightarrow> (\<exists>pos'. parse_loop sec key p pos i = Some (1, pos') \<and>
        value_at p pos' (i + length (fst s) + 3 + line_off key (snd s)) v \<and> key_s pos' \<noteq> -1 \<and> sec_s pos' \<noteq> -1)
    | None \<Rightarrow> (\<exists>pos'. parse_loop sec key p pos i = parse_loop sec key p pos' (i + length (section_text s)) \<and>
        key_s pos' = key_s pos \<and> (sec_s pos' = -1 \<longleftrightarrow> sec_s pos = -1 \<and> \<not> prefix (fst s) sec))"
proof -
  obtain n ls where s: "s = (n, ls)" by fastforce
  have n: "0 \<notin> set n" "RBR \<notin> set n" and ls: "\<forall>l \<in> set ls. line_ok l" using ok(1) s by (auto simp: section_ok_def)
  let ?e = "Suc i + length n"
  define b where "b = ?e + 2"
  have a: "rd p i = Some LBR" "at p (Suc i) n" "rd p ?e = Some RBR" "rd p (Suc ?e) = Some 10"
      "at p b (lines_text ls)" "rd p (b + length (lines_text ls)) = Some c"
    using at s by (simp_all add: section_text_def b_def add.assoc)
  have brace: "find_brace p i = Some ?e"
    using scan_to_at [of p "Suc i" n RBR "\<lambda>c. c = RBR \<or> c = 0"] a n by (auto simp: find_brace_def)
  have "Suc i \<le> length p" using a(1) by (auto simp: rd_Some_iff)
  then obtain r where "drop (Suc i) p = n @ r" using at_drop [OF a(2)] by blast
  then have cmp: "strncmp_eq (drop (i + 1) p) (sec @ [0]) (?e - (i + 1)) = Some (prefix n sec)"
    using strncmp_name' [OF n(1) ok(3), of r] by simp
  have len: "i + length (section_text s) = b + length (lines_text ls)" using s by (simp add: section_text_def b_def)
  have start: "(if i = 0 then Some True else map_option newline (rd p (i - 1))) = Some True"
    using i by (auto simp: newline_def)
  show ?thesis
  proof (cases "prefix n sec")
    case False
    have "parse_loop sec key p pos i = parse_loop sec key p pos ?e"
      using a(1) start brace cmp False by (subst parse_loop.simps) simp
    also have "\<dots> = parse_loop sec key p pos (Suc ?e)"
    proof -
      have "\<exists>b'. rd p (?e - 1) = Some b'" using a(3) by (auto simp: rd_Some_iff intro: Suc_lessD)
      then show ?thesis using a(3) by (auto intro!: parse_step [where c = RBR])
    qed
    also have "\<dots> = parse_loop sec key p pos b"
      using parse_step [of p "Suc ?e" 10 _ RBR sec key pos] a(3,4) by (simp add: b_def)
    also have "\<dots> = parse_loop sec key p pos (b + length (lines_text ls))"
      using a(4,5) by (intro parse_lines [OF ls, where b = 10]) (simp_all add: b_def)
    finally have "parse_loop sec key p pos i = parse_loop sec key p pos (i + length (section_text s))"
      by (simp only: len)
    moreover have "\<not> prefix (fst s) sec" using False s by simp
    ultimately show ?thesis by auto
  next
    case True
    have sp: "skip_space p (?e + 1) = Some b"
    proof -
      obtain x where x: "rd p b = Some x" "\<not> isspace x"
        using a(5,6) c lines_start [OF ls] by (cases "lines_text ls") (auto simp: isspace_def)
      then show ?thesis
        using a(4) scan_to_at [of p "Suc ?e" "[10]" x "\<lambda>c. \<not> isspace c"] by (simp add: skip_space_def isspace_def b_def)
    qed
    let ?pos1 = "pos\<lparr>sec_s := int i + 1, sec_e := int b\<rparr>"
    have sl: "case find_line key ls of
        Some v \<Rightarrow> (\<exists>pos'. section_lines p key ?pos1 b = Some (KeyFound pos') \<and> value_at p pos' (b + line_off key ls) v \<and>
          sec_s pos' = sec_s ?pos1 \<and> key_s pos' \<noteq> -1)
      | None \<Rightarrow> section_lines p key ?pos1 b = Some (SecEnd (b + length (lines_text ls)))"
      using a(4-6) c by (intro section_lines_spec [OF ok(2) ls, where c = c]) (simp_all add: b_def)
    have pl: "parse_loop sec key p pos i = (case section_lines p key ?pos1 b of None \<Rightarrow> None
                | Some (KeyFound pos2) \<Rightarrow> Some (1, pos2) | Some (SecEnd n) \<Rightarrow> parse_loop sec key p ?pos1 n)"
      using a(1) start brace cmp True sp by (subst parse_loop.simps) (simp add: Let_def)
    show ?thesis
    proof (cases "find_line key ls")
      case None
      with sl pl True s len show ?thesis by (auto intro!: exI [of _ ?pos1])
    next
      case (Some v)
      have "i + length n + 3 = b" by (simp add: b_def)
      with Some sl pl True s show ?thesis by auto
    qed
  qed
qed

lemma section_text_end: "\<exists>ys. section_text s = ys @ [10]"
proof (cases "snd s" rule: rev_cases)
  case Nil
  then show ?thesis by (intro exI [of _ "LBR # fst s @ [RBR]"]) (simp add: section_text_def lines_text_def)
next
  case (snoc ls l)
  then show ?thesis
    by (intro exI [of _ "LBR # fst s @ [RBR, 10] @ lines_text ls @ line_text l"])
      (simp add: section_text_def lines_text_def)
qed

lemma parse_sections:
  assumes "0 \<notin> set key" "0 \<notin> set sec" "\<forall>s \<in> set ss. section_ok s" "at p i (ini_text ss @ [0])" "i = 0 \<or> rd p (i - 1) = Some 10"
  shows "case find_value sec key ss of
      Some v \<Rightarrow> (\<exists>pos'. parse_loop sec key p pos i = Some (1, pos') \<and>
        value_at p pos' (i + value_off sec key ss) v \<and> key_s pos' \<noteq> -1 \<and> sec_s pos' \<noteq> -1)
    | None \<Rightarrow> (\<exists>pos'. parse_loop sec key p pos i = Some (0, pos') \<and> key_s pos' = key_s pos \<and>
        (sec_s pos' = -1 \<longleftrightarrow> sec_s pos = -1 \<and> (\<forall>s \<in> set ss. \<not> prefix (fst s) sec)))"
  using assms(3-)
proof (induction ss arbitrary: i pos)
  case Nil
  then show ?case by (subst parse_loop.simps) (auto simp: ini_text_def)
next
  case (Cons s ss)
  have t: "ini_text (s # ss) = section_text s @ ini_text ss" by (simp add: ini_text_def)
  define c where "c = (case ss of [] \<Rightarrow> 0 | _ \<Rightarrow> LBR)"
  have c: "c = 0 \<or> c = LBR" "at p i (section_text s @ [c])"
    using Cons.prems(2) t by (auto simp: c_def ini_text_def section_text_def split: list.splits)
  let ?e = "i + length (section_text s)"
  obtain ys where ys: "section_text s = ys @ [10]" using section_text_end by blast
  then have e: "rd p (?e - 1) = Some 10" using Cons.prems(2) t by simp
  note sec = parse_section [OF _ assms(1,2) c Cons.prems(3), of pos]
  note IH = Cons.IH [of ?e]
  show ?case
  proof (cases "if prefix (fst s) sec then find_line key (snd s) else None")
    case (Some v)
    then have "find_value sec key (s # ss) = Some v"
      and off: "value_off sec key (s # ss) = length (fst s) + 3 + line_off key (snd s)" by (auto split: if_splits)
    moreover have "section_ok s" using Cons.prems(1) by simp
    ultimately show ?thesis using sec Some unfolding off by (simp add: add.assoc del: find_value.simps)
  next
    case None
    then have fv: "find_value sec key (s # ss) = find_value sec key ss"
      and off: "value_off sec key (s # ss) = length (section_text s) + value_off sec key ss" by (auto split: if_splits)
    obtain pos1 where p1: "parse_loop sec key p pos i = parse_loop sec key p pos1 ?e" "key_s pos1 = key_s pos"
      "sec_s pos1 = -1 \<longleftrightarrow> sec_s pos = -1 \<and> \<not> prefix (fst s) sec"
      using sec None Cons.prems(1) by auto
    have "case find_value sec key ss of
      Some v \<Rightarrow> (\<exists>pos'. parse_loop sec key p pos1 ?e = Some (1, pos') \<and> value_at p pos' (?e + value_off sec key ss) v \<and> key_s pos' \<noteq> -1 \<and> sec_s pos' \<noteq> -1)
    | None \<Rightarrow> (\<exists>pos'. parse_loop sec key p pos1 ?e = Some (0, pos') \<and> key_s pos' = key_s pos1 \<and>
        (sec_s pos' = -1 \<longleftrightarrow> sec_s pos1 = -1 \<and> (\<forall>s \<in> set ss. \<not> prefix (fst s) sec)))"
      using Cons.prems t e by (intro Cons.IH) simp_all
    then show ?thesis unfolding fv off p1(1) add.assoc [symmetric] using p1(2,3)
      by (auto simp del: value_off.simps find_value.simps split: option.splits)
  qed
qed


lemma parse_file_spec:
  assumes "0 \<notin> set key" "0 \<notin> set sec" "\<forall>s \<in> set ss. section_ok s" "at p 0 (ini_text ss @ [0])"
  shows "case find_value sec key ss of
      Some v \<Rightarrow> (\<exists>pos. parse_file sec key p = Some (1, pos) \<and> value_at p pos (value_off sec key ss) v \<and> key_s pos \<noteq> -1 \<and> sec_s pos \<noteq> -1)
    | None \<Rightarrow> (\<exists>pos. parse_file sec key p = Some (0, pos) \<and> key_s pos = -1 \<and>
        (sec_s pos = -1 \<longleftrightarrow> (\<forall>s \<in> set ss. \<not> prefix (fst s) sec)))"
  using parse_sections [OF assms, of no_pos] by (auto simp: parse_file_def no_pos_def split: option.splits)

section \<open>Properties\<close>


definition demo_ini :: "ini_section list" where
  "demo_ini = [(bytes ''Debug'', [Pair (bytes ''ini'') (bytes ''1'')]),
     (bytes ''Service'', [Note (bytes ''ahk=0''), Pair (bytes ''lua'') (bytes ''no''), Pair (bytes ''ahk'') (bytes ''true'')])]"


end
