(* ===== verification/Ini_File.thy ===== *)
theory Ini_File
  imports Ini_Parse
begin

text \<open>
  The configuration accesses of src/APP/inifile.c on top of the parser: reading strings, integers
  and booleans, and writing a value. The file system is not part of the program; a file is None
  when it cannot be opened or read and otherwise its bytes.
\<close>

section \<open>Reading\<close>

definition MAX_FILE_SIZE :: nat where "MAX_FILE_SIZE = 2048"
definition BUF_SIZE :: nat where "BUF_SIZE = 256"

text \<open>load_ini_file: the return value, the buffer and the size of the file.\<close>

definition load_ini_file :: "u8 list option \<Rightarrow> u8 list \<Rightarrow> (nat \<times> u8 list \<times> nat) option" where
  "load_ini_file file buf = (case file of
     None \<Rightarrow> Some (0, buf, 0)
   | Some bs \<Rightarrow> do { b1 \<leftarrow> memcpy_at buf 0 bs; b2 \<leftarrow> wr b1 (length bs) 0; Some (1, b2, length bs) })"

text \<open>strncpy of a string without zero bytes: padded with zeros up to size.\<close>

definition strncpy_to :: "u8 list \<Rightarrow> u8 list \<Rightarrow> nat \<Rightarrow> u8 list option" where
  "strncpy_to dst src sz = memcpy_at dst 0 (take sz (src @ replicate sz 0))"

text \<open>
  read_profile_string: buf0 is the uninitialised local buffer; the default is optional. The answer
  is the return value and the value buffer.
\<close>

definition use_default :: "u8 list option \<Rightarrow> u8 list \<Rightarrow> nat \<Rightarrow> (nat \<times> u8 list) option" where
  "use_default deflt val sz = (case deflt of None \<Rightarrow> Some (0, val)
     | Some d \<Rightarrow> do { v \<leftarrow> strncpy_to val d sz; Some (0, v) })"

definition read_profile_string ::
  "u8 list \<Rightarrow> u8 list option \<Rightarrow> u8 list \<Rightarrow> u8 list \<Rightarrow> u8 list \<Rightarrow> nat \<Rightarrow> u8 list option \<Rightarrow> (nat \<times> u8 list) option" where
  "read_profile_string buf0 file sec key val sz deflt = do {
     (ok, buf, _) \<leftarrow> load_ini_file file buf0;
     (if ok = 0 then use_default deflt val sz
      else do {
        (found, pos) \<leftarrow> parse_file sec key buf;
        (if found = 0 then use_default deflt val sz
         else do {
           let n0 = nat (value_e pos - value_s pos);
           let n = (if sz - 1 < n0 then sz - 1 else n0);
           v1 \<leftarrow> memcpy_at val 0 (replicate sz 0);
           bytes \<leftarrow> forM [0..<n] (\<lambda>i acc. do { c \<leftarrow> rd buf (nat (value_s pos) + i); Some (acc @ [c]) }) [];
           v2 \<leftarrow> memcpy_at v1 0 bytes;
           v3 \<leftarrow> wr v2 n 0;
           Some (1, v3) }) }) }"

text \<open>atoi of the C library: white space, a sign, digits.\<close>

fun digits_value :: "int \<Rightarrow> u8 list \<Rightarrow> int" where
  "digits_value acc [] = acc"
| "digits_value acc (c # cs) = (if 48 \<le> c \<and> c \<le> 57 then digits_value (10 * acc + (uint c - 48)) cs else acc)"

definition atoi :: "u8 list \<Rightarrow> int" where
  "atoi s = (let t = dropWhile isspace s in
     case t of [] \<Rightarrow> 0
     | c # cs \<Rightarrow> if c = 45 then - digits_value 0 cs else if c = 43 then digits_value 0 cs else digits_value 0 t)"

definition read_profile_int :: "u8 list \<Rightarrow> u8 list option \<Rightarrow> u8 list \<Rightarrow> u8 list \<Rightarrow> int \<Rightarrow> int option" where
  "read_profile_int buf0 file sec key deflt = do {
     (r, v) \<leftarrow> read_profile_string buf0 file sec key (replicate 32 0) 32 None;
     Some (if r = 0 then deflt else atoi v) }"

text \<open>The callers: ini_tmp is the static buffer of 256 bytes.\<close>

definition ini_read_string :: "u8 list \<Rightarrow> u8 list option \<Rightarrow> u8 list \<Rightarrow> u8 list \<Rightarrow> u8 list \<Rightarrow> (int \<times> u8 list) option" where
  "ini_read_string buf0 file sec key ini_tmp = do {
     (r, t) \<leftarrow> read_profile_string buf0 file sec key ini_tmp BUF_SIZE (Some (bytes ''true''));
     Some (if r = 0 then (-1, t) else (0, t)) }"

definition ini_read_int :: "u8 list \<Rightarrow> u8 list option \<Rightarrow> u8 list \<Rightarrow> u8 list \<Rightarrow> int option" where
  "ini_read_int buf0 file sec key = do {
     v \<leftarrow> read_profile_int buf0 file sec key (-1);
     Some (if v = -1 then -1 else 0) }"

text \<open>judge_bool: letters are raised by the rule c >= 'a'; 2 means neither.\<close>

definition raise_char :: "u8 \<Rightarrow> u8" where
  "raise_char c = (if 97 \<le> c then c - 32 else c)"

definition judge_bool :: "u8 list \<Rightarrow> nat option" where
  "judge_bool s = do {
     t \<leftarrow> forM [0..<5] (\<lambda>i t. do { c \<leftarrow> rd s i; wr t i (raise_char c) }) (replicate 6 0);
     t5 \<leftarrow> wr t 5 0;
     e \<leftarrow> strcmp_eq (cstring ''FALSE'') t5;
     (if e then Some 0
      else do {
        t4 \<leftarrow> wr t5 4 0;
        e' \<leftarrow> strcmp_eq (cstring ''TRUE'') t4;
        Some (if e' then 1 else 2) }) }"

text \<open>read_bool and read_int: the return value, the variable and the static buffer.\<close>

definition read_bool :: "u8 list \<Rightarrow> u8 list option \<Rightarrow> int \<Rightarrow> u8 list \<Rightarrow> u8 list \<Rightarrow> u8 list \<Rightarrow> (int \<times> int \<times> u8 list) option" where
  "read_bool buf0 file var sec key ini_tmp = do {
     (r, t) \<leftarrow> ini_read_string buf0 file sec key ini_tmp;
     (if r = 0 then do { b \<leftarrow> judge_bool t; Some (if b = 2 then -1 else 0, int b, t) }
      else Some (-1, var, t)) }"

definition read_int :: "u8 list \<Rightarrow> u8 list option \<Rightarrow> int \<Rightarrow> u8 list \<Rightarrow> u8 list \<Rightarrow> (int \<times> int) option" where
  "read_int buf0 file var sec key = do {
     v \<leftarrow> ini_read_int buf0 file sec key;
     Some (if v = 0 then 0 else -1, v) }"

section \<open>Writing\<close>

text \<open>
  write_profile_string: the new content is built in a second buffer, and as many bytes as the old
  file had are written over it. The text behind a new key is passed to sprintf as its format, so a
  percent sign in it is undefined. None as a file stays None when it cannot be opened for writing.
\<close>

definition before_nul :: "u8 list \<Rightarrow> u8 list" where
  "before_nul bs = takeWhile (\<lambda>c. c \<noteq> 0) bs"

definition put_text :: "u8 list \<Rightarrow> nat \<Rightarrow> u8 list \<Rightarrow> u8 list option" where
  "put_text buf off txt = memcpy_at buf off (txt @ [0])"

definition new_content :: "u8 list \<Rightarrow> nat \<Rightarrow> ini_pos \<Rightarrow> u8 list \<Rightarrow> u8 list \<Rightarrow> u8 list \<Rightarrow> u8 list option" where
  "new_content buf file_size pos sec key val = (let w = replicate MAX_FILE_SIZE 0 in
     if sec_s pos = -1 then
       (if file_size = 0 then put_text w 0 (LBR # sec @ [RBR, 10] @ key @ EQC # val @ [10])
        else do {
          w1 \<leftarrow> memcpy_at w 0 (take file_size buf);
          put_text w1 file_size (10 # LBR # sec @ [RBR, 10] @ key @ EQC # val @ [10]) })
     else if key_s pos = -1 then do {
       let e = nat (sec_e pos);
       let rest = before_nul (drop e buf);
       w1 \<leftarrow> memcpy_at w 0 (take e buf);
       w2 \<leftarrow> put_text w1 e (key @ EQC # val @ [10]);
       (if of_char CHR ''%'' \<in> set rest then None
        else put_text w2 (e + length key + length val + 2) rest) }
     else do {
       let a = nat (value_s pos); let b = nat (value_e pos);
       w1 \<leftarrow> memcpy_at w 0 (take a buf);
       w2 \<leftarrow> memcpy_at w1 a val;
       memcpy_at w2 (a + length val) (take (file_size - b) (drop b buf)) })"

definition write_profile_string ::
  "u8 list option \<Rightarrow> bool \<Rightarrow> bool \<Rightarrow> u8 list \<Rightarrow> u8 list \<Rightarrow> u8 list \<Rightarrow> (nat \<times> u8 list option) option" where
  "write_profile_string file can_open can_write sec key val = do {
     (ok, buf, file_size) \<leftarrow> load_ini_file file (replicate MAX_FILE_SIZE 0);
     pos \<leftarrow> (if ok = 0 then Some no_pos else map_option snd (parse_file sec key buf));
     w \<leftarrow> new_content buf file_size pos sec key val;
     (if \<not> can_open then Some (0, file)
      else if \<not> can_write then Some (0, file)
      else Some (1, Some (take file_size w))) }"


section \<open>Lemmas\<close>

lemma load_ini_file_some:
  assumes "length bs < length buf0"
  shows "load_ini_file (Some bs) buf0 = Some (1, bs @ 0 # drop (Suc (length bs)) buf0, length bs)"
  using assms by (simp add: load_ini_file_def memcpy_at_def overlay_def list_update_append Cons_nth_drop_Suc [symmetric])

lemma read_bytes: "at buf a v \<Longrightarrow> n \<le> length v \<Longrightarrow>
  forM [0..<n] (\<lambda>i acc. do { c \<leftarrow> rd buf (a + i); Some (acc @ [c]) }) [] = Some (take n v)"
proof (induction n)
  case (Suc n)
  then have "rd buf (a + n) = Some (v ! n)" by (simp add: at_def)
  with Suc show ?case by (simp add: forM_append take_Suc_conv_app_nth)
qed simp

lemma read_profile_string_none:
  assumes f: "length bs < length buf0" "at (bs @ [0]) 0 (ini_text ss @ [0])" "\<forall>s \<in> set ss. section_ok s"
    and k: "0 \<notin> set key" "0 \<notin> set sec" and v: "find_value sec key ss = None"
  shows "read_profile_string buf0 (Some bs) sec key val sz deflt = use_default deflt val sz"
proof -
  let ?buf = "bs @ 0 # drop (Suc (length bs)) buf0"
  have "at ?buf 0 (ini_text ss @ [0])" using at_extend [OF f(2), of "drop (Suc (length bs)) buf0"] by simp
  then obtain pos where "parse_file sec key ?buf = Some (0, pos)"
    using parse_file_spec [OF k f(3)] v by fastforce
  then show ?thesis using load_ini_file_some [OF f(1)] by (simp add: read_profile_string_def)
qed

lemma use_default_length:
  "sz \<le> length val \<Longrightarrow> \<exists>t. use_default deflt val sz = Some (0, t) \<and> length t = length val"
  by (cases deflt) (simp_all add: use_default_def strncpy_to_def memcpy_at_def)

text \<open>The value buffer after a successful read: the value, cut to sz - 1 bytes, then zeros.\<close>

lemma read_profile_string_spec:
  assumes f: "length bs < length buf0" "at (bs @ [0]) 0 (ini_text ss @ [0])" "\<forall>s \<in> set ss. section_ok s"
    and k: "0 \<notin> set key" "0 \<notin> set sec" and v: "0 < sz" "sz \<le> length val" "find_value sec key ss = Some v"
  shows "read_profile_string buf0 (Some bs) sec key val sz deflt
    = Some (1, take (sz - 1) v @ replicate (sz - min (sz - 1) (length v)) 0 @ drop sz val)"
proof -
  let ?buf = "bs @ 0 # drop (Suc (length bs)) buf0"
  have "at ?buf 0 (ini_text ss @ [0])" using at_extend [OF f(2), of "drop (Suc (length bs)) buf0"] by simp
  then obtain pos where pos: "parse_file sec key ?buf = Some (1, pos)" "value_at ?buf pos (value_off sec key ss) v"
    using parse_file_spec [OF k f(3)] v(3) by fastforce
  then obtain a where a: "value_s pos = int a" "value_e pos = int (a + length v)" "at ?buf a v" by (auto simp: value_at_def)
  let ?n = "min (sz - 1) (length v)"
  have n: "nat (value_e pos - value_s pos) = length v" "nat (value_s pos) = a" using a by simp_all
  have rb: "forM [0..<?n] (\<lambda>i acc. do { c \<leftarrow> rd ?buf (a + i); Some (acc @ [c]) }) [] = Some (take ?n v)"
    by (rule read_bytes [OF a(3)]) simp
  have tk: "take ?n v = take (sz - 1) v" by (simp add: min_def)
  have v1: "memcpy_at val 0 (replicate sz 0) = Some (replicate sz 0 @ drop sz val)"
    using v(2) by (simp add: memcpy_at_def overlay_def)
  have le: "?n \<le> length val" "?n \<le> sz" using v(2) by auto
  have v2: "memcpy_at (replicate sz 0 @ drop sz val) 0 (take ?n v)
      = Some (take ?n v @ replicate (sz - ?n) 0 @ drop sz val)"
    using v(2) le by (simp add: memcpy_at_def overlay_def)
  have v3: "wr (take ?n v @ replicate (sz - ?n) 0 @ drop sz val) ?n 0
      = Some (take ?n v @ replicate (sz - ?n) 0 @ drop sz val)"
  proof -
    obtain m where "sz - ?n = Suc m" using v(1) by (metis Suc_pred' diff_is_0_eq min.cobounded1 not_less_eq_eq Suc_pred zero_less_diff not_gr_zero)
    then show ?thesis by (simp add: wr_def list_update_append)
  qed
  note facts = load_ini_file_some [OF f(1)] pos(1) n v1 v2 v3 rb tk
  show ?thesis
  proof (cases "sz - 1 < length v")
    case True
    then have "?n = sz - 1" by simp
    then show ?thesis using facts True by (simp add: read_profile_string_def Let_def del: take_take)
  next
    case False
    then have "?n = length v" by simp
    then show ?thesis using facts False by (simp add: read_profile_string_def Let_def del: take_take)
  qed
qed

lemma write_profile_string_found:
  assumes f: "length (ini_text ss) < MAX_FILE_SIZE" "\<forall>s \<in> set ss. section_ok s" "0 \<notin> set key" "0 \<notin> set sec"
    and v: "find_value sec key ss = Some v" "length (ini_text ss) + length new \<le> MAX_FILE_SIZE + length v"
  shows "write_profile_string (Some (ini_text ss)) True True sec key new
    = Some (1, Some (take (length (ini_text ss)) (ini_text (set_value sec key new ss) @ replicate MAX_FILE_SIZE 0)))"
proof -
  let ?n = "length (ini_text ss)" and ?M = "MAX_FILE_SIZE"
  let ?buf = "ini_text ss @ 0 # drop (Suc ?n) (replicate ?M 0)"
  obtain pre post where t: "ini_text ss = pre @ v @ post" "length pre = value_off sec key ss"
    "ini_text (set_value sec key new ss) = pre @ new @ post" using set_value_text [OF v(1)] by blast
  have "at ?buf 0 (ini_text ss @ [0])" using at_self [of ?buf] at_append [of ?buf 0 "ini_text ss @ [0]"] by simp
  then obtain pos where pos: "parse_file sec key ?buf = Some (1, pos)" "value_at ?buf pos (length pre) v"
      "key_s pos \<noteq> -1" "sec_s pos \<noteq> -1"
    using parse_file_spec [OF f(3,4,2)] v(1) t(2) by fastforce
  have a: "nat (value_s pos) = length pre" "nat (value_e pos) = length pre + length v"
    using pos(2) by (simp_all add: value_at_def)
  have le: "length pre + length v + length post = ?n" "?n < ?M" "length pre + length new + length post \<le> ?M"
    using t(1) f(1) v(2) by simp_all
  let ?rest = "drop (length pre + length new + length post) (replicate ?M 0) :: u8 list"
  have w1: "memcpy_at (replicate ?M 0) 0 pre = Some (pre @ drop (length pre) (replicate ?M 0))"
    using le by (simp add: memcpy_at_def overlay_def)
  have w2: "memcpy_at (pre @ drop (length pre) (replicate ?M 0)) (length pre) new
      = Some (pre @ new @ drop (length pre + length new) (replicate ?M 0))"
    using le by (simp add: memcpy_at_def overlay_def add.commute)
  have w3: "memcpy_at (pre @ new @ drop (length pre + length new) (replicate ?M 0)) (length pre + length new) post
      = Some (pre @ new @ post @ ?rest)"
    using le by (simp add: memcpy_at_def overlay_def add.commute add.assoc)
  have tk: "take (length pre) ?buf = pre" "take (?n - (length pre + length v)) (drop (length pre + length v) ?buf) = post"
    using t(1) le(1) by simp_all
  have new: "new_content ?buf ?n pos sec key new = Some (pre @ new @ post @ ?rest)"
    unfolding new_content_def Let_def a tk using pos(3,4) w1 w2 w3 by simp
  have ld: "load_ini_file (Some (ini_text ss)) (replicate ?M 0) = Some (1, ?buf, ?n)"
    using load_ini_file_some [of "ini_text ss" "replicate ?M 0"] f(1) by simp
  have "take ?n (pre @ new @ post @ ?rest) = take ?n ((pre @ new @ post) @ replicate ?M 0)"
    using le by (simp add: take_append add.assoc min_def) arith
  then show ?thesis
    unfolding t(3) write_profile_string_def ld using pos(1) new by simp
qed

end
