(* ===== verification/Kbd_Scan.thy ===== *)
theory Kbd_Scan
  imports Link_Frame Ini_File
begin

text \<open>
  The keyboard matrix (src/slave2/USER/keyboard.c): set-up of the pins, scanning, and the report
  that is sent to the main controller. Reading the pins is hardware: level j i is the level of
  column i while row j is driven low, so a pressed key reads False.
\<close>

section \<open>Pins\<close>

datatype port = GPIOA | GPIOB | GPIOC | GPIOD | GPIOE | GPIOF | GPIOG

record gpio =
  gpio_port :: port
  gpio_pin :: u32
  gpio_num :: u8

definition COL_LEN :: nat where "COL_LEN = 14"
definition ROW_LEN :: nat where "ROW_LEN = 5"

definition char2port :: "u8 \<Rightarrow> port" where
  "char2port ch = (if ch = 65 then GPIOA else if ch = 66 then GPIOB else if ch = 67 then GPIOC else if ch = 68 then GPIOD
     else if ch = 69 then GPIOE else if ch = 70 then GPIOF else if ch = 71 then GPIOG else GPIOA)"

definition str2pin :: "u8 list \<Rightarrow> u32" where
  "str2pin s = push_bit (nat (atoi s)) 1"

text \<open>The pin names, and the loop of keyboard_init over one of them; i is the position in the string.\<close>

definition col_names :: "u8 list" where "col_names = bytes ''C0C1C2C3C4C5C6C7C8C9C10C11C12C13''"
definition row_names :: "u8 list" where "row_names = bytes ''B5B6B7B8B9''"

function init_pins :: "nat \<Rightarrow> u8 list \<Rightarrow> nat \<Rightarrow> nat \<Rightarrow> gpio list \<Rightarrow> gpio list option" where
  "init_pins room names i cnt ios =
     (if i < length names then
        if cnt < room then
          let num = atoi (drop (i + 1) names);
              io = \<lparr>gpio_port = char2port (names ! i), gpio_pin = push_bit (nat (num mod 8 * 4)) 1, gpio_num = of_int num\<rparr>
          in init_pins room names (if gpio_num io > 9 then i + 3 else i + 2) (cnt + 1) (ios @ [io])
        else None
      else Some ios)"
  by pat_completeness auto
termination
  by (relation "measure (\<lambda>(room, names, i, cnt, ios). length names - i)") (auto simp: Let_def)

declare init_pins.simps [simp del]

definition keyboard_init :: "(gpio list \<times> gpio list) option" where
  "keyboard_init = do {
     cols \<leftarrow> init_pins COL_LEN col_names 0 0 [];
     rows \<leftarrow> init_pins ROW_LEN row_names 0 0 [];
     Some (cols, rows) }"

section \<open>Keys\<close>

definition key_index :: "u8 list list" where
  "key_index =
    [[41, 30, 31, 32, 33, 34, 35, 36, 37, 38, 39, 45, 46, 42],
     [43, 20, 26, 8, 21, 23, 28, 24, 12, 18, 19, 47, 48, 49],
     [57, 4, 22, 7, 9, 10, 11, 13, 14, 15, 51, 52, 40, 40],
     [225, 225, 29, 27, 6, 25, 5, 17, 16, 54, 55, 56, 0, 229],
     [224, 227, 82, 226, 44, 44, 0, 0, 228, 254, 255, 0, 0, 0]]"

record key_t =
  L_CTRL :: u8
  L_ALT :: u8
  L_SHIFT :: u8
  L_GUI :: u8
  R_CTRL :: u8
  R_ALT :: u8
  R_SHIFT :: u8
  R_GUI :: u8
  key :: "u8 list"

definition key_t_zero :: key_t where
  "key_t_zero = \<lparr>L_CTRL = 0, L_ALT = 0, L_SHIFT = 0, L_GUI = 0, R_CTRL = 0, R_ALT = 0, R_SHIFT = 0, R_GUI = 0, key = replicate 6 0\<rparr>"

definition modifier_byte :: "key_t \<Rightarrow> u8" where
  "modifier_byte k = push_bit 0 (L_CTRL k) + push_bit 1 (L_SHIFT k) + push_bit 2 (L_ALT k) + push_bit 3 (L_GUI k)
     + push_bit 4 (R_CTRL k) + push_bit 5 (R_SHIFT k) + push_bit 6 (R_ALT k) + push_bit 7 (R_GUI k)"

text \<open>keyboard_send builds a nine-byte buffer for the local keyboard.\<close>

definition keyboard_send :: "key_t \<Rightarrow> u8 list option" where
  "keyboard_send k = forM [0..<6] (\<lambda>i b. do { c \<leftarrow> rd (key k) i; wr b (3 + i) c }) ([0, modifier_byte k, 0] @ replicate 6 0)"

text \<open>
  The state of the scanner, and keyboard_send_commu: the report is sent when it differs from the
  last one. sent collects the reports given to commu_send with type KEYBOARD_MS.
\<close>

record scan_st =
  key_val :: "u16 list"
  pre_press :: bool
  commu_buf_pre :: "u8 list"
  sent :: "u8 list list"

definition keyboard_send_commu :: "key_t \<Rightarrow> scan_st \<Rightarrow> scan_st option" where
  "keyboard_send_commu k s = do {
     buf \<leftarrow> forM [0..<6] (\<lambda>i b. do { c \<leftarrow> rd (key k) i; wr b (2 + i) c }) ([modifier_byte k, 0] @ replicate 6 0);
     Some (if buf \<noteq> commu_buf_pre s then s\<lparr>commu_buf_pre := buf, sent := sent s @ [buf]\<rparr> else s) }"

section \<open>Scanning\<close>

definition scan_row :: "(nat \<Rightarrow> nat \<Rightarrow> bool) \<Rightarrow> nat \<Rightarrow> u16" where
  "scan_row level j = (let v = fold (\<lambda>i v. v + push_bit i (of_bool (level j i))) [0..<COL_LEN] 0 in
     (push_bit COL_LEN 1 - 1) - v)"

definition scan_rows :: "(nat \<Rightarrow> nat \<Rightarrow> bool) \<Rightarrow> u16 list" where
  "scan_rows level = map (scan_row level) [0..<ROW_LEN]"

text \<open>The switch for one pressed key with code c; the index into key grows only for ordinary keys.\<close>

definition press_code :: "u8 \<Rightarrow> key_t \<times> nat \<Rightarrow> (key_t \<times> nat) option" where
  "press_code c kn = (case kn of (k, n) \<Rightarrow>
     if c = 225 then Some (k\<lparr>L_SHIFT := 1\<rparr>, n)
     else if c = 224 then Some (k\<lparr>L_CTRL := 1\<rparr>, n)
     else if c = 227 then Some (k\<lparr>L_GUI := 1\<rparr>, n)
     else if c = 226 then Some (k\<lparr>L_ALT := 1\<rparr>, n)
     else if c = 228 then Some (k\<lparr>R_CTRL := 1\<rparr>, n)
     else if c = 229 then Some (k\<lparr>R_SHIFT := 1\<rparr>, n)
     else if c = 230 then Some (k\<lparr>R_ALT := 1\<rparr>, n)
     else do { ks \<leftarrow> wr (key k) n c; Some (k\<lparr>key := ks\<rparr>, n + 1) })"

text \<open>The loop over the keys; the flag in the answer is the jump to end.\<close>

fun press_loop :: "u16 list \<Rightarrow> (nat \<times> nat) list \<Rightarrow> bool \<Rightarrow> key_t \<times> nat \<Rightarrow> (bool \<times> bool \<times> key_t) option" where
  "press_loop kv [] pressed kn = Some (False, pressed, fst kn)"
| "press_loop kv ((j, i) # ps) pressed kn =
     (if bit (kv ! j) i then do {
        kn1 \<leftarrow> press_code (key_index ! j ! i) kn;
        (if snd kn1 = 6 then Some (True, True, fst kn1) else press_loop kv ps True kn1) }
      else press_loop kv ps pressed kn)"

definition positions :: "(nat \<times> nat) list" where
  "positions = List.product [0..<ROW_LEN] [0..<COL_LEN]"

definition keyboard_scan :: "(nat \<Rightarrow> nat \<Rightarrow> bool) \<Rightarrow> scan_st \<Rightarrow> scan_st option" where
  "keyboard_scan level s = do {
     let s1 = s\<lparr>key_val := scan_rows level\<rparr>;
     (full, pressed, k) \<leftarrow> press_loop (key_val s1) positions False (key_t_zero, 0);
     let s2 = (if pressed then s1\<lparr>pre_press := True\<rparr> else s1);
     (if full then Some s2
      else if pressed then keyboard_send_commu k s2
      else if pre_press s2 then keyboard_send_commu k (s2\<lparr>pre_press := False\<rparr>)
      else Some s2) }"

section \<open>The report of the pressed keys\<close>

definition plain :: "u8 \<Rightarrow> bool" where
  "plain c \<longleftrightarrow> \<not> (224 \<le> c \<and> c \<le> 230)"

definition pressed_codes :: "(nat \<Rightarrow> nat \<Rightarrow> bool) \<Rightarrow> u8 list" where
  "pressed_codes level = map (\<lambda>(j, i). key_index ! j ! i) (filter (\<lambda>(j, i). \<not> level j i) positions)"

definition report_of :: "u8 list \<Rightarrow> u8 list" where
  "report_of cs =
     (of_bool (224 \<in> set cs) + 2 * of_bool (225 \<in> set cs) + 4 * of_bool (226 \<in> set cs) + 8 * of_bool (227 \<in> set cs)
       + 16 * of_bool (228 \<in> set cs) + 32 * of_bool (229 \<in> set cs) + 64 * of_bool (230 \<in> set cs))
     # 0 # take 6 (filter plain cs @ replicate 6 0)"

text \<open>The matrix values: bit i of a row is set when key i is pressed.\<close>

lemma row_bits:
  assumes "n \<le> 14"
  shows "bit (fold (\<lambda>i v. v + push_bit i (of_bool (f i))) [0..<n] (0 :: u16)) k \<longleftrightarrow> k < n \<and> f k"
  using assms
proof (induction n arbitrary: k)
  case (Suc n)
  let ?v = "fold (\<lambda>i v. v + push_bit i (of_bool (f i))) [0..<n] (0 :: u16)"
  have IH: "bit ?v k \<longleftrightarrow> k < n \<and> f k" for k using Suc by simp
  have "?v AND push_bit n (of_bool (f n)) = 0" by (rule bit_word_eqI) (auto simp: bit_simps IH)
  then have "?v + push_bit n (of_bool (f n)) = ?v OR push_bit n (of_bool (f n))" by (rule disjunctive_add_eq_or)
  then show ?case using Suc.prems by (auto simp: bit_simps IH less_Suc_eq)
qed simp

lemma scan_row_bit:
  assumes "i < 14"
  shows "bit (scan_row level j) i \<longleftrightarrow> \<not> level j i"
proof -
  let ?v = "fold (\<lambda>i v. v + push_bit i (of_bool (level j i))) [0..<14] (0 :: u16)" and ?m = "push_bit 14 1 - 1 :: u16"
  have m: "?m = mask 14" by (simp add: mask_eq_exp_minus_1 push_bit_eq_mult)
  have "NOT (mask 14) AND ?v = 0" by (rule bit_word_eqI) (auto simp: bit_simps row_bits)
  then have d: "mask 14 - ?v = mask 14 AND NOT ?v" by (rule disjunctive_diff_eq_and_not)
  show ?thesis unfolding scan_row_def COL_LEN_def Let_def m d using assms by (auto simp: bit_simps row_bits)
qed

lemma scan_rows_bit: "(j, i) \<in> set positions \<Longrightarrow> bit (scan_rows level ! j) i \<longleftrightarrow> \<not> level j i"
  by (auto simp: positions_def scan_rows_def ROW_LEN_def COL_LEN_def scan_row_bit simp del: upt_Suc)

text \<open>The report structure after the codes cs.\<close>

definition key_of :: "u8 list \<Rightarrow> key_t" where
  "key_of cs = \<lparr>L_CTRL = of_bool (224 \<in> set cs), L_ALT = of_bool (226 \<in> set cs), L_SHIFT = of_bool (225 \<in> set cs),
     L_GUI = of_bool (227 \<in> set cs), R_CTRL = of_bool (228 \<in> set cs), R_ALT = of_bool (230 \<in> set cs),
     R_SHIFT = of_bool (229 \<in> set cs), R_GUI = 0, key = take 6 (filter plain cs @ replicate 6 0)\<rparr>"

abbreviation plains :: "u8 list \<Rightarrow> nat" where
  "plains cs \<equiv> length (filter plain cs)"

lemma plain_cases: "\<not> plain c \<longleftrightarrow> c \<in> {224, 225, 226, 227, 228, 229, 230}"
proof
  assume "\<not> plain c"
  then have "unat c \<in> {224..230}" by (simp add: plain_def word_le_nat_alt)
  then have "unat c = 224 \<or> unat c = 225 \<or> unat c = 226 \<or> unat c = 227 \<or> unat c = 228 \<or> unat c = 229 \<or> unat c = 230" by auto
  then show "c \<in> {224, 225, 226, 227, 228, 229, 230}" by (auto simp: word_unat_eq_iff)
qed (auto simp: plain_def)

lemma pad_snoc:
  "length xs < n \<Longrightarrow> (take n (xs @ replicate n z))[length xs := c] = take n ((xs @ [c]) @ replicate n z)"
  by (rule nth_equalityI) (auto simp: nth_list_update nth_append nth_Cons')

lemma press_code_key_of:
  assumes "plains cs < 6"
  shows "press_code c (key_of cs, plains cs) = Some (key_of (cs @ [c]), plains (cs @ [c]))"
proof (cases "plain c")
  case True
  then have c: "c \<noteq> 225" "c \<noteq> 224" "c \<noteq> 227" "c \<noteq> 226" "c \<noteq> 228" "c \<noteq> 229" "c \<noteq> 230" by (auto simp: plain_def)
  let ?ks = "take 6 (filter plain cs @ replicate 6 0)"
  have k: "wr ?ks (plains cs) c = Some (take 6 ((filter plain cs @ [c]) @ replicate 6 0))"
    using assms pad_snoc [of "filter plain cs" 6 0 c] by (simp add: wr_def)
  have "press_code c (key_of cs, plains cs) = do { ks \<leftarrow> wr ?ks (plains cs) c; Some (key_of cs\<lparr>key := ks\<rparr>, plains cs + 1) }"
    using c by (simp add: press_code_def key_of_def)
  also have "\<dots> = Some (key_of (cs @ [c]), plains (cs @ [c]))"
    unfolding k using c True by (simp add: key_of_def)
  finally show ?thesis .
next
  case False
  then have np: "filter plain (cs @ [c]) = filter plain cs" by simp
  from False have "c = 224 \<or> c = 225 \<or> c = 226 \<or> c = 227 \<or> c = 228 \<or> c = 229 \<or> c = 230" unfolding plain_cases by simp
  then show ?thesis unfolding key_of_def np press_code_def by (elim disjE) simp_all
qed

definition codes_at :: "u16 list \<Rightarrow> (nat \<times> nat) list \<Rightarrow> u8 list" where
  "codes_at kv ps = map (\<lambda>(j, i). key_index ! j ! i) (filter (\<lambda>(j, i). bit (kv ! j) i) ps)"

lemma press_loop_spec:
  "plains cs < 6 \<Longrightarrow>
   \<exists>k. press_loop kv ps pr (key_of cs, plains cs) = Some (6 \<le> plains (cs @ codes_at kv ps), pr \<or> codes_at kv ps \<noteq> [], k) \<and>
     (plains (cs @ codes_at kv ps) < 6 \<longrightarrow> k = key_of (cs @ codes_at kv ps))"
proof (induction ps arbitrary: cs pr)
  case Nil
  then show ?case by (simp add: codes_at_def)
next
  case (Cons p ps)
  obtain j i where p: "p = (j, i)" by (cases p)
  show ?case
  proof (cases "bit (kv ! j) i")
    case False
    then show ?thesis using Cons p by (simp add: codes_at_def)
  next
    case True
    let ?c = "key_index ! j ! i" and ?cs = "cs @ [key_index ! j ! i]"
    have cd: "codes_at kv (p # ps) = ?c # codes_at kv ps" using True p by (simp add: codes_at_def)
    note st = press_code_key_of [OF Cons.prems, of ?c]
    show ?thesis
    proof (cases "plains ?cs = 6")
      case full: True
      have "press_loop kv (p # ps) pr (key_of cs, plains cs) = Some (True, True, key_of ?cs)"
        using True p st full by simp
      moreover have "plains (cs @ codes_at kv (p # ps)) = plains ?cs + plains (codes_at kv ps)" by (simp add: cd)
      ultimately show ?thesis unfolding full cd by simp
    next
      case False
      then have "plains ?cs < 6" using Cons.prems by (simp split: if_splits)
      from Cons.IH [OF this, of True] show ?thesis using True False p st cd by auto
    qed
  qed
qed

lemma codes_at_scan: "codes_at (scan_rows level) positions = pressed_codes level"
proof -
  have "filter (\<lambda>(j, i). bit (scan_rows level ! j) i) positions = filter (\<lambda>(j, i). \<not> level j i) positions"
    using scan_rows_bit by (intro filter_cong) auto
  then show ?thesis by (simp add: codes_at_def pressed_codes_def)
qed

lemma modifier_byte_key_of: "modifier_byte (key_of cs) = hd (report_of cs)"
  by (simp add: modifier_byte_def key_of_def report_of_def push_bit_of_1 mult.commute push_bit_eq_mult)

section \<open>Properties\<close>

lemma report_length [simp]: "length (report_of cs) = 8"
  by (simp add: report_of_def)

lemma send_commu_spec:
  "keyboard_send_commu (key_of cs) s =
     Some (if report_of cs \<noteq> commu_buf_pre s then s\<lparr>commu_buf_pre := report_of cs, sent := sent s @ [report_of cs]\<rparr> else s)"
proof -
  let ?ks = "take 6 (filter plain cs @ replicate 6 0)"
  have ks: "length ?ks = 6" by simp
  have "forM [0..<6] (\<lambda>i b. do { c \<leftarrow> rd (key (key_of cs)) i; wr b (2 + i) c }) ([modifier_byte (key_of cs), 0] @ replicate 6 0)
      = Some (overlay ([modifier_byte (key_of cs), 0] @ replicate 6 0) 2 (take 6 ?ks))"
    unfolding key_of_def key_t.simps by (rule copy_into_buffer) simp_all
  also have "overlay ([modifier_byte (key_of cs), 0] @ replicate 6 0) 2 (take 6 ?ks) = report_of cs"
    unfolding modifier_byte_key_of by (simp add: overlay_def report_of_def numeral_2_eq_2)
  finally show ?thesis by (simp add: keyboard_send_commu_def)
qed

lemma scan_step_eq:
  "keyboard_scan level s = Some (
     let cs = pressed_codes level; s1 = s\<lparr>key_val := scan_rows level\<rparr> in
     if 6 \<le> plains cs then s1\<lparr>pre_press := True\<rparr>
     else if cs = [] \<and> \<not> pre_press s then s1
     else if report_of cs \<noteq> commu_buf_pre s
       then s1\<lparr>pre_press := (cs \<noteq> []), commu_buf_pre := report_of cs, sent := sent s @ [report_of cs]\<rparr>
     else s1\<lparr>pre_press := (cs \<noteq> [])\<rparr>)"
proof -
  let ?cs = "pressed_codes level"
  have z: "key_of [] = key_t_zero" by (simp add: key_of_def key_t_zero_def)
  obtain k where k: "press_loop (scan_rows level) positions False (key_t_zero, 0) = Some (6 \<le> plains ?cs, ?cs \<noteq> [], k)"
    "plains ?cs < 6 \<longrightarrow> k = key_of ?cs"
    using press_loop_spec [of "[]" "scan_rows level" positions False] by (auto simp: codes_at_scan z)
  show ?thesis
  proof (cases "6 \<le> plains ?cs")
    case True
    then have "?cs \<noteq> []" by auto
    then show ?thesis using k True by (simp add: keyboard_scan_def Let_def)
  next
    case False
    then have "k = key_of ?cs" using k(2) by simp
    then show ?thesis using k(1) False by (cases s) (simp add: keyboard_scan_def Let_def send_commu_spec)
  qed
qed

text \<open>
  One scan of the key matrix. For every set of pressed keys:
  with fewer than six ordinary keys the report made of the modifier bits and the key codes in
  matrix order is sent exactly when it differs from the last report, and the last report is
  updated; nothing happens while no key is and was pressed; and with six ordinary keys or more
  the scan sends nothing at all, although the report has room for six.
\<close>

theorem keyboard_scan_reports:
  "keyboard_scan level s = Some (
     let cs = pressed_codes level; s1 = s\<lparr>key_val := scan_rows level\<rparr> in
     if 6 \<le> plains cs then s1\<lparr>pre_press := True\<rparr>
     else if cs = [] \<and> \<not> pre_press s then s1
     else if report_of cs \<noteq> commu_buf_pre s
       then s1\<lparr>pre_press := (cs \<noteq> []), commu_buf_pre := report_of cs, sent := sent s @ [report_of cs]\<rparr>
     else s1\<lparr>pre_press := (cs \<noteq> [])\<rparr>)"
  by (rule scan_step_eq)

definition no_report :: "u8 list" where "no_report = replicate 8 0"

definition scan_start :: scan_st where
  "scan_start = \<lparr>key_val = replicate 5 0, pre_press = False, commu_buf_pre = no_report, sent = []\<rparr>"

definition scan_inv :: "scan_st \<Rightarrow> bool" where
  "scan_inv s \<longleftrightarrow> (\<not> pre_press s \<longrightarrow> commu_buf_pre s = no_report) \<and>
     last (no_report # sent s) = commu_buf_pre s \<and> successively (\<noteq>) (no_report # sent s) \<and>
     (\<forall>r \<in> set (sent s). length r = 8)"

lemma scan_inv_start: "scan_inv scan_start"
  by (simp add: scan_inv_def scan_start_def)

lemma report_none: "report_of [] = no_report"
  by (simp add: report_of_def no_report_def numeral_eq_Suc)

lemma scan_step_inv:
  assumes "scan_inv s"
  shows "\<exists>s'. keyboard_scan level s = Some s' \<and> scan_inv s' \<and>
    (plains (pressed_codes level) < 6 \<longrightarrow> commu_buf_pre s' = report_of (pressed_codes level))"
proof -
  have sn: "successively (\<noteq>) (no_report # sent s @ [r])" if "r \<noteq> commu_buf_pre s" for r
    using assms that successively_append_iff [of "(\<noteq>)" "no_report # sent s" "[r]"] by (auto simp: scan_inv_def)
  show ?thesis
    using assms unfolding scan_step_eq by (auto simp: scan_inv_def Let_def report_none sn)
qed

lemma scan_all_inv: "scan_inv s \<Longrightarrow> \<exists>s'. forM levels keyboard_scan s = Some s' \<and> scan_inv s'"
  by (rule forM_invariant) (use scan_step_inv in blast)+

text \<open>
  Property C39 (keyboard_tracks): the key reports over time. Whatever keys are pressed and released
  from scan to scan, the last report the main controller has received is the one kept in
  commu_buf_pre, no report is sent twice in a row, and after a scan that found fewer than six
  ordinary keys the main controller knows exactly the keys that are pressed: no key stays stuck.
\<close>

theorem keyboard_tracks:
  "\<exists>s. forM (levels @ [level]) keyboard_scan scan_start = Some s \<and>
     last (no_report # sent s) = commu_buf_pre s \<and> successively (\<noteq>) (no_report # sent s) \<and>
     (plains (pressed_codes level) < 6 \<longrightarrow> last (no_report # sent s) = report_of (pressed_codes level))"
proof -
  obtain s1 where s1: "forM levels keyboard_scan scan_start = Some s1" "scan_inv s1"
    using scan_all_inv scan_inv_start by blast
  from scan_step_inv [OF s1(2), of level] obtain s2 where s2: "keyboard_scan level s1 = Some s2" "scan_inv s2"
    "plains (pressed_codes level) < 6 \<longrightarrow> commu_buf_pre s2 = report_of (pressed_codes level)" by blast
  have "forM (levels @ [level]) keyboard_scan scan_start = Some s2" using s1(1) s2(1) by (simp add: forM_append)
  then show ?thesis using s2(2,3) unfolding scan_inv_def by metis
qed

theorem keyboard_tracks_witness:
  "\<exists>s. forM [\<lambda>j i. \<not> (j = 2 \<and> i = 1), \<lambda>j i. True] keyboard_scan scan_start = Some s \<and> last (no_report # sent s) = no_report"
proof -
  have "pressed_codes (\<lambda>j i. True) = []" by (simp add: pressed_codes_def split_def)
  then show ?thesis
    using keyboard_tracks [of "[\<lambda>j i. \<not> (j = 2 \<and> i = 1)]" "\<lambda>j i. True"] by (auto simp: report_none)
qed

text \<open>
  The set-up of the matrix. Parsing the two pin strings stays
  inside the pin arrays and gives the fourteen columns C0 to C13 and the five rows B5 to B9, each
  with its position in the configuration register.
\<close>

theorem keyboard_init_pins:
  "keyboard_init = Some
     (map (\<lambda>n. \<lparr>gpio_port = GPIOC, gpio_pin = push_bit (n mod 8 * 4) 1, gpio_num = of_nat n\<rparr>) [0..<14],
      map (\<lambda>n. \<lparr>gpio_port = GPIOB, gpio_pin = push_bit (n mod 8 * 4) 1, gpio_num = of_nat n\<rparr>) [5..<10])"
  by code_simp

end
