(* ===== verification/Disk_Link.thy ===== *)
theory Disk_Link
  imports Flash_Chip Kbd_Scan
begin

text \<open>
  What the two controllers do with packets: the keyboard controller's commu_recv
  (src/slave2/USER/commu_mcu.c), the main controller's dispatcher thread and key sender
  (src/MDK/commu.c, src/applications/application.c), and the disk driver that reads the flash
  memory of the keyboard controller over the link (src/drivers/ff10a/src/diskio.c). Message queues
  are lists here; that the kernel queues behave like bounded lists is shown in Rt_MessageQueue.
\<close>

section \<open>The keyboard controller\<close>

record 'c slave_st =
  chip :: 'c
  buf_send :: "u8 list"
  buf_key :: "u8 list"
  keyboard_flag :: bool

text \<open>commu_recv: buf is the payload of a packet; the answer is the bytes sent back.\<close>

definition be16 :: "u8 \<Rightarrow> u8 \<Rightarrow> u16" where
  "be16 h l = push_bit 8 (ucast h) + ucast l"

definition be32 :: "u8 \<Rightarrow> u8 \<Rightarrow> u8 \<Rightarrow> u8 \<Rightarrow> u32" where
  "be32 a b c d = push_bit 24 (ucast a) + push_bit 16 (ucast b) + push_bit 8 (ucast c) + ucast d"

definition slave_commu_recv :: "'c spi \<Rightarrow> u8 list \<Rightarrow> u8 \<Rightarrow> 'c slave_st \<Rightarrow> ('c slave_st \<times> u8 list) option" where
  "slave_commu_recv spi buf ty st =
     (if ty = commu_code KEYBOARD_SM then do {
        b0 \<leftarrow> wr (buf_key st) 0 0;
        b1 \<leftarrow> forM [0..<8] (\<lambda>i b. do { v \<leftarrow> rd buf i; wr b (1 + i) v }) b0;
        Some (st\<lparr>buf_key := b1, keyboard_flag := True\<rparr>, []) }
      else if ty = commu_code FLASH_READ_CMD then
        (if length buf < 7 then None
         else do {
           let sector = be32 (buf ! 1) (buf ! 2) (buf ! 3) (buf ! 4);
           let cnt = be16 (buf ! 5) (buf ! 6);
           (b, c) \<leftarrow> SPI_Flash_Read spi (buf_send st) (sector * 512) (cnt * 512) (chip st);
           out \<leftarrow> commu_send_bytes HEAD_MASTER_SEND b 512 (commu_code FLASH_READ_DATA);
           Some (st\<lparr>buf_send := b, chip := c\<rparr>, out) })
      else Some (st, []))"

text \<open>The packets of the receiver (length, type and payload) go to commu_recv one by one.\<close>

definition slave_packets :: "'c spi \<Rightarrow> u8 list list \<Rightarrow> 'c slave_st \<Rightarrow> ('c slave_st \<times> u8 list) option" where
  "slave_packets spi ps st = forM ps (\<lambda>p (st, out). do {
     (st1, o1) \<leftarrow> slave_commu_recv spi (drop 3 p) (p ! 2) st;
     Some (st1, out @ o1) }) (st, [])"

section \<open>The main controller\<close>

record master_st =
  mq_key_ms :: "u8 list list"
  mq_flash_read :: "u8 list list"

text \<open>
  One round of rt_thread_entry_commu: p is the packet in the queue, junk what the rest of the
  600-byte message slot holds.
\<close>

definition commu_thread_round :: "u8 list \<Rightarrow> u8 list \<Rightarrow> master_st \<Rightarrow> master_st option" where
  "commu_thread_round junk p m = do {
     let buf = take 600 (p @ junk);
     ty \<leftarrow> rd buf 2;
     (if ty = commu_code KEYBOARD_MS then
        (if length buf < 11 then None else Some (m\<lparr>mq_key_ms := mq_key_ms m @ [take 8 (drop 3 buf)]\<rparr>))
      else if ty = commu_code FLASH_READ_DATA then
        (if length buf < 515 then None else Some (m\<lparr>mq_flash_read := mq_flash_read m @ [take 512 (drop 3 buf)]\<rparr>))
      else Some m) }"

definition commu_thread :: "u8 list \<Rightarrow> u8 list list \<Rightarrow> master_st \<Rightarrow> master_st option" where
  "commu_thread junk ps m = forM ps (commu_thread_round junk) m"

text \<open>One round of rt_thread_entry_key_sm: the nine bytes from the queue become a packet.\<close>

definition key_sm_round :: "u8 list \<Rightarrow> u8 list option" where
  "key_sm_round buf = commu_send_bytes HEAD_MASTER_RECV buf 8 (commu_code KEYBOARD_SM)"

section \<open>The disk driver\<close>

definition MMC_disk_cmd :: "u32 \<Rightarrow> u16 \<Rightarrow> u8 list" where
  "MMC_disk_cmd sector n = [0, ucast (drop_bit 24 sector AND 0xFF), ucast (drop_bit 16 sector AND 0xFF),
     ucast (drop_bit 8 sector AND 0xFF), ucast (sector AND 0xFF), ucast (drop_bit 8 n), ucast (n AND 0xFF), 0]"

record 'c disk_sys =
  slave :: "'c slave_st"
  slave_rx :: link_rx
  master_rx :: link_rx
  master :: master_st

text \<open>
  MMC_disk_read with what it sets off: the command packet, its handling by the keyboard
  controller, the answer, its dispatch, and the receive from mq_flash_read, which never returns
  when no data arrives (None).
\<close>

definition MMC_disk_read :: "'c spi \<Rightarrow> u8 list \<Rightarrow> u8 list \<Rightarrow> u32 \<Rightarrow> u16 \<Rightarrow> 'c disk_sys \<Rightarrow> (u8 list \<times> 'c disk_sys) option" where
  "MMC_disk_read spi junk pbuf sector n s = do {
     f \<leftarrow> commu_send_bytes HEAD_MASTER_RECV (MMC_disk_cmd sector n) 8 (commu_code FLASH_READ_CMD);
     (rx1, ps) \<leftarrow> rx_run HEAD_MASTER_RECV f (slave_rx s);
     (sl, out) \<leftarrow> slave_packets spi ps (slave s);
     (rx2, qs) \<leftarrow> rx_run HEAD_MASTER_SEND out (master_rx s);
     m \<leftarrow> commu_thread junk qs (master s);
     (case mq_flash_read m of [] \<Rightarrow> None
      | d # ds \<Rightarrow> do {
          pb \<leftarrow> memcpy_at pbuf 0 d;
          Some (pb, s\<lparr>slave := sl, slave_rx := rx1, master_rx := rx2, master := m\<lparr>mq_flash_read := ds\<rparr>\<rparr>) }) }"

datatype dresult = RES_OK | RES_ERROR | RES_WRPRT | RES_NOTRDY | RES_PARERR

definition disk_read :: "'c spi \<Rightarrow> u8 list \<Rightarrow> u8 list \<Rightarrow> u32 \<Rightarrow> u32 \<Rightarrow> 'c disk_sys \<Rightarrow> (dresult \<times> u8 list \<times> 'c disk_sys) option" where
  "disk_read spi junk pbuf sector count s = do {
     (pb, s1) \<leftarrow> MMC_disk_read spi junk pbuf sector (ucast count) s;
     Some (RES_OK, pb, s1) }"

definition MMC_disk_write :: "u8 list \<Rightarrow> u32 \<Rightarrow> u16 \<Rightarrow> 'c disk_sys \<Rightarrow> 'c disk_sys" where
  "MMC_disk_write pbuf sector n s = s"

definition disk_write :: "u8 list \<Rightarrow> u32 \<Rightarrow> u32 \<Rightarrow> 'c disk_sys \<Rightarrow> dresult \<times> 'c disk_sys" where
  "disk_write pbuf sector count s = (RES_OK, MMC_disk_write pbuf sector (ucast count) s)"

section \<open>Bytes of a number\<close>

lemma ucast_and_255: "(ucast (x AND 0xFF) :: u8) = ucast (x :: 'a::len word)"
proof -
  have m: "(0xFF :: 'a word) = mask 8" by (simp add: mask_eq_exp_minus_1)
  show ?thesis unfolding m by (rule bit_word_eqI) (auto simp: bit_simps dest: bit_imp_le_length)
qed

lemma be16_bytes: "be16 (ucast (drop_bit 8 n)) (ucast n) = n"
proof -
  let ?h = "push_bit 8 (ucast (ucast (drop_bit 8 n) :: u8)) :: u16" and ?l = "ucast (ucast n :: u8) :: u16"
  have "?h AND ?l = 0" by (rule bit_word_eqI) (auto simp: bit_simps)
  then have "?h + ?l = ?h OR ?l" by (rule disjunctive_add_eq_or)
  also have "\<dots> = n" by (rule bit_word_eqI) (auto simp: bit_simps not_less)
  finally show ?thesis by (simp add: be16_def)
qed

lemma be32_bytes: "be32 (ucast (drop_bit 24 n)) (ucast (drop_bit 16 n)) (ucast (drop_bit 8 n)) (ucast n) = n"
proof -
  let ?a = "push_bit 24 (ucast (ucast (drop_bit 24 n) :: u8)) :: u32" and ?b = "push_bit 16 (ucast (ucast (drop_bit 16 n) :: u8)) :: u32"
  let ?c = "push_bit 8 (ucast (ucast (drop_bit 8 n) :: u8)) :: u32" and ?d = "ucast (ucast n :: u8) :: u32"
  have ab: "?a + ?b = ?a OR ?b" by (rule disjunctive_add_eq_or, rule bit_word_eqI) (auto simp: bit_simps)
  have abc: "(?a OR ?b) + ?c = ?a OR ?b OR ?c" by (subst or.assoc [symmetric], rule disjunctive_add_eq_or, rule bit_word_eqI) (auto simp: bit_simps)
  have abcd: "(?a OR ?b OR ?c) + ?d = (?a OR ?b OR ?c) OR ?d" by (rule disjunctive_add_eq_or, rule bit_word_eqI) (auto simp: bit_simps)
  have "(?a OR ?b OR ?c) OR ?d = n"
  proof (rule bit_word_eqI)
    fix k assume "k < LENGTH(32)"
    then consider "k < 8" | "8 \<le> k" "k < 16" | "16 \<le> k" "k < 24" | "24 \<le> k" "k < 32" by fastforce
    then show "bit ((?a OR ?b OR ?c) OR ?d) k = bit n k" by cases (auto simp: bit_simps)
  qed
  then show ?thesis unfolding be32_def ab abc abcd .
qed

lemma MMC_disk_cmd_bytes:
  "MMC_disk_cmd sector n = [0, ucast (drop_bit 24 sector), ucast (drop_bit 16 sector), ucast (drop_bit 8 sector),
     ucast sector, ucast (drop_bit 8 n), ucast n, 0]"
  by (simp add: MMC_disk_cmd_def ucast_and_255)

section \<open>Reading a sector\<close>

text \<open>The packet of a command, and its handling.\<close>

lemma slave_reads:
  assumes "w25q spi mem wel busy" "busy (chip st) = 0" "length (buf_send st) = 600"
    and "unat sector * 512 + 512 \<le> FLASH_SIZE"
  shows "\<exists>st' data. slave_commu_recv spi (MMC_disk_cmd sector 1) (commu_code FLASH_READ_CMD) st
      = Some (st', link_frame HEAD_MASTER_SEND (commu_code FLASH_READ_DATA) data) \<and>
    data = map (\<lambda>i. mem (chip st) (unat sector * 512 + i)) [0..<512] \<and>
    busy (chip st') = 0 \<and> mem (chip st') = mem (chip st) \<and> length (buf_send st') = 600"
proof -
  let ?S = "unat sector * 512"
  have sec: "unat (sector * 512) = ?S" using unat_mult_lem [of sector 512] assms(4) by (simp add: FLASH_SIZE_def)
  let ?data = "map (\<lambda>i. mem (chip st) (?S + i)) [0..<512]"
  obtain c where c: "SPI_Flash_Read spi (buf_send st) (sector * 512) 512 (chip st) = Some (overlay (buf_send st) 0 ?data, c)"
    "busy c = 0" "mem c = mem (chip st)"
    using read_spec [OF assms(1,2), of 512 "buf_send st" "sector * 512"] sec assms(3,4) by auto
  have len: "length (overlay (buf_send st) 0 ?data) = 600" using assms(3) by simp
  have tk: "take 512 (overlay (buf_send st) 0 ?data) = ?data" by (simp add: overlay_def)
  have out: "commu_send_bytes HEAD_MASTER_SEND (overlay (buf_send st) 0 ?data) 512 (commu_code FLASH_READ_DATA)
      = Some (link_frame HEAD_MASTER_SEND (commu_code FLASH_READ_DATA) ?data)"
    using commu_send_bytes_frame [of 512 "overlay (buf_send st) 0 ?data"] len unfolding tk by simp
  have one: "be16 (ucast (drop_bit 8 (1 :: u16))) (ucast (1 :: u16)) = 1" by (rule be16_bytes)
  have "slave_commu_recv spi (MMC_disk_cmd sector 1) (commu_code FLASH_READ_CMD) st
      = Some (st\<lparr>buf_send := overlay (buf_send st) 0 ?data, chip := c\<rparr>, link_frame HEAD_MASTER_SEND (commu_code FLASH_READ_DATA) ?data)"
    using c(1) out one be32_bytes [of sector] by (simp add: slave_commu_recv_def MMC_disk_cmd_bytes)
  then show ?thesis using c(2,3) len by auto
qed

lemma slave_packets_one:
  "slave_packets spi [p] st = slave_commu_recv spi (drop 3 p) (p ! 2) st"
  by (cases "slave_commu_recv spi (drop 3 p) (p ! 2) st") (auto simp: slave_packets_def)

lemma thread_flash_data:
  assumes "length data = 512"
  shows "commu_thread_round junk ([h, l, commu_code FLASH_READ_DATA] @ data) m
    = Some (m\<lparr>mq_flash_read := mq_flash_read m @ [data]\<rparr>)"
  using assms by (simp add: commu_thread_round_def Let_def rd_def)

lemma thread_key_report:
  assumes "length data = 8"
  shows "commu_thread_round junk ([h, l, commu_code KEYBOARD_MS] @ data) m = Some (m\<lparr>mq_key_ms := mq_key_ms m @ [data]\<rparr>)"
  using assms by (simp add: commu_thread_round_def Let_def rd_def)

definition links_idle :: "'c disk_sys \<Rightarrow> bool" where
  "links_idle s \<longleftrightarrow> \<not> recving (slave_rx s) \<and> rx_ok (slave_rx s) \<and> \<not> recving (master_rx s) \<and> rx_ok (master_rx s) \<and>
     length (buf_send (slave s)) = 600 \<and> mq_flash_read (master s) = []"

lemma MMC_disk_read_spec:
  assumes "w25q spi mem wel busy" "busy (chip (slave s)) = 0" "links_idle s"
    and "unat sector * 512 + 512 \<le> FLASH_SIZE" "512 \<le> length pbuf"
  shows "\<exists>s'. MMC_disk_read spi junk pbuf sector 1 s
      = Some (map (\<lambda>i. mem (chip (slave s)) (unat sector * 512 + i)) [0..<512] @ drop 512 pbuf, s') \<and>
    links_idle s' \<and> busy (chip (slave s')) = 0 \<and> mem (chip (slave s')) = mem (chip (slave s)) \<and>
    mq_key_ms (master s') = mq_key_ms (master s)"
proof -
  let ?cmd = "MMC_disk_cmd sector 1"
  have cl: "length ?cmd = 8" by (simp add: MMC_disk_cmd_def)
  have f: "commu_send_bytes HEAD_MASTER_RECV ?cmd 8 (commu_code FLASH_READ_CMD)
      = Some (link_frame HEAD_MASTER_RECV (commu_code FLASH_READ_CMD) ?cmd)"
    using commu_send_bytes_frame [of 8 ?cmd] cl by simp
  obtain rx1 where rx1: "rx_run HEAD_MASTER_RECV (link_frame HEAD_MASTER_RECV (commu_code FLASH_READ_CMD) ?cmd) (slave_rx s)
      = Some (rx1, [[hi8 8, lo8 8, commu_code FLASH_READ_CMD] @ ?cmd])" "\<not> recving rx1" "rx_ok rx1"
    using rx_frame [of "slave_rx s" ?cmd HEAD_MASTER_RECV "commu_code FLASH_READ_CMD"] assms(3) cl by (auto simp: links_idle_def)
  obtain sl data where sl: "slave_commu_recv spi ?cmd (commu_code FLASH_READ_CMD) (slave s)
      = Some (sl, link_frame HEAD_MASTER_SEND (commu_code FLASH_READ_DATA) data)"
    "data = map (\<lambda>i. mem (chip (slave s)) (unat sector * 512 + i)) [0..<512]"
    "busy (chip sl) = 0" "mem (chip sl) = mem (chip (slave s))" "length (buf_send sl) = 600"
    using slave_reads [OF assms(1,2) _ assms(4)] assms(3) by (auto simp: links_idle_def)
  have sp: "slave_packets spi [[hi8 8, lo8 8, commu_code FLASH_READ_CMD] @ ?cmd] (slave s)
      = Some (sl, link_frame HEAD_MASTER_SEND (commu_code FLASH_READ_DATA) data)"
    unfolding slave_packets_one using sl(1) by simp
  have dl: "length data = 512" using sl(2) by simp
  obtain rx2 where rx2: "rx_run HEAD_MASTER_SEND (link_frame HEAD_MASTER_SEND (commu_code FLASH_READ_DATA) data) (master_rx s)
      = Some (rx2, [[hi8 512, lo8 512, commu_code FLASH_READ_DATA] @ data])" "\<not> recving rx2" "rx_ok rx2"
    using rx_frame [of "master_rx s" data HEAD_MASTER_SEND "commu_code FLASH_READ_DATA"] assms(3) dl by (auto simp: links_idle_def)
  have m: "commu_thread junk [[hi8 512, lo8 512, commu_code FLASH_READ_DATA] @ data] (master s)
      = Some ((master s)\<lparr>mq_flash_read := [data]\<rparr>)"
    using thread_flash_data [OF dl, of junk _ _ "master s"] assms(3) by (simp add: commu_thread_def links_idle_def)
  have pb: "memcpy_at pbuf 0 data = Some (data @ drop 512 pbuf)" using assms(5) dl by (simp add: memcpy_at_def overlay_def)
  have "MMC_disk_read spi junk pbuf sector 1 s = Some (data @ drop 512 pbuf,
      s\<lparr>slave := sl, slave_rx := rx1, master_rx := rx2, master := (master s)\<lparr>mq_flash_read := []\<rparr>\<rparr>)"
    unfolding MMC_disk_read_def f Option.bind.bind_lunit rx1(1) split sp rx2(1) m using pb by simp
  then show ?thesis using sl(2-5) rx1(2,3) rx2(2,3) by (simp add: links_idle_def)
qed

section \<open>Properties\<close>


definition demo_disk :: "sim_chip disk_sys" where
  "demo_disk = \<lparr>slave = \<lparr>chip = \<lparr>cells = of_nat, latch = False, pending = 0\<rparr>, buf_send = replicate 600 0, buf_key = replicate 9 0,
     keyboard_flag = False\<rparr>, slave_rx = rx_idle (replicate 600 0), master_rx = rx_idle (replicate 600 0),
     master = \<lparr>mq_key_ms = [], mq_flash_read = []\<rparr>\<rparr>"


lemma read_fits: "SPI_Flash_Read spi buf a n c = None \<longleftrightarrow> length buf < unat n"
proof
  assume "length buf < unat n"
  then show "SPI_Flash_Read spi buf a n c = None"
    by (simp add: SPI_Flash_Read_def split_beta Let_def forM_fill_overrun)
next
  assume a: "SPI_Flash_Read spi buf a n c = None"
  show "length buf < unat n"
  proof (rule ccontr)
    assume n: "\<not> length buf < unat n"
    have "\<exists>t. forM [0..<unat n] (\<lambda>i b. wr b i (fst (spi c (W25X_ReadData # addr24 a @ replicate (unat n) 0xFF)) ! (4 + i))) buf = Some t \<and>
        length t = length buf"
      by (rule forM_upt_invariant [where P = "\<lambda>i t. length t = length buf"]) (use n in auto)
    with a show False by (auto simp: SPI_Flash_Read_def split_beta Let_def)
  qed
qed

lemma read_length: "SPI_Flash_Read spi buf a n c = Some (b, c') \<Longrightarrow> length b = length buf"
proof -
  assume a: "SPI_Flash_Read spi buf a n c = Some (b, c')"
  then have n: "unat n \<le> length buf" using read_fits [of spi buf a n c] by simp
  have "\<exists>t. forM [0..<unat n] (\<lambda>i b. wr b i (fst (spi c (W25X_ReadData # addr24 a @ replicate (unat n) 0xFF)) ! (4 + i))) buf = Some t \<and>
      length t = length buf"
    by (rule forM_upt_invariant [where P = "\<lambda>i t. length t = length buf"]) (use n in auto)
  with a show ?thesis by (auto simp: SPI_Flash_Read_def split_beta Let_def)
qed

lemma sectors_bytes: "unat (n * 512 :: u16) = unat n mod 128 * 512"
proof -
  have "unat (n * 512) = unat n * 512 mod 65536" by (simp add: unat_word_ariths)
  also have "\<dots> = unat n mod 128 * 512" using mult_mod_left [of "unat n" 128 512] by simp
  finally show ?thesis .
qed

text \<open>
  Property C40 (disk_read_bounds): how many sectors a read command may ask for. The answer buffer of
  the keyboard controller has 600 bytes and the byte count is kept in 16 bits, so the command is
  handled inside the buffer exactly when the number of sectors is 0 or 1 modulo 128; every other
  count that the file system may ask for writes behind the buffer.
\<close>

theorem disk_read_bounds:
  assumes "length (buf_send st) = 600"
  shows "slave_commu_recv spi (MMC_disk_cmd sector n) (commu_code FLASH_READ_CMD) st \<noteq> None \<longleftrightarrow> unat n mod 128 \<le> 1"
proof (cases "SPI_Flash_Read spi (buf_send st) (sector * 512) (n * 512) (chip st)")
  case None
  then have "slave_commu_recv spi (MMC_disk_cmd sector n) (commu_code FLASH_READ_CMD) st = None"
    by (simp add: slave_commu_recv_def MMC_disk_cmd_bytes be16_bytes be32_bytes)
  moreover have "600 < unat n mod 128 * 512" using None assms read_fits [of spi] by (simp add: sectors_bytes)
  ultimately show ?thesis by simp
next
  case (Some bc)
  obtain b c where bc: "bc = (b, c)" by (cases bc)
  have "512 \<le> length b" using read_length Some assms unfolding bc by fastforce
  then have "slave_commu_recv spi (MMC_disk_cmd sector n) (commu_code FLASH_READ_CMD) st \<noteq> None"
    using Some bc commu_send_bytes_frame [of 512 b HEAD_MASTER_SEND]
    by (simp add: slave_commu_recv_def MMC_disk_cmd_bytes be16_bytes be32_bytes)
  moreover have "unat n mod 128 * 512 \<le> 600"
    using Some assms read_fits [of spi "buf_send st" "sector * 512" "n * 512" "chip st"] by (simp add: sectors_bytes)
  ultimately show ?thesis by simp
qed

theorem disk_read_bounds_witness:
  "slave_commu_recv sim_spi (MMC_disk_cmd 3 2) (commu_code FLASH_READ_CMD) (slave demo_disk) = None \<and>
   slave_commu_recv sim_spi (MMC_disk_cmd 3 1) (commu_code FLASH_READ_CMD) (slave demo_disk) \<noteq> None"
proof -
  have len: "length (buf_send (slave demo_disk)) = 600" by (simp add: demo_disk_def)
  show ?thesis using disk_read_bounds [OF len, of sim_spi 3 2] disk_read_bounds [OF len, of sim_spi 3 1]
    by (simp del: not_None_eq)
qed

text \<open>The bytes the keyboard controller puts on the line for a sequence of reports.\<close>

definition kbd_line :: "u8 list list \<Rightarrow> u8 list option" where
  "kbd_line reports = forM reports (\<lambda>r out. do {
     f \<leftarrow> commu_send_bytes HEAD_MASTER_SEND r 8 (commu_code KEYBOARD_MS);
     Some (out @ f) }) []"

lemma kbd_line_wire:
  assumes "\<forall>r \<in> set rs. length r = 8"
  shows "kbd_line rs = Some (wire HEAD_MASTER_SEND (map (Packet (commu_code KEYBOARD_MS)) rs))"
proof -
  have "forM rs (\<lambda>r out. do { f \<leftarrow> commu_send_bytes HEAD_MASTER_SEND r 8 (commu_code KEYBOARD_MS); Some (out @ f) }) acc
      = Some (acc @ wire HEAD_MASTER_SEND (map (Packet (commu_code KEYBOARD_MS)) rs))" for acc
    using assms
  proof (induction rs arbitrary: acc)
    case (Cons r rs)
    then show ?case using commu_send_bytes_frame [of 8 r] by simp
  qed simp
  then show ?thesis by (simp add: kbd_line_def)
qed

lemma thread_key_reports:
  "\<forall>r \<in> set rs. length r = 8 \<Longrightarrow> commu_thread junk (packets (map (Packet (commu_code KEYBOARD_MS)) rs)) m
    = Some (m\<lparr>mq_key_ms := mq_key_ms m @ rs\<rparr>)"
proof (induction rs arbitrary: m)
  case (Cons r rs)
  then show ?case using thread_key_report [of r junk "hi8 8" "lo8 8" m] by (simp add: commu_thread_def)
qed (simp add: commu_thread_def)



end
