(* ===== verification/Usb_Disk.thy ===== *)
theory Usb_Disk
  imports Disk_Link "HOL-Library.Sublist"
begin

text \<open>
  The USB side of the keyboard controller: the disk it offers to the host
  (src/slave2/USB/CONFIG/mass_mal.c over SD_ReadDisk and SD_WriteDisk of src/slave2/USER/commu.c),
  which is the same flash memory the main controller reads over the link, and the loop of main in
  src/slave2/USER/test.c, which passes the reports received over the link on to the host. The USB
  endpoints are left out: a report handed to keyborad_process is an element of a list.
\<close>

section \<open>The disk\<close>

definition MAL_OK :: u16 where "MAL_OK = 0"
definition MAL_FAIL :: u16 where "MAL_FAIL = 1"

definition MAL_Init :: "u8 \<Rightarrow> u16" where
  "MAL_Init lun = (if lun = 0 \<or> lun = 1 then MAL_OK else MAL_FAIL)"

definition MAL_GetStatus :: "u8 \<Rightarrow> u16" where
  "MAL_GetStatus lun = (if lun = 0 \<or> lun = 1 then MAL_OK else MAL_FAIL)"

text \<open>Reading and writing sectors; secbuf is the driver's sector buffer.\<close>

definition SD_ReadDisk_flash :: "'c spi \<Rightarrow> u8 list \<Rightarrow> u32 \<Rightarrow> u32 \<Rightarrow> 'c \<Rightarrow> (u8 \<times> u8 list \<times> 'c) option" where
  "SD_ReadDisk_flash spi buf sector cnt c = do {
     (b, c1) \<leftarrow> SPI_Flash_Read spi buf (sector * 512) (ucast (cnt * 512)) c; Some (0, b, c1) }"

definition SD_WriteDisk_flash :: "'c spi \<Rightarrow> u8 list \<Rightarrow> u32 \<Rightarrow> u32 \<Rightarrow> u8 list \<Rightarrow> 'c \<Rightarrow> (u8 \<times> u8 list \<times> 'c) option" where
  "SD_WriteDisk_flash spi buf sector cnt secbuf c = do {
     (b, c1) \<leftarrow> SPI_Flash_Write spi buf (sector * 512) (ucast (cnt * 512)) secbuf c; Some (0, b, c1) }"

definition MAL_Write :: "'c spi \<Rightarrow> u8 \<Rightarrow> u32 \<Rightarrow> u8 list \<Rightarrow> u16 \<Rightarrow> u8 list \<Rightarrow> 'c \<Rightarrow> (u16 \<times> u8 list \<times> 'c) option" where
  "MAL_Write spi lun off buf n secbuf c =
     (if lun = 0 then do {
        (sta, b, c1) \<leftarrow> SD_WriteDisk_flash spi buf (drop_bit 9 off) (ucast (drop_bit 9 n)) secbuf c;
        Some (if sta \<noteq> 0 then MAL_FAIL else MAL_OK, b, c1) }
      else if lun = 1 then Some (MAL_OK, secbuf, c)
      else Some (MAL_FAIL, secbuf, c))"

definition MAL_Read :: "'c spi \<Rightarrow> u8 \<Rightarrow> u32 \<Rightarrow> u8 list \<Rightarrow> u16 \<Rightarrow> 'c \<Rightarrow> (u16 \<times> u8 list \<times> 'c) option" where
  "MAL_Read spi lun off buf n c =
     (if lun = 0 then do {
        (sta, b, c1) \<leftarrow> SD_ReadDisk_flash spi buf (drop_bit 9 off) (ucast (drop_bit 9 n)) c;
        Some (if sta \<noteq> 0 then MAL_FAIL else MAL_OK, b, c1) }
      else if lun = 1 then Some (MAL_OK, buf, c)
      else Some (MAL_FAIL, buf, c))"

section \<open>The loop of main\<close>

text \<open>One poll of the flag: the report handed to keyborad_process, if any.\<close>

definition main_poll :: "'c slave_st \<Rightarrow> 'c slave_st \<times> u8 list list" where
  "main_poll st = (if keyboard_flag st then (st\<lparr>keyboard_flag := False\<rparr>, [buf_key st]) else (st, []))"

text \<open>One round of the loop: a scan of the keys, then 150 polls, without packets in between.\<close>

definition slave2_round :: "(nat \<Rightarrow> nat \<Rightarrow> bool) \<Rightarrow> scan_st \<times> 'c slave_st \<Rightarrow> (scan_st \<times> 'c slave_st \<times> u8 list list) option" where
  "slave2_round level = (\<lambda>(k, st). do {
     k1 \<leftarrow> keyboard_scan level k;
     let (st1, out) = fold (\<lambda>i (st, out). let (st', o') = main_poll st in (st', out @ o')) [0..<150] (st, []);
     Some (k1, st1, out) })"

text \<open>Polls of the loop and packets of the link in any order.\<close>

datatype kb_event = Packet "u8 list" | Poll

fun kb_run :: "'c spi \<Rightarrow> kb_event list \<Rightarrow> 'c slave_st \<Rightarrow> ('c slave_st \<times> u8 list list) option" where
  "kb_run spi [] st = Some (st, [])"
| "kb_run spi (Packet p # es) st = do {
     (st1, _) \<leftarrow> slave_commu_recv spi p (commu_code KEYBOARD_SM) st; kb_run spi es st1 }"
| "kb_run spi (Poll # es) st = (let (st1, o1) = main_poll st in do {
     (st2, o2) \<leftarrow> kb_run spi es st1; Some (st2, o1 @ o2) })"

section \<open>Properties\<close>

text \<open>
  The reports that get through: the last packet before each poll; waits is the packet that still waits.
\<close>

fun survivors :: "u8 list option \<Rightarrow> kb_event list \<Rightarrow> u8 list list" where
  "survivors waits [] = []"
| "survivors waits (Packet p # es) = survivors (Some p) es"
| "survivors waits (Poll # es) = (case waits of None \<Rightarrow> [] | Some p \<Rightarrow> [p]) @ survivors None es"

fun packets :: "kb_event list \<Rightarrow> u8 list list" where
  "packets [] = []"
| "packets (Packet p # es) = p # packets es"
| "packets (Poll # es) = packets es"

definition kb_pending :: "u8 list option \<Rightarrow> 'c slave_st \<Rightarrow> bool" where
  "kb_pending waits st \<longleftrightarrow> length (buf_key st) = 9 \<and>
     (case waits of None \<Rightarrow> \<not> keyboard_flag st | Some p \<Rightarrow> keyboard_flag st \<and> buf_key st = 0 # p)"

lemma keyboard_packet:
  assumes "length p = 8" "length (buf_key st) = 9"
  shows "slave_commu_recv spi p (commu_code KEYBOARD_SM) st = Some (st\<lparr>buf_key := 0 # p, keyboard_flag := True\<rparr>, [])"
proof -
  have l: "length ((buf_key st)[0 := 0]) = 9" using assms(2) by simp
  have "forM [0..<8] (\<lambda>i b. do { v \<leftarrow> rd p i; wr b (1 + i) v }) ((buf_key st)[0 := 0]) = Some (overlay ((buf_key st)[0 := 0]) 1 (take 8 p))"
    using assms l by (intro copy_into_buffer) simp_all
  moreover have "overlay ((buf_key st)[0 := 0]) 1 (take 8 p) = 0 # p"
    using assms by (cases "buf_key st") (simp_all add: overlay_def)
  ultimately show ?thesis using assms by (simp add: slave_commu_recv_def)
qed

lemma kb_run_survivors:
  "kb_pending waits st \<Longrightarrow> \<forall>p \<in> set (packets es). length p = 8 \<Longrightarrow>
   \<exists>st'. kb_run spi es st = Some (st', map ((#) 0) (survivors waits es))"
proof (induction es arbitrary: waits st rule: packets.induct)
  case (2 p es)
  then have p: "slave_commu_recv spi p (commu_code KEYBOARD_SM) st = Some (st\<lparr>buf_key := 0 # p, keyboard_flag := True\<rparr>, [])"
    by (intro keyboard_packet) (simp_all add: kb_pending_def)
  have "kb_pending (Some p) (st\<lparr>buf_key := 0 # p, keyboard_flag := True\<rparr>)" using 2 by (simp add: kb_pending_def)
  from 2(1) [OF this] 2(3) p show ?case by simp
next
  case (3 es)
  have "kb_pending None (fst (main_poll st))"
    using 3(2) by (auto simp: kb_pending_def main_poll_def split: option.splits)
  moreover have "snd (main_poll st) = map ((#) 0) (case waits of None \<Rightarrow> [] | Some p \<Rightarrow> [p])"
    using 3(2) by (auto simp: kb_pending_def main_poll_def split: option.splits)
  ultimately show ?case using 3(1) [of None "fst (main_poll st)"] 3(3) by (fastforce simp: split_beta)
qed simp

text \<open>Every packet is followed by a poll before the next one.\<close>

fun polled_between :: "kb_event list \<Rightarrow> bool" where
  "polled_between [] = True"
| "polled_between (Packet p # es) = (case es of Poll # es' \<Rightarrow> polled_between es | _ \<Rightarrow> False)"
| "polled_between (Poll # es) = polled_between es"

lemma survivors_subseq: "subseq (survivors waits es) ((case waits of None \<Rightarrow> [] | Some p \<Rightarrow> [p]) @ packets es)"
proof (induction es arbitrary: waits rule: packets.induct)
  case (2 p es)
  have "subseq (survivors (Some p) es) (p # packets es)" using 2 [of "Some p"] by simp
  then show ?case by (auto intro: list_emb_append2)
next
  case (3 es)
  have "subseq (survivors None es) (packets es)" using 3 [of None] by simp
  then show ?case by (auto split: option.split)
qed simp

lemma survivors_all: "polled_between es \<Longrightarrow> survivors None es = packets es"
proof (induction es rule: polled_between.induct)
  case (2 p es)
  then obtain es' where "es = Poll # es'" "polled_between es" by (auto split: list.splits kb_event.splits)
  then show ?case using 2(1) [of Poll es'] by simp
qed simp_all




lemma unat_sector: "unat k * 512 < 2 ^ 32 \<Longrightarrow> unat (k * 512 :: u32) = unat k * 512"
  by (simp add: unat_word_ariths)

lemma unat_count: "unat k < 128 \<Longrightarrow> unat (k * 512 :: u16) = unat k * 512"
  by (simp add: unat_word_ariths)

lemma drop_sector: "unat k * 512 < 2 ^ 32 \<Longrightarrow> drop_bit 9 (k * 512 :: u32) = k"
proof -
  assume k: "unat k * 512 < 2 ^ 32"
  have "unat (drop_bit 9 (k * 512)) = drop_bit 9 (unat (k * 512))" by (rule unat_drop_bit_eq)
  also have "\<dots> = unat k" unfolding unat_sector [OF k] by (simp add: drop_bit_eq_div)
  finally show ?thesis by (simp only: word_unat_eq_iff)
qed

lemma drop_count: "unat k < 128 \<Longrightarrow> drop_bit 9 (k * 512 :: u16) = k"
proof -
  assume k: "unat k < 128"
  have "unat (drop_bit 9 (k * 512)) = drop_bit 9 (unat (k * 512))" by (rule unat_drop_bit_eq)
  also have "\<dots> = unat k" unfolding unat_count [OF k] by (simp add: drop_bit_eq_div)
  finally show ?thesis by (simp only: word_unat_eq_iff)
qed

lemma count_bytes: "unat k < 128 \<Longrightarrow> ucast (ucast k * 512 :: u32) = (k * 512 :: u16)"
proof -
  assume k: "unat k < 128"
  have u: "unat (ucast k :: u32) = unat k" by (simp add: unsigned_ucast_eq take_bit_nat_eq_self)
  then have "unat (ucast k * 512 :: u32) = unat k * 512" using k by (subst unat_sector) simp_all
  then have "unat (ucast (ucast k * 512 :: u32) :: u16) = unat k * 512" using k by (subst unat_ucast_u32_u16) simp_all
  then show ?thesis using unat_count [OF k] by (simp add: word_unat_eq_iff)
qed



end
