(* ===== verification/Key_Remap.thy ===== *)
theory Key_Remap
  imports Key_Filter
begin

text \<open>
  The remapping table of the modifier keys (src/APP/key_remap.c): a file of lines name=name sets
  entries of key_changetable. Names are compared with the rows of key_string for the length of the
  written name only, so a prefix matches; when no row matches, the index variable of the code stays
  uninitialised and its use is undefined.
\<close>

section \<open>One line\<close>

text \<open>The bytes p to q of the buffer against the row of key_string, up to the first difference.\<close>

fun row_eq :: "u8 list \<Rightarrow> nat list \<Rightarrow> nat \<Rightarrow> nat \<Rightarrow> bool option" where
  "row_eq buf [] p row = Some True"
| "row_eq buf (j # js) p row = do {
     c \<leftarrow> rd buf j;
     k \<leftarrow> rd key_string (6 * row + (j - p));
     (if c \<noteq> k then Some False else row_eq buf js p row) }"

fun row_find :: "u8 list \<Rightarrow> nat \<Rightarrow> nat \<Rightarrow> nat list \<Rightarrow> nat option option" where
  "row_find buf p q [] = Some None"
| "row_find buf p q (i # is) = do {
     e \<leftarrow> row_eq buf [p..<q] p i;
     (if e then Some (Some i) else row_find buf p q is) }"

definition table_line_process :: "u8 list \<Rightarrow> nat \<Rightarrow> nat \<Rightarrow> nat \<Rightarrow> u8 list \<Rightarrow> u8 list option" where
  "table_line_process buf p0 p1 p2 table = do {
     l \<leftarrow> row_find buf p0 p1 [0..<8];
     r \<leftarrow> row_find buf (p1 + 1) p2 [0..<8];
     index_left \<leftarrow> l;
     index_right \<leftarrow> r;
     wr table index_left (of_nat index_right) }"

section \<open>The file\<close>

definition table_kept :: "u8 \<Rightarrow> bool" where
  "table_kept c \<longleftrightarrow> 97 \<le> c \<and> c \<le> 122 \<or> 65 \<le> c \<and> c \<le> 90 \<or> c = of_char CHR ''='' \<or> c = 10"

definition table_lower :: "u8 \<Rightarrow> u8" where
  "table_lower c = (if 65 \<le> c \<and> c \<le> 90 then c + 32 else c)"

definition table_strip :: "u8 list \<Rightarrow> nat \<Rightarrow> (u8 list \<times> nat) option" where
  "table_strip read_buf sz = forM [0..<sz] (\<lambda>i (b, w). do {
     c \<leftarrow> rd b i;
     (if table_kept c then do { b' \<leftarrow> wr b w (table_lower c); Some (b', w + 1) } else Some (b, w)) }) (read_buf, 0)"

record table_st =
  tstate :: nat
  ptr0 :: nat
  ptr1 :: nat
  table :: "u8 list"

text \<open>
  The loop body at index i: at the end of the text an unfinished second name is taken, an
  unfinished first name is reported and the switch still runs on the byte behind the text.
\<close>

definition table_switch :: "u8 list \<Rightarrow> nat \<Rightarrow> table_st \<Rightarrow> table_st option" where
  "table_switch b i s =
     (if tstate s = 0 then do { c \<leftarrow> rd b i;
        Some (if c \<noteq> 10 then s\<lparr>ptr0 := i, tstate := 1\<rparr> else s) }
      else if tstate s = 1 then do { c \<leftarrow> rd b i;
        Some (if c = of_char CHR ''='' then s\<lparr>tstate := 2, ptr1 := i\<rparr> else s) }
      else do { c \<leftarrow> rd b i;
        (if c = 10 then do { t \<leftarrow> table_line_process b (ptr0 s) (ptr1 s) i (table s);
           Some (s\<lparr>tstate := 0, table := t\<rparr>) }
         else Some s) })"

definition table_char :: "u8 list \<Rightarrow> nat \<Rightarrow> nat \<Rightarrow> table_st \<Rightarrow> table_st option" where
  "table_char b w i s =
     (if i = w then
        (if tstate s = 1 then table_switch b i s
         else if tstate s = 2 then do { t \<leftarrow> table_line_process b (ptr0 s) (ptr1 s) i (table s);
           Some (s\<lparr>tstate := 0, table := t\<rparr>) }
         else Some s)
      else table_switch b i s)"

definition key_table_process :: "u8 list \<Rightarrow> nat \<Rightarrow> u8 list \<Rightarrow> (nat \<times> u8 list \<times> u8 list) option" where
  "key_table_process read_buf sz tab = do {
     (b, w) \<leftarrow> table_strip read_buf sz;
     s \<leftarrow> forM [0..<w + 1] (table_char b w) \<lparr>tstate = 0, ptr0 = 0, ptr1 = 0, table = tab\<rparr>;
     Some (0, b, table s) }"

text \<open>key_remap_init reads the file of sz bytes into the common buffer when the service is on.\<close>

definition key_remap_init :: "bool \<Rightarrow> u8 list \<Rightarrow> nat \<Rightarrow> u8 list \<Rightarrow> (nat \<times> u8 list \<times> u8 list) option" where
  "key_remap_init enabled read_buf sz tab =
     (if enabled then do { (_, b, t) \<leftarrow> key_table_process read_buf sz tab; Some (0, b, t) }
      else Some (0, read_buf, tab))"

section \<open>Names\<close>

definition mod_names :: "string list" where
  "mod_names = [''lctrl'', ''lshift'', ''lalt'', ''lgui'', ''rctrl'', ''rshift'', ''ralt'', ''rgui'']"

definition mod_name :: "nat \<Rightarrow> u8 list" where
  "mod_name k = bytes (mod_names ! k)"

lemma mod_names_length: "list_all (\<lambda>s. 0 < length s \<and> length s \<le> 6) mod_names" "length mod_names = 8"
  by (simp_all add: mod_names_def)

lemma mod_name_length: "k < 8 \<Longrightarrow> 0 < length (mod_name k) \<and> length (mod_name k) \<le> 6"
  using mod_names_length by (auto simp: mod_name_def list_all_length)

lemma mod_name_chars: "list_all (\<lambda>s. list_all (\<lambda>c. c \<noteq> 10 \<and> c \<noteq> 61) (bytes s)) mod_names"
  by (simp add: mod_names_def)

lemma mod_name_char: "k < 8 \<Longrightarrow> c \<in> set (mod_name k) \<Longrightarrow> c \<noteq> 10 \<and> c \<noteq> 61"
proof -
  assume "k < 8" "c \<in> set (mod_name k)"
  then have "mod_names ! k \<in> set mod_names" "c \<in> set (bytes (mod_names ! k))"
    using mod_names_length(2) by (simp_all add: mod_name_def)
  then show ?thesis using mod_name_chars by (auto simp: list_all_iff)
qed

definition row_prefix :: "u8 list \<Rightarrow> nat \<Rightarrow> bool" where
  "row_prefix t i \<longleftrightarrow> t = take (length t) (drop (6 * i) key_string)"

lemma first_rows: "list_all (\<lambda>k. find (row_prefix (mod_name k)) [0..<8] = Some k) [0..<8]"
  by code_simp

lemma row_eq_prefix:
  assumes "at buf p t" "6 * i + length t \<le> 48"
  shows "j \<le> length t \<Longrightarrow> row_eq buf [p + j..<p + length t] p i
    = Some (drop j t = take (length t - j) (drop (6 * i + j) key_string))"
proof (induction "length t - j" arbitrary: j)
  case 0
  then show ?case by simp
next
  case (Suc d)
  then have j: "j < length t" "6 * i + j < 48" using assms(2) by simp_all
  have d: "drop j t = t ! j # drop (Suc j) t" using j by (simp add: Cons_nth_drop_Suc)
  have k: "take (length t - j) (drop (6 * i + j) key_string)
      = key_string ! (6 * i + j) # take (length t - Suc j) (drop (6 * i + Suc j) key_string)"
  proof -
    have "length t - j = Suc d" "length t - Suc j = d" using Suc.hyps(2) by simp_all
    then show ?thesis using j by (simp flip: Cons_nth_drop_Suc)
  qed
  have "rd buf (p + j) = Some (t ! j)" using assms(1) j by (simp add: at_def)
  moreover have "[p + j..<p + length t] = (p + j) # [p + Suc j..<p + length t]" using j by (simp add: upt_conv_Cons)
  ultimately show ?case using Suc.hyps(1) [of "Suc j"] Suc.hyps(2) j d k by simp
qed

lemma row_find_prefix:
  "at buf p t \<Longrightarrow> length t \<le> 6 \<Longrightarrow> set is \<subseteq> {0..<8} \<Longrightarrow>
   row_find buf p (p + length t) is = Some (find (row_prefix t) is)"
proof (induction "is")
  case (Cons i "is")
  then have "row_eq buf [p..<p + length t] p i = Some (row_prefix t i)"
    using row_eq_prefix [of buf p t i 0] by (simp add: row_prefix_def)
  with Cons show ?case by simp
qed simp

lemma table_line_names:
  assumes "a < 8" "b < 8" "length tab = 8" "at buf p (mod_name a @ of_char CHR ''='' # mod_name b)"
  shows "table_line_process buf p (p + length (mod_name a)) (p + length (mod_name a) + 1 + length (mod_name b)) tab
    = Some (tab[a := of_nat b])"
proof -
  have "row_find buf p (p + length (mod_name a)) [0..<8] = Some (Some a)"
    using row_find_prefix [of buf p "mod_name a" "[0..<8]"] assms mod_name_length [of a] first_rows
    by (simp add: list_all_iff)
  moreover have "row_find buf (p + length (mod_name a) + 1) (p + length (mod_name a) + 1 + length (mod_name b)) [0..<8] = Some (Some b)"
    using row_find_prefix [of buf "p + length (mod_name a) + 1" "mod_name b" "[0..<8]"] assms mod_name_length [of b] first_rows
    by (simp add: list_all_iff)
  ultimately show ?thesis using assms by (simp add: table_line_process_def)
qed


section \<open>Files of names\<close>

definition remap_line :: "nat \<times> nat \<Rightarrow> u8 list" where
  "remap_line l = mod_name (fst l) @ of_char CHR ''='' # mod_name (snd l)"

definition remap_file :: "(nat \<times> nat) list \<Rightarrow> u8 list" where
  "remap_file ls = concat (map (\<lambda>l. remap_line l @ [10]) ls)"

definition table_text :: "u8 list \<Rightarrow> u8 list" where
  "table_text xs = map table_lower (filter table_kept xs)"

text \<open>Characters inside a name leave the state alone.\<close>

lemma table_inside:
  "at b i cs \<Longrightarrow> (tstate s = 1 \<and> 61 \<notin> set cs) \<or> (tstate s = 2 \<and> 10 \<notin> set cs) \<Longrightarrow> i + length cs \<le> w \<Longrightarrow>
   forM [i..<i + length cs] (table_char b w) s = Some s"
proof (induction cs arbitrary: i)
  case (Cons c cs)
  then have "table_char b w i s = Some s" by (auto simp: table_char_def table_switch_def)
  moreover have "forM [Suc i..<Suc i + length cs] (table_char b w) s = Some s"
    using Cons by (intro Cons.IH) auto
  ultimately show ?case by (subst forM_upt_first) simp_all
qed simp

lemma table_line_scan:
  assumes "x < 8" "y < 8" "at b i (remap_line (x, y))" "tstate s = 0" "i + length (remap_line (x, y)) \<le> w"
  shows "forM [i..<i + length (remap_line (x, y))] (table_char b w) s
    = Some (s\<lparr>ptr0 := i, ptr1 := i + length (mod_name x), tstate := 2\<rparr>)"
proof -
  obtain c cs where c: "mod_name x = c # cs" using mod_name_length [OF assms(1)] by (cases "mod_name x") auto
  have ne: "c \<noteq> 10" "61 \<notin> set cs" "10 \<notin> set (mod_name y)"
    using mod_name_char [OF assms(1)] mod_name_char [OF assms(2)] c by force+
  let ?s1 = "s\<lparr>ptr0 := i, tstate := 1\<rparr>" let ?s2 = "s\<lparr>ptr0 := i, ptr1 := i + length (mod_name x), tstate := 2\<rparr>"
  let ?e = "Suc i + length cs"
  have at: "rd b i = Some c" "at b (Suc i) cs" "rd b ?e = Some 61" "at b (Suc ?e) (mod_name y)"
    using assms(3) c by (simp_all add: remap_line_def)
  have len: "i + length (remap_line (x, y)) = Suc ?e + length (mod_name y)" using c by (simp add: remap_line_def)
  have le: "Suc ?e + length (mod_name y) \<le> w" using assms(5) len by simp
  have 1: "table_char b w i s = Some ?s1" using at(1) ne assms(4) le by (auto simp: table_char_def table_switch_def)
  have 2: "forM [Suc i..<?e] (table_char b w) ?s1 = Some ?s1" using at ne le by (intro table_inside) auto
  have 3: "table_char b w ?e ?s1 = Some ?s2" using at(3) le c by (auto simp: table_char_def table_switch_def)
  have 4: "forM [Suc ?e..<Suc ?e + length (mod_name y)] (table_char b w) ?s2 = Some ?s2"
    using at ne le by (intro table_inside) auto
  have "forM [i..<Suc ?e + length (mod_name y)] (table_char b w) s
      = forM [Suc i..<Suc ?e + length (mod_name y)] (table_char b w) ?s1" using 1 by (subst forM_upt_first) simp_all
  also have "\<dots> = forM [?e..<Suc ?e + length (mod_name y)] (table_char b w) ?s1"
    by (rule forM_skip [OF 2]) simp_all
  also have "\<dots> = Some ?s2" using 3 4 by (subst forM_upt_first) simp_all
  finally show ?thesis by (simp only: len)
qed

lemma table_line:
  assumes "x < 8" "y < 8" "at b i (remap_line (x, y))" "tstate s = 0" "i + length (remap_line (x, y)) \<le> w" "length (table s) = 8"
    and "i + length (remap_line (x, y)) < w \<Longrightarrow> rd b (i + length (remap_line (x, y))) = Some 10"
  shows "\<exists>s'. forM [i..<i + length (remap_line (x, y)) + 1] (table_char b w) s = Some s' \<and> tstate s' = 0 \<and>
    table s' = (table s)[x := of_nat y]"
proof -
  let ?n = "i + length (remap_line (x, y))"
  let ?s2 = "s\<lparr>ptr0 := i, ptr1 := i + length (mod_name x), tstate := 2\<rparr>"
  have "?n = i + length (mod_name x) + 1 + length (mod_name y)" by (simp add: remap_line_def)
  then have "table_line_process b i (i + length (mod_name x)) ?n (table s) = Some ((table s)[x := of_nat y])"
    using table_line_names [OF assms(1,2,6), of b i] assms(3) by (simp add: remap_line_def add.assoc)
  then have "table_char b w ?n ?s2 = Some (?s2\<lparr>tstate := 0, table := (table s)[x := of_nat y]\<rparr>)"
    using assms(5,7) by (cases "?n = w") (auto simp: table_char_def table_switch_def)
  moreover have "forM [i..<?n + 1] (table_char b w) s
      = Option.bind (forM [i..<?n] (table_char b w) s) (forM [?n..<?n + 1] (table_char b w))"
    by (rule forM_upt_split) simp_all
  ultimately show ?thesis using table_line_scan [OF assms(1-5)] by simp
qed

definition remap_table :: "(nat \<times> nat) list \<Rightarrow> u8 list \<Rightarrow> u8 list" where
  "remap_table ls tab = fold (\<lambda>(x, y) t. t[x := of_nat y]) ls tab"

lemma table_lines:
  assumes "\<forall>(x, y) \<in> set ls. x < 8 \<and> y < 8" "at b i t" "tstate s = 0" "length (table s) = 8" "w = i + length t"
    and "t = remap_file ls \<or> t @ [10] = remap_file ls"
  shows "\<exists>s'. forM [i..<w + 1] (table_char b w) s = Some s' \<and> table s' = remap_table ls (table s)"
  using assms
proof (induction ls arbitrary: i s t)
  case Nil
  then have "t = []" by (auto simp: remap_file_def)
  then show ?case using Nil by (simp add: remap_table_def table_char_def)
next
  case (Cons l ls)
  obtain x y where l: "l = (x, y)" by fastforce
  then have xy: "x < 8" "y < 8" using Cons.prems(1) by auto
  let ?r = "remap_line (x, y)"
  have f: "remap_file (l # ls) = ?r @ 10 # remap_file ls" by (simp add: remap_file_def l)
  show ?case
  proof (cases "t = ?r")
    case True
    then have ls: "ls = []" using Cons.prems(6) f by (cases ls) (auto simp: remap_file_def)
    obtain s' where "forM [i..<w + 1] (table_char b w) s = Some s'" "table s' = (table s)[x := of_nat y]"
      using table_line [OF xy, of b i s w] Cons.prems True by auto
    then show ?thesis using l ls by (simp add: remap_table_def)
  next
    case False
    then obtain t' where t': "t = ?r @ 10 # t'" "t' = remap_file ls \<or> t' @ [10] = remap_file ls"
      using Cons.prems(6) unfolding f
      by (auto simp: append_eq_append_conv2 Cons_eq_append_conv append_eq_Cons_conv)
    let ?n = "i + length ?r + 1"
    obtain s1 where s1: "forM [i..<?n] (table_char b w) s = Some s1" "tstate s1 = 0" "table s1 = (table s)[x := of_nat y]"
      using table_line [OF xy, of b i s w] Cons.prems t'(1) by auto
    obtain s2 where s2: "forM [?n..<w + 1] (table_char b w) s1 = Some s2" "table s2 = remap_table ls (table s1)"
      using Cons.IH [of ?n t' s1] Cons.prems t' s1 by auto
    have "forM [i..<w + 1] (table_char b w) s = Some s2"
      using s1(1) s2(1) Cons.prems(5) t'(1) by (subst forM_upt_split [of _ ?n]) auto
    then show ?thesis using s2(2) s1(3) l by (simp add: remap_table_def)
  qed
qed

section \<open>Properties\<close>

text \<open>
  Property C11 (key_table_applies): a remapping file. If the file, reduced to letters, equals signs
  and newlines and lowered, is a sequence of lines name=name over the eight modifier names (the
  last newline may be missing), then key_table_process stays inside its arrays and sets, line by
  line, the entry of the left name to the number of the right name. All eight names work here,
  lshift and rshift included.
\<close>

theorem key_table_applies:
  assumes "sz \<le> length buf" "length tab = 8" "\<forall>(x, y) \<in> set ls. x < 8 \<and> y < 8"
    and "table_text (take sz buf) = remap_file ls \<or> table_text (take sz buf) @ [10] = remap_file ls"
  shows "\<exists>b. key_table_process buf sz tab = Some (0, b, remap_table ls tab)"
proof -
  let ?t = "table_text (take sz buf)" let ?b = "overlay buf 0 ?t"
  have "length ?t \<le> length buf"
    using length_filter_le [of table_kept "take sz buf"] assms(1) by (simp add: table_text_def)
  then have "at ?b 0 ?t" by (simp add: at_def rd_def overlay_nth)
  then obtain s where "forM [0..<length ?t + 1] (table_char ?b (length ?t)) \<lparr>tstate = 0, ptr0 = 0, ptr1 = 0, table = tab\<rparr> = Some s"
    "table s = remap_table ls tab"
    using table_lines [OF assms(3), of ?b 0 ?t "\<lparr>tstate = 0, ptr0 = 0, ptr1 = 0, table = tab\<rparr>" "length ?t"] assms(2,4) by auto
  moreover have "table_strip buf sz = Some (?b, length ?t)"
    using assms(1) by (simp add: table_strip_def table_text_def strip_pass)
  ultimately show ?thesis by (simp add: key_table_process_def)
qed

theorem key_table_applies_witness:
  "\<exists>b. key_table_process (bytes ''LCtrl = lalt'' @ [10] @ bytes ''lalt=rshift'' @ [0, 0]) 24 [0, 1, 2, 3, 4, 5, 6, 7]
     = Some (0, b, [2, 1, 5, 3, 4, 5, 6, 7])"
proof -
  have "table_text (take 24 (bytes ''LCtrl = lalt'' @ [10] @ bytes ''lalt=rshift'' @ [0, 0])) @ [10] = remap_file [(0, 2), (2, 5)]"
    by (simp add: table_text_def table_kept_def table_lower_def remap_file_def remap_line_def mod_name_def mod_names_def)
  then show ?thesis
    using key_table_applies [of 24 "bytes ''LCtrl = lalt'' @ [10] @ bytes ''lalt=rshift'' @ [0, 0]"
        "[0, 1, 2, 3, 4, 5, 6, 7]" "[(0, 2), (2, 5)]"] by (simp add: remap_table_def)
qed

text \<open>
  A line whose left name is none of the names, nor a prefix of a
  row of the table of names, uses an uninitialised index: table_line_process is undefined on it.
\<close>

theorem key_table_unknown:
  assumes "at buf p n" "length n \<le> 6" "\<forall>i < 8. \<not> row_prefix n i"
  shows "table_line_process buf p (p + length n) q tab = None"
proof -
  have "row_find buf p (p + length n) [0..<8] = Some None"
    using row_find_prefix [OF assms(1,2), of "[0..<8]"] assms(3) by (simp add: find_None_iff)
  then show ?thesis by (simp add: table_line_process_def)
qed

theorem key_table_unknown_witness:
  "table_line_process (bytes ''ctrl=lalt'') 0 4 9 [0, 1, 2, 3, 4, 5, 6, 7] = None"
proof -
  have "list_all (\<lambda>i. \<not> row_prefix (bytes ''ctrl'') i) [0..<8]" by code_simp
  then have "\<forall>i < 8. \<not> row_prefix (bytes ''ctrl'') i" by (simp only: list_all_iff set_upt) auto
  then show ?thesis
    using key_table_unknown [of "bytes ''ctrl=lalt''" 0 "bytes ''ctrl''" 9] by (simp add: numeral_eq_Suc)
qed

end
