(* ===== verification/Ini_Settings.thy ===== *)
theory Ini_Settings
  imports Ini_File
begin

text \<open>
  The settings of the firmware (ini_init of src/APP/inifile.c): every field of struct ini_top is
  read from profile.ini, the booleans with read_bool and the numbers with read_int. The fields
  are a map from section and key; a field of type bool is an unsigned char.
\<close>

section \<open>Model\<close>

type_synonym ini_name = "string \<times> string"

record ini_state =
  ini_vars :: "ini_name \<Rightarrow> int"
  ini_tmp :: "u8 list"

text \<open>The calls of ini_init in their order; the flag tells READ_INT from READ_BOOL.\<close>

definition ini_fields :: "(string \<times> string \<times> bool) list" where
  "ini_fields =
    [(''Debug'', ''ini'', False), (''Service'', ''audio'', False), (''Service'', ''key_remap'', False),
     (''Service'', ''ahk'', False), (''Service'', ''mouse_gesture'', False), (''Service'', ''first_mode'', True),
     (''Service'', ''lua_script'', False), (''Service'', ''ultrasonic'', False), (''Debug'', ''usb_init'', False),
     (''Debug'', ''audio'', False), (''Debug'', ''mouse'', False), (''Debug'', ''keyboard'', False),
     (''Debug'', ''nrf24l01'', False), (''Debug'', ''key_remap'', False), (''Debug'', ''ahk'', False),
     (''OLED'', ''orientation'', True), (''OLED'', ''orientation'', True)]"

text \<open>One call; junk gives the old content of the stack buffer of the call.\<close>

definition ini_field ::
  "(ini_name \<Rightarrow> u8 list) \<Rightarrow> u8 list option \<Rightarrow> string \<times> string \<times> bool \<Rightarrow> ini_state \<Rightarrow> ini_state option" where
  "ini_field junk file f s = (case f of (sec, key, num) \<Rightarrow>
     if num then do {
       (_, v) \<leftarrow> read_int (junk (sec, key)) file (ini_vars s (sec, key)) (bytes sec) (bytes key);
       Some (s\<lparr>ini_vars := (ini_vars s)((sec, key) := v)\<rparr>) }
     else do {
       (_, v, t) \<leftarrow> read_bool (junk (sec, key)) file (ini_vars s (sec, key)) (bytes sec) (bytes key) (ini_tmp s);
       Some (s\<lparr>ini_vars := (ini_vars s)((sec, key) := v), ini_tmp := t\<rparr>) })"

definition ini_init :: "(ini_name \<Rightarrow> u8 list) \<Rightarrow> u8 list option \<Rightarrow> ini_state \<Rightarrow> ini_state option" where
  "ini_init junk file s =
     forM ini_fields (ini_field junk file) (s\<lparr>ini_vars := (ini_vars s)((''Debug'', ''ini'') := 1)\<rparr>)"

section \<open>The values of the settings\<close>

text \<open>A value says a word when it starts with it, in whatever case.\<close>

definition says :: "string \<Rightarrow> u8 list \<Rightarrow> bool" where
  "says w v \<longleftrightarrow> map raise_char (take (length w) v) = bytes w"

definition bool_of :: "u8 list \<Rightarrow> nat" where
  "bool_of v = (if says ''FALSE'' v then 0 else if says ''TRUE'' v then 1 else 2)"

lemma strcmp_eq_same_length:
  "length w = length t \<Longrightarrow> 0 \<notin> set w \<Longrightarrow> strcmp_eq (w @ 0 # x) (t @ 0 # y) = Some (w = t)"
  by (induction w t rule: list_induct2) auto

lemma judge_bool_spec:
  assumes "5 \<le> length s"
  shows "judge_bool s = Some (bool_of s)"
proof -
  let ?t = "map raise_char (take 5 s)"
  have len: "length ?t = 5" using assms by simp
  have "forM [0..<5] (\<lambda>i t. do { c \<leftarrow> rd s i; wr t i (raise_char c) }) (replicate 6 0)
      = forM [0..<length ?t] (\<lambda>i b. wr b (0 + i) (?t ! i)) (replicate 6 0)"
    unfolding len by (rule forM_cong) (use assms in auto)
  also have "\<dots> = Some (overlay (replicate 6 0) 0 ?t)" by (rule forM_fill) (simp add: len)
  also have "overlay (replicate 6 0) 0 ?t = ?t @ [0]" using len by (simp add: overlay_def)
  finally have loop: "forM [0..<5] (\<lambda>i t. do { c \<leftarrow> rd s i; wr t i (raise_char c) }) (replicate 6 0) = Some (?t @ [0])" .
  have w5: "wr (?t @ [0]) 5 0 = Some (?t @ [0])" using len by (simp add: wr_def list_update_append)
  have sp: "?t = take 4 ?t @ [?t ! 4]" using len take_Suc_conv_app_nth [of 4 ?t] by simp
  have w4: "wr (?t @ [0]) 4 0 = Some (take 4 ?t @ 0 # [0])"
  proof -
    have "(?t @ [0])[4 := 0] = take 4 ?t @ 0 # [0]"
      using len by (subst sp) (simp add: list_update_append del: sp)
    then show ?thesis using len by (simp add: wr_def)
  qed
  have f: "strcmp_eq (cstring ''FALSE'') (?t @ [0]) = Some (bytes ''FALSE'' = ?t)"
    unfolding cstring_def by (rule strcmp_eq_same_length) (use assms in simp_all)
  have t: "strcmp_eq (cstring ''TRUE'') (take 4 ?t @ 0 # [0]) = Some (bytes ''TRUE'' = take 4 ?t)"
    unfolding cstring_def by (rule strcmp_eq_same_length) (use assms in simp_all)
  have "says ''FALSE'' s \<longleftrightarrow> bytes ''FALSE'' = ?t" "says ''TRUE'' s \<longleftrightarrow> bytes ''TRUE'' = take 4 ?t"
  proof -
    have "length ''FALSE'' = 5" "length ''TRUE'' = 4" by simp_all
    then show "says ''FALSE'' s \<longleftrightarrow> bytes ''FALSE'' = ?t" "says ''TRUE'' s \<longleftrightarrow> bytes ''TRUE'' = take 4 ?t"
      by (simp_all only: says_def) (auto simp: take_map simp del: bytes_simps)
  qed
  then show ?thesis
    unfolding judge_bool_def loop using w5 w4 f t by (simp add: bool_of_def del: bytes_simps)
qed

text \<open>The terminator and the zeros behind a value do not matter.\<close>

lemma says_padded:
  assumes "0 \<notin> set (bytes w)" "length w \<le> n"
  shows "says w (take n v @ replicate m 0) \<longleftrightarrow> says w v"
proof (cases "length w \<le> length v")
  case True
  then show ?thesis using assms(2) by (simp add: says_def min_def)
next
  case False
  have z: "bytes w ! (length v) \<noteq> 0" using False assms(1) nth_mem [of "length v" "bytes w"] by fastforce
  have "\<not> says w v" using False by (auto simp: says_def dest!: arg_cong [where f = length])
  moreover have "\<not> says w (take n v @ replicate m 0)"
  proof
    assume a: "says w (take n v @ replicate m 0)"
    then have l: "length w - length v \<le> m" using False assms(2) by (auto simp: says_def dest!: arg_cong [where f = length])
    have "map raise_char (take (length w) (take n v @ replicate m 0)) ! length v = raise_char 0"
      using False assms(2) l by (simp add: nth_append)
    with a z show False by (simp add: says_def raise_char_def)
  qed
  ultimately show ?thesis by blast
qed

lemma bool_of_padded: "5 \<le> n \<Longrightarrow> bool_of (take n v @ replicate m 0) = bool_of v"
proof -
  assume "5 \<le> n"
  then have "says ''FALSE'' (take n v @ replicate m 0) = says ''FALSE'' v" "says ''TRUE'' (take n v @ replicate m 0) = says ''TRUE'' v"
    by (intro says_padded; simp)+
  then show ?thesis by (simp only: bool_of_def)
qed

section \<open>Reading the fields\<close>

text \<open>What the fields become, given the sections of the file.\<close>

definition setting :: "ini_section list \<Rightarrow> ini_name \<Rightarrow> int \<Rightarrow> int" where
  "setting ss f old = (case find_value (bytes (fst f)) (bytes (snd f)) ss of
     None \<Rightarrow> old | Some v \<Rightarrow> int (bool_of v))"

lemma read_bool_found:
  assumes "length bs < length buf0" "at (bs @ [0]) 0 (ini_text ss @ [0])" "\<forall>s \<in> set ss. section_ok s"
    and "0 \<notin> set key" "0 \<notin> set sec" "length tmp = BUF_SIZE" "find_value sec key ss = Some v"
  shows "\<exists>t. length t = BUF_SIZE \<and> read_bool buf0 (Some bs) var sec key tmp
    = Some (if bool_of v = 2 then -1 else 0, int (bool_of v), t)"
proof -
  let ?t = "take 255 v @ replicate (256 - min 255 (length v)) 0"
  have r: "ini_read_string buf0 (Some bs) sec key tmp = Some (0, ?t)"
    using read_profile_string_spec [OF assms(1-5), of BUF_SIZE tmp v] assms(6,7)
    by (simp add: ini_read_string_def BUF_SIZE_def)
  have "judge_bool ?t = Some (bool_of v)"
    using judge_bool_spec [of ?t] bool_of_padded [of 255 v] by simp
  then show ?thesis using r by (intro exI [of _ ?t]) (simp add: read_bool_def BUF_SIZE_def)
qed

lemma read_bool_missing:
  assumes "length bs < length buf0" "at (bs @ [0]) 0 (ini_text ss @ [0])" "\<forall>s \<in> set ss. section_ok s"
    and "0 \<notin> set key" "0 \<notin> set sec" "length tmp = BUF_SIZE" "find_value sec key ss = None"
  shows "\<exists>t. length t = BUF_SIZE \<and> read_bool buf0 (Some bs) var sec key tmp = Some (-1, var, t)"
proof -
  obtain t where t: "use_default (Some (bytes ''true'')) tmp BUF_SIZE = Some (0, t)" "length t = BUF_SIZE"
    using use_default_length assms(6) by (metis le_refl)
  then show ?thesis
    using read_profile_string_none [OF assms(1-5) assms(7), of tmp BUF_SIZE "Some (bytes ''true'')"]
    by (intro exI [of _ t]) (simp add: read_bool_def ini_read_string_def)
qed

lemma read_int_answer:
  assumes "length bs < length buf0" "at (bs @ [0]) 0 (ini_text ss @ [0])" "\<forall>s \<in> set ss. section_ok s"
    and "0 \<notin> set key" "0 \<notin> set sec"
  shows "\<exists>v. read_int buf0 (Some bs) var sec key = Some (v, v) \<and> (v = 0 \<or> v = -1) \<and>
    (find_value sec key ss = None \<longrightarrow> v = -1)"
proof (cases "find_value sec key ss")
  case None
  then show ?thesis using read_profile_string_none [OF assms None, of "replicate 32 0" 32 None]
    by (simp add: read_int_def ini_read_int_def read_profile_int_def use_default_def)
next
  case (Some v)
  then show ?thesis using read_profile_string_spec [OF assms, of 32 "replicate 32 0" v None]
    by (auto simp: read_int_def ini_read_int_def read_profile_int_def)
qed

lemma field_names: "\<forall>(sec, key, num) \<in> set ini_fields. 0 \<notin> set (bytes sec) \<and> 0 \<notin> set (bytes key)"
  by (simp add: ini_fields_def)

text \<open>The effect of one call on the fields.\<close>

definition field_ok :: "ini_section list \<Rightarrow> string \<times> string \<times> bool \<Rightarrow> (ini_name \<Rightarrow> int) \<Rightarrow> (ini_name \<Rightarrow> int) \<Rightarrow> bool" where
  "field_ok ss f vs vs' = (case f of (sec, key, num) \<Rightarrow>
     (\<forall>g. g \<noteq> (sec, key) \<longrightarrow> vs' g = vs g) \<and>
     (if num then vs' (sec, key) \<in> {0, -1} else vs' (sec, key) = setting ss (sec, key) (vs (sec, key))))"

lemma ini_field_spec:
  assumes "length bs < length (junk (sec, key))" "at (bs @ [0]) 0 (ini_text ss @ [0])" "\<forall>s \<in> set ss. section_ok s"
    and "0 \<notin> set (bytes key)" "0 \<notin> set (bytes sec)" "length (ini_tmp s) = BUF_SIZE"
  shows "\<exists>s'. ini_field junk (Some bs) (sec, key, num) s = Some s' \<and> length (ini_tmp s') = BUF_SIZE \<and>
    field_ok ss (sec, key, num) (ini_vars s) (ini_vars s')"
proof (cases num)
  case True
  then show ?thesis using read_int_answer [OF assms(1-5), of "ini_vars s (sec, key)"] assms(6)
    by (auto simp: ini_field_def field_ok_def)
next
  case False
  show ?thesis
  proof (cases "find_value (bytes sec) (bytes key) ss")
    case None
    then show ?thesis using False read_bool_missing [OF assms(1-6) None, of "ini_vars s (sec, key)"]
      by (auto simp: ini_field_def field_ok_def setting_def)
  next
    case (Some v)
    then show ?thesis using False read_bool_found [OF assms(1-6) Some, of "ini_vars s (sec, key)"]
      by (auto simp: ini_field_def field_ok_def setting_def)
  qed
qed

definition fields_read :: "ini_section list \<Rightarrow> (string \<times> string \<times> bool) list \<Rightarrow> (ini_name \<Rightarrow> int) \<Rightarrow> (ini_name \<Rightarrow> int) \<Rightarrow> bool" where
  "fields_read ss fs vs vs' \<longleftrightarrow> (\<forall>sec key.
     if (sec, key, True) \<in> set fs then vs' (sec, key) \<in> {0, -1}
     else if (sec, key, False) \<in> set fs then vs' (sec, key) = setting ss (sec, key) (vs (sec, key))
     else vs' (sec, key) = vs (sec, key))"

lemma setting_idem [simp]: "setting ss f (setting ss f x) = setting ss f x"
  by (simp add: setting_def split: option.split)

lemma fields_read_snoc:
  assumes "fields_read ss fs vs vs1" "field_ok ss f vs1 vs2" "\<forall>(sec, key, num) \<in> set (f # fs). (sec, key, \<not> num) \<notin> set (f # fs)"
  shows "fields_read ss (fs @ [f]) vs vs2"
proof -
  obtain sec key num where f: "f = (sec, key, num)" by (cases f)
  have other: "vs2 g = vs1 g" if "g \<noteq> (sec, key)" for g using assms(2) that by (cases g) (simp add: f field_ok_def)
  have "if (a, b, True) \<in> set (fs @ [f]) then vs2 (a, b) \<in> {0, -1}
     else if (a, b, False) \<in> set (fs @ [f]) then vs2 (a, b) = setting ss (a, b) (vs (a, b))
     else vs2 (a, b) = vs (a, b)" for a b
  proof -
    have mid: "if (a, b, True) \<in> set fs then vs1 (a, b) \<in> {0, -1}
      else if (a, b, False) \<in> set fs then vs1 (a, b) = setting ss (a, b) (vs (a, b))
      else vs1 (a, b) = vs (a, b)" using assms(1) unfolding fields_read_def by blast
    show ?thesis
    proof (cases "(a, b) = (sec, key)")
      case False
      then have m: "(a, b, n) \<in> set (fs @ [f]) \<longleftrightarrow> (a, b, n) \<in> set fs" for n by (auto simp: f)
      show ?thesis using mid unfolding m other [OF False] .
    next
      case True
      then show ?thesis using assms(2,3) mid by (cases num) (auto simp: f field_ok_def split: if_splits)
    qed
  qed
  then show ?thesis unfolding fields_read_def by blast
qed

lemma ini_fields_spec:
  assumes bs: "at (bs @ [0]) 0 (ini_text ss @ [0])" "\<forall>s \<in> set ss. section_ok s" "\<And>n. length bs < length (junk n)"
    and "\<forall>(sec, key, num) \<in> set fs. 0 \<notin> set (bytes sec) \<and> 0 \<notin> set (bytes key)"
    and "\<forall>(sec, key, num) \<in> set fs. (sec, key, \<not> num) \<notin> set fs"
    and s: "length (ini_tmp s) = BUF_SIZE"
  shows "\<exists>s'. forM fs (ini_field junk (Some bs)) s = Some s' \<and> length (ini_tmp s') = BUF_SIZE \<and>
    fields_read ss fs (ini_vars s) (ini_vars s')"
  using assms(4,5)
proof (induction fs rule: rev_induct)
  case Nil
  then show ?case using s by (simp add: fields_read_def)
next
  case (snoc f fs)
  obtain sec key num where f: "f = (sec, key, num)" by (cases f)
  obtain s1 where s1: "forM fs (ini_field junk (Some bs)) s = Some s1" "length (ini_tmp s1) = BUF_SIZE"
    "fields_read ss fs (ini_vars s) (ini_vars s1)"
    using snoc.IH snoc.prems by fastforce
  obtain s2 where s2: "ini_field junk (Some bs) f s1 = Some s2" "length (ini_tmp s2) = BUF_SIZE"
    "field_ok ss f (ini_vars s1) (ini_vars s2)"
    using ini_field_spec [where junk = junk and key = key and sec = sec and s = s1 and num = num, OF bs(3) bs(1,2)] snoc.prems(1) s1(2) f by auto
  have "fields_read ss (fs @ [f]) (ini_vars s) (ini_vars s2)"
    using fields_read_snoc [OF s1(3) s2(3)] snoc.prems(2) by fastforce
  then show ?case using s1(1) s2(1,2) by (simp add: forM_append)
qed

lemma fields_consistent: "\<forall>(sec, key, num) \<in> set ini_fields. (sec, key, \<not> num) \<notin> set ini_fields"
  by (simp add: ini_fields_def)

section \<open>Properties\<close>


definition demo_settings :: "ini_section list" where
  "demo_settings = [(bytes ''Debug'', [Pair (bytes ''ini'') (bytes ''no'')]),
     (bytes ''Service'', [Pair (bytes ''ahk'') (bytes ''True''), Pair (bytes ''first_mode'') (bytes ''3'')])]"


text \<open>
  Property C10 (ini_write_read): changing a setting. Replacing the value of a key that exists by one
  that is not longer succeeds, and every later read of any setting of the file is answered as if
  the file text had been written with the new value; the new value itself is read back.
\<close>

theorem ini_write_read:
  assumes "length (ini_text ss) < MAX_FILE_SIZE" "\<forall>s \<in> set ss. section_ok s"
    and "\<forall>c \<in> set new. c \<noteq> 0 \<and> \<not> newline c" "0 \<notin> set key" "0 \<notin> set sec"
    and "find_value sec key ss = Some v" "length new \<le> length v"
    and "length junk = MAX_FILE_SIZE" "length new < sz" "sz \<le> length val"
  shows "\<exists>f. write_profile_string (Some (ini_text ss)) True True sec key new = Some (1, Some f) \<and>
    length f = length (ini_text ss) \<and>
    read_profile_string junk (Some f) sec key val sz deflt = Some (1, new @ replicate (sz - length new) 0 @ drop sz val)"
proof -
  let ?ss = "set_value sec key new ss" and ?n = "length (ini_text ss)"
  obtain pre post where t: "ini_text ss = pre @ v @ post" "ini_text ?ss = pre @ new @ post"
    "find_value sec key ?ss = Some new" using set_value_text [OF assms(6)] by blast
  let ?f = "take ?n (ini_text ?ss @ replicate MAX_FILE_SIZE 0)"
  have w: "write_profile_string (Some (ini_text ss)) True True sec key new = Some (1, Some ?f)"
    using write_profile_string_found [OF assms(1,2,4,5,6), of new] assms(1,7) by simp
  have le: "length (ini_text ?ss) \<le> ?n" using t assms(7) by simp
  then have f: "?f = ini_text ?ss @ replicate (?n - length (ini_text ?ss)) 0" using assms(1) by simp
  have l: "length ?f = ?n" using assms(1) by simp
  have "?f @ [0] = (ini_text ?ss @ [0]) @ replicate (?n - length (ini_text ?ss)) 0"
    unfolding f by (simp add: replicate_append_same)
  then have "at (?f @ [0]) 0 (ini_text ?ss @ [0])" using at_extend [OF at_self] by metis
  then have "read_profile_string junk (Some ?f) sec key val sz deflt
      = Some (1, take (sz - 1) new @ replicate (sz - min (sz - 1) (length new)) 0 @ drop sz val)"
    using assms(1,8,9) l by (intro read_profile_string_spec [OF _ _ set_value_ok [OF assms(2,3)] assms(4,5) _ assms(10) t(3)]) auto
  moreover have "take (sz - 1) new = new" "min (sz - 1) (length new) = length new" using assms(9) by auto
  ultimately show ?thesis using w l by auto
qed

theorem ini_write_read_witness:
  "\<exists>f. write_profile_string (Some (ini_text demo_settings)) True True (bytes ''Service'') (bytes ''ahk'') (bytes ''no'') = Some (1, Some f) \<and>
     read_profile_string (replicate 2048 7) (Some f) (bytes ''Service'') (bytes ''ahk'') (replicate 4 1) 4 None = Some (1, bytes ''no'' @ [0, 0])"
proof -
  have ok: "\<forall>s \<in> set demo_settings. section_ok s"
    by (simp add: demo_settings_def section_ok_def newline_def isspace_def)
  have len: "length (ini_text demo_settings) < MAX_FILE_SIZE"
    by (simp add: demo_settings_def ini_text_def section_text_def lines_text_def MAX_FILE_SIZE_def)
  have f: "find_value (bytes ''Service'') (bytes ''ahk'') demo_settings = Some (bytes ''True'')"
    by (simp add: demo_settings_def)
  have "\<forall>c \<in> set (bytes ''no''). c \<noteq> 0 \<and> \<not> newline c" "0 \<notin> set (bytes ''ahk'')" "0 \<notin> set (bytes ''Service'')"
    by (simp_all add: newline_def)
  from ini_write_read [OF len ok this f, of "replicate 2048 7" 4 "replicate 4 1" None]
  show ?thesis by (auto simp: MAX_FILE_SIZE_def eval_nat_numeral)
qed

text \<open>
  Adding a setting to a section the file does not have. The call
  reports success, but the number of bytes written is the old size of the file, so the file is
  unchanged: the new section and its setting are lost.
\<close>

theorem ini_new_section_lost:
  assumes "\<forall>s \<in> set ss. section_ok s" "0 \<notin> set key" "0 \<notin> set sec" "\<forall>s \<in> set ss. \<not> prefix (fst s) sec"
    and "length (ini_text ss) + length sec + length key + length new + 8 \<le> MAX_FILE_SIZE"
  shows "write_profile_string (Some (ini_text ss)) True True sec key new = Some (1, Some (ini_text ss))"
proof -
  let ?n = "length (ini_text ss)" and ?M = "MAX_FILE_SIZE"
  let ?buf = "ini_text ss @ 0 # drop (Suc ?n) (replicate ?M 0)"
  have "at ?buf 0 (ini_text ss @ [0])" using at_self [of ?buf] at_append [of ?buf 0 "ini_text ss @ [0]"] by simp
  moreover have "find_value sec key ss = None" using assms(4) by (induction ss) auto
  ultimately obtain pos where pos: "parse_file sec key ?buf = Some (0, pos)" "sec_s pos = -1"
    using parse_file_spec [OF assms(2,3,1)] assms(4) by fastforce
  have ld: "load_ini_file (Some (ini_text ss)) (replicate ?M 0) = Some (1, ?buf, ?n)"
    using load_ini_file_some [of "ini_text ss" "replicate ?M 0"] assms(5) by simp
  have w1: "memcpy_at (replicate ?M 0) 0 (ini_text ss) = Some (ini_text ss @ drop ?n (replicate ?M 0))"
    using assms(5) by (simp add: memcpy_at_def overlay_def)
  have "\<exists>w. new_content ?buf ?n pos sec key new = Some w \<and> take ?n w = ini_text ss"
  proof (cases "?n = 0")
    case True
    then show ?thesis using pos(2) assms(5)
      by (simp add: new_content_def put_text_def memcpy_at_def)
  next
    case False
    then show ?thesis using pos(2) assms(5) w1
      by (simp add: new_content_def put_text_def memcpy_at_def overlay_def)
  qed
  then show ?thesis using ld pos(1) by (auto simp: write_profile_string_def)
qed

theorem ini_new_section_lost_witness:
  "write_profile_string (Some (ini_text demo_settings)) True True (bytes ''OLED'') (bytes ''orientation'') (bytes ''1'')
    = Some (1, Some (ini_text demo_settings))"
  by (rule ini_new_section_lost)
    (simp_all add: demo_settings_def section_ok_def newline_def isspace_def ini_text_def section_text_def lines_text_def MAX_FILE_SIZE_def)

end
