(* ===== verification/Rt_Mutex.thy ===== *)
theory Rt_Mutex
  imports Rt_Semaphore
begin

text \<open>
  Mutexes of the kernel (src/src/ipc.c): a mutex may be taken again by its owner, and a waiting
  thread of higher priority lends its priority to the owner. prio holds the current priorities of
  all threads; a smaller number is a higher priority.
\<close>

section \<open>Operations\<close>

record rt_mutex =
  m_value :: u16
  m_owner :: "tid option"
  original_priority :: u8
  m_hold :: u8
  m_flag :: ipc_flag
  m_waiting :: "tid list"

definition rt_mutex_init :: "ipc_flag \<Rightarrow> rt_mutex" where
  "rt_mutex_init flag = \<lparr>m_value = 1, m_owner = None, original_priority = 0xFF, m_hold = 0, m_flag = flag, m_waiting = []\<rparr>"

definition rt_mutex_create :: "ipc_flag \<Rightarrow> rt_mutex" where
  "rt_mutex_create flag = \<lparr>m_value = 1, m_owner = None, original_priority = 0xFF, m_hold = 0, m_flag = flag, m_waiting = []\<rparr>"

definition rt_mutex_detach :: "rt_mutex \<Rightarrow> tid list" where
  "rt_mutex_detach m = fst (rt_ipc_list_resume_all (m_waiting m))"

definition rt_mutex_delete :: "rt_mutex \<Rightarrow> tid list" where
  "rt_mutex_delete m = fst (rt_ipc_list_resume_all (m_waiting m))"

text \<open>rt_mutex_take by thread t; a waiting call reads the owner's priority, None when there is no owner.\<close>

definition rt_mutex_take :: "rt_mutex \<Rightarrow> (tid \<Rightarrow> u8) \<Rightarrow> tid \<Rightarrow> int \<Rightarrow> (take_res \<times> rt_mutex \<times> (tid \<Rightarrow> u8)) option" where
  "rt_mutex_take m prio t time =
     (if m_owner m = Some t then Some (Taken, m\<lparr>m_hold := m_hold m + 1\<rparr>, prio)
      else if 0 < m_value m then
        Some (Taken, m\<lparr>m_value := m_value m - 1, m_owner := Some t, original_priority := prio t, m_hold := m_hold m + 1\<rparr>, prio)
      else if time = 0 then Some (TimedOut, m, prio)
      else (case m_owner m of None \<Rightarrow> None
        | Some w \<Rightarrow>
            let prio1 = (if prio t < prio w then prio(w := prio t) else prio) in
            Some (Waits, m\<lparr>m_waiting := rt_ipc_list_suspend prio1 (m_flag m) (m_waiting m) t\<rparr>, prio1)))"

text \<open>rt_mutex_release by thread t: whether it succeeds, the thread that becomes the owner, and the state.\<close>

definition rt_mutex_release :: "rt_mutex \<Rightarrow> (tid \<Rightarrow> u8) \<Rightarrow> tid \<Rightarrow> bool \<times> tid option \<times> rt_mutex \<times> (tid \<Rightarrow> u8)" where
  "rt_mutex_release m prio t =
     (if m_owner m \<noteq> Some t then (False, None, m, prio)
      else let h = m_hold m - 1 in
        if h = 0 then
          let prio1 = (if original_priority m \<noteq> prio t then prio(t := original_priority m) else prio) in
          (case m_waiting m of
             w # ws \<Rightarrow> (True, Some w, m\<lparr>m_owner := Some w, original_priority := prio1 w, m_hold := h + 1, m_waiting := ws\<rparr>, prio1)
           | [] \<Rightarrow> (True, None, m\<lparr>m_hold := h, m_value := m_value m + 1, m_owner := None, original_priority := 0xFF\<rparr>, prio1))
        else (True, None, m\<lparr>m_hold := h\<rparr>, prio))"

definition rt_mutex_control :: "rt_mutex \<Rightarrow> u8 \<Rightarrow> bool" where
  "rt_mutex_control m cmd = False"

section \<open>Threads on one mutex\<close>

text \<open>depth counts, per thread, the takes that have succeeded and are not released.\<close>

record mutex_sys =
  mtx :: rt_mutex
  prio :: "tid \<Rightarrow> u8"
  depth :: "tid \<Rightarrow> nat"

definition grant :: "tid option \<Rightarrow> (tid \<Rightarrow> nat) \<Rightarrow> tid \<Rightarrow> nat" where
  "grant w d = (case w of None \<Rightarrow> d | Some t \<Rightarrow> d(t := d t + 1))"

text \<open>
  The steps of running threads; hold is kept in eight bits without a check, so a thread may nest
  the mutex at most 255 times. The timer of a waiting thread takes it out of the list.
\<close>

inductive mutex_step :: "mutex_sys \<Rightarrow> mutex_sys \<Rightarrow> bool" where
  take_succeeds: "t \<notin> set (m_waiting (mtx s)) \<Longrightarrow> depth s t < 255 \<Longrightarrow>
    rt_mutex_take (mtx s) (prio s) t time = Some (Taken, m, p) \<Longrightarrow>
    mutex_step s \<lparr>mtx = m, prio = p, depth = (depth s)(t := depth s t + 1)\<rparr>"
| take_fails: "t \<notin> set (m_waiting (mtx s)) \<Longrightarrow> rt_mutex_take (mtx s) (prio s) t time = Some (TimedOut, m, p) \<Longrightarrow>
    mutex_step s \<lparr>mtx = m, prio = p, depth = depth s\<rparr>"
| take_waits: "t \<notin> set (m_waiting (mtx s)) \<Longrightarrow> rt_mutex_take (mtx s) (prio s) t time = Some (Waits, m, p) \<Longrightarrow>
    mutex_step s \<lparr>mtx = m, prio = p, depth = depth s\<rparr>"
| release: "t \<notin> set (m_waiting (mtx s)) \<Longrightarrow> rt_mutex_release (mtx s) (prio s) t = (True, w, m, p) \<Longrightarrow>
    mutex_step s \<lparr>mtx = m, prio = p, depth = grant w ((depth s)(t := depth s t - 1))\<rparr>"
| release_fails: "t \<notin> set (m_waiting (mtx s)) \<Longrightarrow> rt_mutex_release (mtx s) (prio s) t = (False, w, m, p) \<Longrightarrow>
    mutex_step s \<lparr>mtx = m, prio = p, depth = depth s\<rparr>"
| timer: "t \<in> set (m_waiting (mtx s)) \<Longrightarrow>
    mutex_step s (s\<lparr>mtx := (mtx s)\<lparr>m_waiting := remove1 t (m_waiting (mtx s))\<rparr>\<rparr>)"

inductive_cases mutex_stepE: "mutex_step s s'"

definition mutex_start :: "ipc_flag \<Rightarrow> (tid \<Rightarrow> u8) \<Rightarrow> mutex_sys" where
  "mutex_start flag base = \<lparr>mtx = rt_mutex_create flag, prio = base, depth = (\<lambda>_. 0)\<rparr>"

section \<open>The invariant\<close>

definition mutex_inv :: "(tid \<Rightarrow> u8) \<Rightarrow> mutex_sys \<Rightarrow> bool" where
  "mutex_inv base s \<longleftrightarrow> (case m_owner (mtx s) of
     None \<Rightarrow> m_value (mtx s) = 1 \<and> m_hold (mtx s) = 0 \<and> m_waiting (mtx s) = [] \<and> depth s = (\<lambda>_. 0) \<and> prio s = base
   | Some w \<Rightarrow> m_value (mtx s) = 0 \<and> unat (m_hold (mtx s)) = depth s w \<and> 0 < depth s w \<and>
       (\<forall>t. t \<noteq> w \<longrightarrow> depth s t = 0 \<and> prio s t = base t) \<and>
       w \<notin> set (m_waiting (mtx s)) \<and> distinct (m_waiting (mtx s)) \<and> original_priority (mtx s) = base w \<and>
       (m_flag (mtx s) = RT_IPC_FLAG_PRIO \<longrightarrow> sorted (map base (m_waiting (mtx s))) \<and>
          (\<forall>t \<in> set (m_waiting (mtx s)). prio s w \<le> base t)))"

lemma mutex_start_inv: "mutex_inv base (mutex_start flag base)"
  by (simp add: mutex_inv_def mutex_start_def rt_mutex_create_def)

lemma unat_inc8: "unat (x :: u8) < 255 \<Longrightarrow> unat (x + 1) = unat x + 1"
  using unat_add_lem [of x 1] by simp

lemma unat_dec8: "0 < unat (x :: u8) \<Longrightarrow> unat (x - 1) = unat x - 1"
  by (simp add: unat_sub word_le_nat_alt)

lemma suspend_cong:
  "(\<And>u. u \<in> insert t (set ts) \<Longrightarrow> p u = q u) \<Longrightarrow> rt_ipc_list_suspend p flag ts t = rt_ipc_list_suspend q flag ts t"
proof -
  assume a: "\<And>u. u \<in> insert t (set ts) \<Longrightarrow> p u = q u"
  then have "prio_insert p t ts = prio_insert q t ts" by (induction ts) auto
  then show ?thesis by (simp add: rt_ipc_list_suspend_def split: ipc_flag.split)
qed

lemma owned:
  assumes "mutex_inv base s" "m_owner (mtx s) = Some w"
  shows "m_value (mtx s) = 0" "unat (m_hold (mtx s)) = depth s w" "0 < depth s w" "\<And>t. t \<noteq> w \<Longrightarrow> depth s t = 0"
    "\<And>t. t \<noteq> w \<Longrightarrow> prio s t = base t" "w \<notin> set (m_waiting (mtx s))" "distinct (m_waiting (mtx s))" "original_priority (mtx s) = base w"
    "m_flag (mtx s) = RT_IPC_FLAG_PRIO \<Longrightarrow> sorted (map base (m_waiting (mtx s)))"
    "\<And>t. m_flag (mtx s) = RT_IPC_FLAG_PRIO \<Longrightarrow> t \<in> set (m_waiting (mtx s)) \<Longrightarrow> prio s w \<le> base t"
  using assms by (auto simp: mutex_inv_def)

lemma free:
  assumes "mutex_inv base s" "m_owner (mtx s) = None"
  shows "m_value (mtx s) = 1" "m_hold (mtx s) = 0" "m_waiting (mtx s) = []" "depth s = (\<lambda>_. 0)" "prio s = base"
  using assms by (auto simp: mutex_inv_def)

lemma take_succeeds_inv:
  assumes "mutex_inv base s" "depth s t < 255" "rt_mutex_take (mtx s) (prio s) t time = Some (Taken, m, p)"
  shows "mutex_inv base \<lparr>mtx = m, prio = p, depth = (depth s)(t := depth s t + 1)\<rparr>"
proof (cases "m_owner (mtx s)")
  case None
  note f = free [OF assms(1) None]
  show ?thesis using assms(3) None f by (auto simp: rt_mutex_take_def mutex_inv_def)
next
  case (Some w)
  note wd = owned [OF assms(1) Some]
  show ?thesis
  proof (cases "w = t")
    case True
    then have "unat (m_hold (mtx s) + 1) = depth s t + 1" using wd(2) assms(2) by (simp add: unat_inc8)
    then show ?thesis using assms(3) Some True wd by (auto simp: rt_mutex_take_def mutex_inv_def)
  next
    case False
    then show ?thesis using assms(3) Some wd(1) by (auto simp: rt_mutex_take_def Let_def split: if_splits)
  qed
qed

lemma take_waits_inv:
  assumes "mutex_inv base s" "t \<notin> set (m_waiting (mtx s))" "rt_mutex_take (mtx s) (prio s) t time = Some (Waits, m, p)"
  shows "mutex_inv base \<lparr>mtx = m, prio = p, depth = depth s\<rparr>"
proof -
  obtain w where w: "m_owner (mtx s) = Some w" "w \<noteq> t"
    using assms(3) by (auto simp: rt_mutex_take_def Let_def split: if_splits option.splits)
  note wd = owned [OF assms(1) w(1)]
  let ?p = "if prio s t < prio s w then (prio s)(w := prio s t) else prio s"
  have m: "m = (mtx s)\<lparr>m_waiting := rt_ipc_list_suspend base (m_flag (mtx s)) (m_waiting (mtx s)) t\<rparr>" "p = ?p"
  proof -
    have "rt_ipc_list_suspend ?p (m_flag (mtx s)) (m_waiting (mtx s)) t = rt_ipc_list_suspend base (m_flag (mtx s)) (m_waiting (mtx s)) t"
      using wd(5,6) w(2) by (intro suspend_cong) auto
    then show "m = (mtx s)\<lparr>m_waiting := rt_ipc_list_suspend base (m_flag (mtx s)) (m_waiting (mtx s)) t\<rparr>" "p = ?p"
      using assms(3) w wd(1) by (auto simp: rt_mutex_take_def Let_def split: if_splits)
  qed
  have pw: "?p w \<le> prio s w" "?p w \<le> base t" "\<And>u. u \<noteq> w \<Longrightarrow> ?p u = base u" using wd(5) w(2) by auto
  have "m_flag (mtx s) = RT_IPC_FLAG_PRIO \<Longrightarrow> sorted (map base (rt_ipc_list_suspend base (m_flag (mtx s)) (m_waiting (mtx s)) t))"
    using wd(9) suspend_sorted by metis
  moreover have "m_flag (mtx s) = RT_IPC_FLAG_PRIO \<Longrightarrow> u \<in> insert t (set (m_waiting (mtx s))) \<Longrightarrow> ?p w \<le> base u" for u
    using wd(10) [of u] pw(1,2) by (auto intro: order_trans)
  ultimately show ?thesis unfolding mutex_inv_def m(2) using w wd assms(2) pw(3) by (simp add: m(1))
qed

lemma release_inv:
  assumes "mutex_inv base s" "rt_mutex_release (mtx s) (prio s) t = (True, w, m, p)"
  shows "mutex_inv base \<lparr>mtx = m, prio = p, depth = grant w ((depth s)(t := depth s t - 1))\<rparr>"
proof -
  have own: "m_owner (mtx s) = Some t" using assms(2) by (auto simp: rt_mutex_release_def split: if_splits)
  note wd = owned [OF assms(1) own]
  have h: "unat (m_hold (mtx s) - 1) = depth s t - 1" using wd(2,3) by (simp add: unat_dec8)
  show ?thesis
  proof (cases "m_hold (mtx s) - 1 = 0")
    case False
    then have r: "w = None" "m = (mtx s)\<lparr>m_hold := m_hold (mtx s) - 1\<rparr>" "p = prio s"
      using assms(2) own by (auto simp: rt_mutex_release_def Let_def)
    have "0 < depth s t - 1" using False h by (metis unat_gt_0)
    then show ?thesis using own wd h unfolding r by (simp add: mutex_inv_def grant_def)
  next
    case True
    let ?p = "if original_priority (mtx s) \<noteq> prio s t then (prio s)(t := original_priority (mtx s)) else prio s"
    have pb: "?p = base" using wd(5,8) by (intro ext) auto
    have d: "depth s t = 1" using True h wd(3) by simp
    then have d0: "(depth s)(t := depth s t - 1) = (\<lambda>_. 0)" using wd(4) by (intro ext) auto
    show ?thesis
    proof (cases "m_waiting (mtx s)")
      case Nil
      then have r: "w = None" "p = base"
        "m = (mtx s)\<lparr>m_hold := 0, m_value := m_value (mtx s) + 1, m_owner := None, original_priority := 0xFF\<rparr>"
        using assms(2) own True pb by (auto simp: rt_mutex_release_def Let_def)
      show ?thesis using wd(1) Nil unfolding d0 r by (simp add: mutex_inv_def grant_def)
    next
      case (Cons u us)
      then have r: "w = Some u" "p = base"
        "m = (mtx s)\<lparr>m_owner := Some u, original_priority := base u, m_hold := 1, m_waiting := us\<rparr>"
        using assms(2) own True pb by (auto simp: rt_mutex_release_def Let_def)
      show ?thesis using wd(1,7,9) Cons unfolding d0 r by (auto simp: mutex_inv_def grant_def)
    qed
  qed
qed

lemma timer_inv:
  assumes "mutex_inv base s"
  shows "mutex_inv base (s\<lparr>mtx := (mtx s)\<lparr>m_waiting := remove1 t (m_waiting (mtx s))\<rparr>\<rparr>)"
proof (cases "m_owner (mtx s)")
  case None
  then show ?thesis using assms by (simp add: mutex_inv_def)
next
  case (Some w)
  note wd = owned [OF assms Some]
  have sub: "set (remove1 t (m_waiting (mtx s))) \<subseteq> set (m_waiting (mtx s))" by (rule set_remove1_subset)
  have "m_flag (mtx s) = RT_IPC_FLAG_PRIO \<Longrightarrow> sorted (map base (remove1 t (m_waiting (mtx s))))"
    using wd(9) by (simp add: sorted_map_remove1)
  moreover have "w \<notin> set (remove1 t (m_waiting (mtx s)))" using wd(6) sub by blast
  moreover have "m_flag (mtx s) = RT_IPC_FLAG_PRIO \<Longrightarrow> u \<in> set (remove1 t (m_waiting (mtx s))) \<Longrightarrow> prio s w \<le> base u" for u
    using wd(10) sub by blast
  ultimately show ?thesis using Some wd by (simp add: mutex_inv_def)
qed

lemma mutex_step_inv:
  assumes "mutex_step s s'" "mutex_inv base s"
  shows "mutex_inv base s'"
  using assms(1)
proof (cases rule: mutex_step.cases)
  case (take_succeeds t time m p)
  then show ?thesis using take_succeeds_inv [OF assms(2)] by blast
next
  case (take_fails t time m p)
  then have "m = mtx s" "p = prio s" by (auto simp: rt_mutex_take_def Let_def split: if_splits option.splits)
  then show ?thesis using take_fails(1) assms(2) by (cases s) simp
next
  case (take_waits t time m p)
  then show ?thesis using take_waits_inv [OF assms(2)] by blast
next
  case (release t w m p)
  then show ?thesis using release_inv [OF assms(2)] by blast
next
  case (release_fails t w m p)
  then have "m = mtx s" "p = prio s" by (auto simp: rt_mutex_release_def Let_def split: if_splits list.splits)
  then show ?thesis using release_fails(1) assms(2) by (cases s) simp
next
  case (timer t)
  then show ?thesis using timer_inv [OF assms(2)] by blast
qed

lemma mutex_reachable_inv: "mutex_step\<^sup>*\<^sup>* (mutex_start flag base) s \<Longrightarrow> mutex_inv base s"
  by (induction rule: rtranclp_induct) (auto intro: mutex_start_inv mutex_step_inv)

lemma mutex_step_flag: "mutex_step s s' \<Longrightarrow> m_flag (mtx s') = m_flag (mtx s)"
  by (cases rule: mutex_step.cases)
    (auto simp: rt_mutex_take_def rt_mutex_release_def Let_def split: if_splits option.splits list.splits)

lemma mutex_reachable_flag: "mutex_step\<^sup>*\<^sup>* (mutex_start flag base) s \<Longrightarrow> m_flag (mtx s) = flag"
  by (induction rule: rtranclp_induct) (auto dest: mutex_step_flag simp: mutex_start_def rt_mutex_create_def)

section \<open>Properties\<close>

text \<open>
  Property C35 (mutex_exclusion): mutual exclusion. However threads take, wait, time out and release,
  at most one thread holds the mutex; it is the recorded owner and its nesting depth is the hold
  count; and whenever no thread holds the mutex every thread is back at its own priority.
\<close>

theorem mutex_exclusion:
  assumes "mutex_step\<^sup>*\<^sup>* (mutex_start flag base) s"
  shows "(\<forall>t. 0 < depth s t \<longrightarrow> m_owner (mtx s) = Some t \<and> unat (m_hold (mtx s)) = depth s t) \<and>
    ((\<forall>t. depth s t = 0) \<longrightarrow> prio s = base \<and> m_waiting (mtx s) = [])"
proof -
  have inv: "mutex_inv base s" using mutex_reachable_inv [OF assms] .
  show ?thesis
  proof (cases "m_owner (mtx s)")
    case None
    then show ?thesis using free [OF inv None] by simp
  next
    case (Some w)
    note wd = owned [OF inv Some]
    have "t = w" if "0 < depth s t" for t using wd(4) [of t] that by (cases "t = w") simp_all
    moreover have "\<not> (\<forall>t. depth s t = 0)" using wd(3) by (metis less_irrefl)
    ultimately show ?thesis using Some wd(2) by blast
  qed
qed

text \<open>
  Property C36 (mutex_inheritance): priority inheritance. On a mutex that queues its waiters by
  priority, the owner always runs at least at the priority of every waiting thread, also after the
  mutex has been handed over, and the waiters are queued in the order of their priorities.
\<close>

theorem mutex_inheritance:
  assumes "mutex_step\<^sup>*\<^sup>* (mutex_start RT_IPC_FLAG_PRIO base) s" "m_owner (mtx s) = Some w" "t \<in> set (m_waiting (mtx s))"
  shows "prio s w \<le> prio s t \<and> sorted (map (prio s) (m_waiting (mtx s)))"
proof -
  note wd = owned [OF mutex_reachable_inv [OF assms(1)] assms(2)]
  have fl: "m_flag (mtx s) = RT_IPC_FLAG_PRIO" by (rule mutex_reachable_flag [OF assms(1)])
  have eq: "prio s u = base u" if "u \<in> set (m_waiting (mtx s))" for u using wd(5,6) that by metis
  have "map (prio s) (m_waiting (mtx s)) = map base (m_waiting (mtx s))" by (rule map_cong [OF refl eq])
  then show ?thesis using wd(9) [OF fl] wd(10) [OF fl assms(3)] eq [OF assms(3)] by metis
qed

text \<open>Three threads of the priorities 5, 4 and 3 want the mutex in this order.\<close>

definition demo_prio :: "tid \<Rightarrow> u8" where
  "demo_prio t = (if t = 0 then 5 else if t = 1 then 4 else 3)"

definition demo_run :: "ipc_flag \<Rightarrow> mutex_sys" where
  "demo_run flag = \<lparr>mtx = \<lparr>m_value = 0, m_owner = Some 0, original_priority = 5, m_hold = 1, m_flag = flag,
     m_waiting = (if flag = RT_IPC_FLAG_FIFO then [1, 2] else [2, 1])\<rparr>, prio = demo_prio(0 := 3), depth = (\<lambda>_. 0)(0 := 1)\<rparr>"

lemma demo_run_reached: "mutex_step\<^sup>*\<^sup>* (mutex_start flag demo_prio) (demo_run flag)"
proof -
  let ?m = "\<lambda>ws. \<lparr>m_value = 0, m_owner = Some 0, original_priority = 5, m_hold = 1, m_flag = flag, m_waiting = ws\<rparr> :: rt_mutex"
  let ?d = "(\<lambda>_. 0)(0 := 1) :: tid \<Rightarrow> nat"
  let ?s1 = "\<lparr>mtx = ?m [], prio = demo_prio, depth = ?d\<rparr>" and ?s2 = "\<lparr>mtx = ?m [1], prio = demo_prio(0 := 4), depth = ?d\<rparr>"
  have "mutex_step (mutex_start flag demo_prio)
      \<lparr>mtx = ?m [], prio = demo_prio, depth = (depth (mutex_start flag demo_prio))(0 := depth (mutex_start flag demo_prio) 0 + 1)\<rparr>"
    by (rule mutex_step.take_succeeds [where time = "-1"])
      (simp_all add: mutex_start_def rt_mutex_create_def rt_mutex_take_def demo_prio_def)
  then have 1: "mutex_step (mutex_start flag demo_prio) ?s1" by (simp add: mutex_start_def)
  have "mutex_step ?s1 \<lparr>mtx = ?m [1], prio = demo_prio(0 := 4), depth = depth ?s1\<rparr>"
    by (rule mutex_step.take_waits [where t = 1 and time = "-1"])
      (cases flag; simp add: rt_mutex_take_def demo_prio_def rt_ipc_list_suspend_def)+
  then have 2: "mutex_step ?s1 ?s2" by simp
  have "mutex_step ?s2 \<lparr>mtx = mtx (demo_run flag), prio = prio (demo_run flag), depth = depth ?s2\<rparr>"
    by (rule mutex_step.take_waits [where t = 2 and time = "-1"])
      (cases flag; simp add: rt_mutex_take_def demo_prio_def rt_ipc_list_suspend_def demo_run_def)+
  then have 3: "mutex_step ?s2 (demo_run flag)" by (simp add: demo_run_def)
  from 1 2 3 show ?thesis by (meson converse_rtranclp_into_rtranclp rtranclp.rtrancl_refl)
qed

theorem mutex_exclusion_witness:
  "m_owner (mtx (demo_run RT_IPC_FLAG_FIFO)) = Some 0 \<and> unat (m_hold (mtx (demo_run RT_IPC_FLAG_FIFO))) = 1"
  using mutex_exclusion [OF demo_run_reached [of RT_IPC_FLAG_FIFO]] by (simp add: demo_run_def)

theorem mutex_inheritance_witness:
  "prio (demo_run RT_IPC_FLAG_PRIO) 0 \<le> prio (demo_run RT_IPC_FLAG_PRIO) 2"
  using mutex_inheritance [OF demo_run_reached [of RT_IPC_FLAG_PRIO], of 0 2] by (simp add: demo_run_def)

text \<open>
  No inheritance after a hand-over on a first-come mutex. The
  release gives the mutex to the first waiter without lending it the priority of the others: a run
  with three threads ends with a thread of priority 3 waiting for an owner that runs at priority 4.
\<close>

theorem mutex_fifo_inversion:
  "\<exists>base s w t. mutex_step\<^sup>*\<^sup>* (mutex_start RT_IPC_FLAG_FIFO base) s \<and> m_owner (mtx s) = Some w \<and>
     t \<in> set (m_waiting (mtx s)) \<and> prio s t < prio s w"
proof -
  let ?s = "\<lparr>mtx = \<lparr>m_value = 0, m_owner = Some 1, original_priority = 4, m_hold = 1, m_flag = RT_IPC_FLAG_FIFO, m_waiting = [2]\<rparr>,
    prio = demo_prio(0 := 5), depth = grant (Some 1) ((depth (demo_run RT_IPC_FLAG_FIFO))(0 := depth (demo_run RT_IPC_FLAG_FIFO) 0 - 1))\<rparr>"
  have "mutex_step (demo_run RT_IPC_FLAG_FIFO) ?s"
    by (rule mutex_step.release) (simp_all add: demo_run_def rt_mutex_release_def demo_prio_def)
  then have "mutex_step\<^sup>*\<^sup>* (mutex_start RT_IPC_FLAG_FIFO demo_prio) ?s"
    using demo_run_reached by (rule rtranclp.rtrancl_into_rtrancl [rotated])
  moreover have "m_owner (mtx ?s) = Some 1" "2 \<in> set (m_waiting (mtx ?s))" "prio ?s 2 < prio ?s 1" by (simp_all add: demo_prio_def)
  ultimately show ?thesis by blast
qed

end
