(* ===== verification/Commu_Send.thy ===== *)
theory Commu_Send
  imports Rt_Mailbox Rt_Mutex Link_Frame
begin

text \<open>
  The hand-over of packets to the sending thread of the main controller (src/MDK/commu.c):
  common_commu_send allocates a request, mails its address to rt_thread_entry_commu_send and waits
  on a mutex of its own before it frees the request. Addresses are words; the heap maps the
  addresses in use to requests, mutexes and byte buffers, and every access to an address that is
  not in use is None. rt_malloc and rt_mutex_create are given by the addresses they return.
\<close>

section \<open>State and operations\<close>

record commu_st =
  st_buf :: u32
  st_len :: u32
  st_type :: u8
  st_mutex :: u32

record send_sys =
  requests :: "u32 \<rightharpoonup> commu_st"
  mutexes :: "u32 \<rightharpoonup> rt_mutex"
  buffers :: "u32 \<rightharpoonup> u8 list"
  mb_commu_send :: rt_mailbox
  priorities :: "tid \<Rightarrow> u8"
  line :: "u8 list"

text \<open>
  common_commu_send up to rt_mb_send: req and mut are the addresses that rt_malloc and
  rt_mutex_create return; the answer of rt_mb_send is not looked at.
\<close>

definition commu_post :: "u32 \<Rightarrow> u32 \<Rightarrow> u32 \<Rightarrow> u32 \<Rightarrow> u8 \<Rightarrow> send_sys \<Rightarrow> send_sys option" where
  "commu_post req mut buf len ty s = do {
     _ \<leftarrow> (if req = 0 then None else Some ());
     let s1 = s\<lparr>mutexes := (mutexes s)(mut \<mapsto> rt_mutex_create RT_IPC_FLAG_FIFO),
       requests := (requests s)(req \<mapsto> \<lparr>st_buf = buf, st_len = len, st_type = ty, st_mutex = mut\<rparr>)\<rparr>;
     (_, mb) \<leftarrow> rt_mb_send (mb_commu_send s1) req;
     Some (s1\<lparr>mb_commu_send := mb\<rparr>)
   }"

text \<open>
  The rest of it, run by the thread self: the take either suspends the caller, and then nothing is
  freed yet, or the request is freed and the mutex deleted.
\<close>

definition commu_wait :: "u32 \<Rightarrow> u32 \<Rightarrow> tid \<Rightarrow> send_sys \<Rightarrow> (take_res \<times> send_sys) option" where
  "commu_wait req mut self s = do {
     m \<leftarrow> mutexes s mut;
     (r, m1, p) \<leftarrow> rt_mutex_take m (priorities s) self (-1);
     let s1 = s\<lparr>mutexes := (mutexes s)(mut \<mapsto> m1), priorities := p\<rparr>;
     (if r = Taken then do {
        _ \<leftarrow> requests s1 req;
        Some (Taken, s1\<lparr>requests := (requests s1)(req := None), mutexes := (mutexes s1)(mut := None)\<rparr>)
      } else Some (r, s1))
   }"

definition common_commu_send :: "u32 \<Rightarrow> u32 \<Rightarrow> u32 \<Rightarrow> u32 \<Rightarrow> u8 \<Rightarrow> tid \<Rightarrow> send_sys \<Rightarrow> (take_res \<times> send_sys) option" where
  "common_commu_send req mut buf len ty self s = do {
     s1 \<leftarrow> commu_post req mut buf len ty s;
     commu_wait req mut self s1
   }"

text \<open>
  One round of rt_thread_entry_commu_send, run by the thread self. When the mailbox is empty the
  thread is suspended; otherwise it reads the request, puts the packet on the line and releases the
  mutex of the request. The answer says whether a packet was sent and whether the release succeeded.
\<close>

definition sender_round :: "tid \<Rightarrow> send_sys \<Rightarrow> (bool \<times> bool \<times> send_sys) option" where
  "sender_round self s = do {
     (r, req, mb) \<leftarrow> rt_mb_recv (mb_commu_send s) (-1) self;
     let s1 = s\<lparr>mb_commu_send := mb\<rparr>;
     (case r of
        MbOk _ \<Rightarrow> do {
          st \<leftarrow> requests s1 req;
          buf \<leftarrow> buffers s1 (st_buf st);
          out \<leftarrow> commu_send_bytes HEAD_MASTER_RECV buf (unat (st_len st)) (st_type st);
          m \<leftarrow> mutexes s1 (st_mutex st);
          let (ok, _, m1, p) = rt_mutex_release m (priorities s1) self;
          Some (True, ok, s1\<lparr>line := line s1 @ out, mutexes := (mutexes s1)(st_mutex st \<mapsto> m1), priorities := p\<rparr>)
        }
      | _ \<Rightarrow> Some (False, False, s1))
   }"

section \<open>Lemmas\<close>

lemma post_room:
  assumes "req \<noteq> 0" "mb_inv (mb_commu_send s)" "mb_entry (mb_commu_send s) < mb_size (mb_commu_send s)"
  shows "\<exists>mb. commu_post req mut buf len ty s = Some (s\<lparr>mutexes := (mutexes s)(mut \<mapsto> rt_mutex_create RT_IPC_FLAG_FIFO),
      requests := (requests s)(req \<mapsto> \<lparr>st_buf = buf, st_len = len, st_type = ty, st_mutex = mut\<rparr>), mb_commu_send := mb\<rparr>) \<and>
    mb_inv mb \<and> mb_mails mb = mb_mails (mb_commu_send s) @ [req] \<and> mb_size mb = mb_size (mb_commu_send s)"
proof -
  obtain w mb where "rt_mb_send (mb_commu_send s) req = Some (MbOk w, mb)" "mb_inv mb"
    "mb_mails mb = mb_mails (mb_commu_send s) @ [req]" "mb_size mb = mb_size (mb_commu_send s)"
    using mb_send_room [OF assms(2,3), of req 0 0] by (auto simp: rt_mb_send_def)
  then show ?thesis using assms(1) by (intro exI [of _ mb]) (simp add: commu_post_def)
qed

lemma idle_post:
  assumes "mb_inv (mb_commu_send s)" "mb_mails (mb_commu_send s) = []" "req \<noteq> 0"
  shows "\<exists>mb. commu_post req mut buf len ty s = Some (s\<lparr>mutexes := (mutexes s)(mut \<mapsto> rt_mutex_create RT_IPC_FLAG_FIFO),
      requests := (requests s)(req \<mapsto> \<lparr>st_buf = buf, st_len = len, st_type = ty, st_mutex = mut\<rparr>), mb_commu_send := mb\<rparr>) \<and>
    mb_inv mb \<and> mb_mails mb = [req]"
proof -
  have "mb_entry (mb_commu_send s) < mb_size (mb_commu_send s)"
    using mb_mails_length [of "mb_commu_send s"] assms(1,2) by (simp add: mb_inv_def)
  from post_room [OF assms(3,1) this, of mut buf len ty] assms(2) show ?thesis by auto
qed

lemma take_new: "rt_mutex_take (rt_mutex_create flag) p t time
    = Some (Taken, (rt_mutex_create flag)\<lparr>m_value := 0, m_owner := Some t, original_priority := p t, m_hold := 1\<rparr>, p)"
  by (simp add: rt_mutex_take_def rt_mutex_create_def)

lemma release_new: "rt_mutex_release (rt_mutex_create flag) p t = (False, None, rt_mutex_create flag, p)"
  by (simp add: rt_mutex_release_def rt_mutex_create_def)

lemma wait_new:
  assumes "mutexes s mut = Some (rt_mutex_create flag)" "requests s req \<noteq> None"
  shows "commu_wait req mut self s
    = Some (Taken, s\<lparr>requests := (requests s)(req := None), mutexes := (mutexes s)(mut := None)\<rparr>)"
  using assms by (cases s) (auto simp: commu_wait_def take_new)

lemma sender_mail:
  assumes "mb_inv (mb_commu_send s)" "mb_mails (mb_commu_send s) = req # rest"
  shows "\<exists>w mb. rt_mb_recv (mb_commu_send s) (-1) self = Some (MbOk w, req, mb) \<and> mb_inv mb \<and> mb_mails mb = rest \<and>
    mb_size mb = mb_size (mb_commu_send s)"
  using mb_recv_item [OF assms, of "-1" self] by blast

lemma sender_sends:
  assumes "mb_inv (mb_commu_send s)" "mb_mails (mb_commu_send s) = req # rest"
    and "requests s req = Some st" "buffers s (st_buf st) = Some bs" "unat (st_len st) \<le> length bs"
    and "mutexes s (st_mutex st) = Some (rt_mutex_create flag)"
  shows "\<exists>mb. sender_round self s = Some (True, False, s\<lparr>mb_commu_send := mb,
      line := line s @ link_frame HEAD_MASTER_RECV (st_type st) (take (unat (st_len st)) bs)\<rparr>) \<and>
    mb_inv mb \<and> mb_mails mb = rest \<and> mb_size mb = mb_size (mb_commu_send s)"
proof -
  obtain w mb where mb: "rt_mb_recv (mb_commu_send s) (-1) self = Some (MbOk w, req, mb)" "mb_inv mb" "mb_mails mb = rest"
    "mb_size mb = mb_size (mb_commu_send s)"
    using sender_mail [OF assms(1,2)] by blast
  have "(mutexes s)(st_mutex st \<mapsto> rt_mutex_create flag) = mutexes s" using assms(6) by (intro ext) simp
  then show ?thesis using mb assms(3-6)
    by (cases s) (auto simp: sender_round_def release_new commu_send_bytes_frame intro!: exI [of _ mb])
qed
section \<open>Properties\<close>

text \<open>
  A packet sent while the sending thread gets its turn between the
  mail and the wait. With an idle mailbox and addresses that were free, the packet is put on the
  line completely; afterwards the request and the mutex are gone, the mailbox is empty again, and
  nothing else in the heap has changed. The sending thread's release always fails, because it does
  not own the mutex.
\<close>

theorem commu_send_in_order:
  assumes "mb_inv (mb_commu_send s)" "mb_mails (mb_commu_send s) = []" "req \<noteq> 0"
    and "requests s req = None" "mutexes s mut = None" "buffers s buf = Some bs" "unat len \<le> length bs"
  shows "\<exists>s1 s2 s3. commu_post req mut buf len ty s = Some s1 \<and> sender_round sender s1 = Some (True, False, s2) \<and>
    commu_wait req mut self s2 = Some (Taken, s3) \<and>
    line s3 = line s @ link_frame HEAD_MASTER_RECV ty (take (unat len) bs) \<and>
    requests s3 = requests s \<and> mutexes s3 = mutexes s \<and> buffers s3 = buffers s \<and> mb_mails (mb_commu_send s3) = []"
proof -
  obtain mb where mb: "commu_post req mut buf len ty s = Some (s\<lparr>mutexes := (mutexes s)(mut \<mapsto> rt_mutex_create RT_IPC_FLAG_FIFO),
      requests := (requests s)(req \<mapsto> \<lparr>st_buf = buf, st_len = len, st_type = ty, st_mutex = mut\<rparr>), mb_commu_send := mb\<rparr>)"
    (is "_ = Some ?s1") "mb_inv mb" "mb_mails mb = [req]"
    using idle_post [OF assms(1-3)] by blast
  obtain mb' where mb': "sender_round sender ?s1 = Some (True, False, ?s1\<lparr>mb_commu_send := mb',
      line := line s @ link_frame HEAD_MASTER_RECV ty (take (unat len) bs)\<rparr>)" (is "_ = Some (_, _, ?s2)") "mb_mails mb' = []"
    using sender_sends [of ?s1 req "[]" "\<lparr>st_buf = buf, st_len = len, st_type = ty, st_mutex = mut\<rparr>" bs RT_IPC_FLAG_FIFO sender]
      mb(2,3) assms(6,7) by auto
  have "commu_wait req mut self ?s2 = Some (Taken, ?s2\<lparr>requests := requests s, mutexes := mutexes s\<rparr>)"
    using wait_new [of ?s2 mut RT_IPC_FLAG_FIFO req self] assms(4,5) by (simp add: fun_upd_idem)
  with mb(1) mb'(1) show ?thesis using mb'(2) by (intro exI conjI) (assumption | simp)+
qed

text \<open>
  Property C38 (commu_send_use_after_free): a packet sent while the sending thread does not run.
  The mutex that should make the caller wait is free, so common_commu_send takes it at once and
  returns with the request freed and the mutex deleted before a byte is sent, but with the address
  of the request still in the mailbox: the next round of the sending thread uses freed memory. As
  the threads that send have higher priorities than the sending thread, this is the normal order.
\<close>

theorem commu_send_use_after_free:
  assumes "mb_inv (mb_commu_send s)" "mb_mails (mb_commu_send s) = []" "req \<noteq> 0"
    and "requests s req = None" "mutexes s mut = None"
  shows "\<exists>s1. common_commu_send req mut buf len ty self s = Some (Taken, s1) \<and> line s1 = line s \<and>
    requests s1 = requests s \<and> mutexes s1 = mutexes s \<and> mb_mails (mb_commu_send s1) = [req] \<and> sender_round sender s1 = None"
proof -
  obtain mb where mb: "commu_post req mut buf len ty s = Some (s\<lparr>mutexes := (mutexes s)(mut \<mapsto> rt_mutex_create RT_IPC_FLAG_FIFO),
      requests := (requests s)(req \<mapsto> \<lparr>st_buf = buf, st_len = len, st_type = ty, st_mutex = mut\<rparr>), mb_commu_send := mb\<rparr>)"
    (is "_ = Some ?s1") "mb_inv mb" "mb_mails mb = [req]"
    using idle_post [OF assms(1-3)] by blast
  let ?s2 = "?s1\<lparr>requests := requests s, mutexes := mutexes s\<rparr>"
  have "commu_wait req mut self ?s1 = Some (Taken, ?s2)"
    using wait_new [of ?s1 mut RT_IPC_FLAG_FIFO req self] assms(4,5) by (simp add: fun_upd_idem)
  then have c: "common_commu_send req mut buf len ty self s = Some (Taken, ?s2)" using mb(1) by (simp add: common_commu_send_def)
  obtain w mb' where "rt_mb_recv mb (-1) sender = Some (MbOk w, req, mb')"
    using sender_mail [of ?s2 req "[]" sender] mb(2,3) by auto
  then have "sender_round sender ?s2 = None" using assms(4) by (simp add: sender_round_def)
  then show ?thesis using c mb(3) by (intro exI [of _ ?s2]) simp
qed

text \<open>A controller with an empty mailbox of ten words and one buffer.\<close>

definition demo_send :: send_sys where
  "demo_send = \<lparr>requests = Map.empty, mutexes = Map.empty, buffers = [0x100 \<mapsto> [7, 8, 9]],
     mb_commu_send = rt_mb_init (replicate 10 0) 10, priorities = (\<lambda>_. 13), line = []\<rparr>"

lemma demo_send_idle: "mb_inv (mb_commu_send demo_send)" "mb_mails (mb_commu_send demo_send) = []"
  using mb_init_inv [of "replicate 10 0"] by (simp_all add: demo_send_def)

theorem commu_send_in_order_witness:
  "\<exists>s1 s2 s3. commu_post 0x2000 0x3000 0x100 2 4 demo_send = Some s1 \<and> sender_round 1 s1 = Some (True, False, s2) \<and>
    commu_wait 0x2000 0x3000 2 s2 = Some (Taken, s3) \<and> line s3 = [83, 0, 2, 4, 7, 8]"
  using commu_send_in_order [OF demo_send_idle, where req = "0x2000" and mut = "0x3000" and buf = "0x100" and bs = "[7, 8, 9]" and len = 2 and ty = 4 and sender = 1 and self = 2]
  by (auto simp: demo_send_def link_frame_def HEAD_MASTER_RECV_def hi8_def lo8_def)

theorem commu_send_use_after_free_witness:
  "\<exists>s1. common_commu_send 0x2000 0x3000 0x100 2 4 2 demo_send = Some (Taken, s1) \<and> line s1 = [] \<and> sender_round 1 s1 = None"
  using commu_send_use_after_free [OF demo_send_idle, where req = "0x2000" and mut = "0x3000" and buf = "0x100" and len = 2 and ty = 4 and sender = 1 and self = 2]
  by (auto simp: demo_send_def)

end
