(* ===== verification/Slave_Spi.thy ===== *)
theory Slave_Spi
  imports Bounded_Fifo
begin

text \<open>
  The first USB slave (src/slave/USER/commu.c, main in src/slave/USER/test.c): the SPI interrupt
  feeds each received byte to data_process, a state machine with four commands (0x70 a report of
  nine bytes, 0x90 read the sector address, 0xb0 a sector to the slave, 0xc0 a sector from it) and
  returns the byte to send with the next transfer. Reports go through a ring of 50 rows to main.
  The polling of the SPI registers is not modelled: an interrupt is one exchanged byte. An access
  outside an array is None, so sector_buf[-1] is.
\<close>

section \<open>State\<close>

record spi_st =
  recv_flag :: nat
  in_cnt :: nat
  addr_cnt :: nat
  in512_cnt :: nat
  out512_cnt :: nat
  commu_buf :: "u8 list list"
  ptr_write :: nat
  ptr_read :: nat
  sector_addr :: u32
  sector_buf :: "u8 list"
  flash_finish :: bool
  next_data :: u8

definition spi_start :: spi_st where
  "spi_start = \<lparr>recv_flag = 0, in_cnt = 0, addr_cnt = 0, in512_cnt = 0, out512_cnt = 0,
     commu_buf = replicate 50 (replicate 20 0), ptr_write = 0, ptr_read = 0, sector_addr = 0, sector_buf = [],
     flash_finish = False, next_data = 0\<rparr>"

text \<open>Byte i of sector_addr, in the byte order of the controller.\<close>

definition addr_byte :: "u32 \<Rightarrow> nat \<Rightarrow> u8" where
  "addr_byte a i = ucast (drop_bit (8 * i) a)"

section \<open>The interrupt\<close>

definition put_byte :: "u8 \<Rightarrow> spi_st \<Rightarrow> spi_st option" where
  "put_byte d s = do {
     row \<leftarrow> rd (commu_buf s) (ptr_write s);
     row1 \<leftarrow> wr row (in_cnt s) d;
     buf \<leftarrow> wr (commu_buf s) (ptr_write s) row1;
     Some (s\<lparr>commu_buf := buf\<rparr>)
   }"

definition process_in :: "u8 \<Rightarrow> spi_st \<Rightarrow> (u8 \<times> spi_st) option" where
  "process_in d s = do {
     s1 \<leftarrow> put_byte d s;
     (if 8 \<le> in_cnt s then
        let s2 = s1\<lparr>in_cnt := 0, recv_flag := 0\<rparr> in
        Some (0, if (ptr_write s2 + 1) mod 50 = ptr_read s2 then s2
          else s2\<lparr>ptr_write := (ptr_write s2 + 1) mod 50\<rparr>)
      else Some (0, s1\<lparr>in_cnt := in_cnt s + 1\<rparr>))
   }"

definition process_addr :: "spi_st \<Rightarrow> u8 \<times> spi_st" where
  "process_addr s =
     (if 4 \<le> addr_cnt s then (addr_byte (sector_addr s) 3, s\<lparr>recv_flag := 0, addr_cnt := 0\<rparr>)
      else (addr_byte (sector_addr s) (addr_cnt s), s\<lparr>addr_cnt := addr_cnt s + 1\<rparr>))"

definition process_in512 :: "u8 \<Rightarrow> spi_st \<Rightarrow> (u8 \<times> spi_st) option" where
  "process_in512 d s = do {
     buf \<leftarrow> wr (sector_buf s) (in512_cnt s) d;
     let i = in512_cnt s + 1;
     Some (0, if 512 \<le> i then s\<lparr>sector_buf := buf, in512_cnt := 0, recv_flag := 0, flash_finish := True\<rparr>
       else s\<lparr>sector_buf := buf, in512_cnt := i\<rparr>)
   }"

definition process_out512 :: "spi_st \<Rightarrow> (u8 \<times> spi_st) option" where
  "process_out512 s =
     (let s1 = (if 513 \<le> out512_cnt s then s\<lparr>out512_cnt := 0, recv_flag := 0, flash_finish := True\<rparr>
        else s\<lparr>out512_cnt := out512_cnt s + 1\<rparr>) in
      if out512_cnt s1 = 0 then None
      else do { b \<leftarrow> rd (sector_buf s1) (out512_cnt s1 - 1); Some (b, s1) })"

definition data_process :: "u8 \<Rightarrow> spi_st \<Rightarrow> (u8 \<times> spi_st) option" where
  "data_process d s =
     (if recv_flag s = 0 then
        (if d = 0x70 then Some (0, s\<lparr>recv_flag := 1\<rparr>)
         else if d = 0x90 then Some (process_addr (s\<lparr>recv_flag := 2\<rparr>))
         else if d = 0xb0 then Some (0, s\<lparr>recv_flag := 3\<rparr>)
         else if d = 0xc0 then process_out512 (s\<lparr>recv_flag := 4\<rparr>)
         else Some (0, s\<lparr>recv_flag := 0\<rparr>))
      else if recv_flag s = 1 then process_in d s
      else if recv_flag s = 2 then Some (process_addr s)
      else if recv_flag s = 3 then process_in512 d s
      else if recv_flag s = 4 then process_out512 s
      else Some (0, s))"

text \<open>One SPI interrupt: the byte d comes in, the byte prepared by the one before goes out.\<close>

definition SPI1_IRQHandler :: "u8 \<Rightarrow> spi_st \<Rightarrow> (u8 \<times> spi_st) option" where
  "SPI1_IRQHandler d s = do {
     (b, s1) \<leftarrow> data_process d s;
     Some (next_data s, s1\<lparr>next_data := b\<rparr>)
   }"

fun spi_transfers :: "u8 list \<Rightarrow> spi_st \<Rightarrow> (u8 list \<times> spi_st) option" where
  "spi_transfers [] s = Some ([], s)"
| "spi_transfers (d # ds) s = do {
     (b, s1) \<leftarrow> SPI1_IRQHandler d s;
     (bs, s2) \<leftarrow> spi_transfers ds s1;
     Some (b # bs, s2)
   }"

section \<open>The main loop and the disk functions\<close>

datatype usb_event = Mouse_process "u8 list" | Keyborad_process "u8 list"

text \<open>One round of the loop in main; a row is the bytes handed to mouse_process or keyborad_process.\<close>

definition dispatch :: "u8 list \<Rightarrow> usb_event option" where
  "dispatch row =
     (if row ! 0 = 1 then (if row ! 8 = 90 then Some (Mouse_process row) else None)
      else if row ! 0 = 0 then (if row ! 8 = 92 then Some (Keyborad_process row) else None)
      else None)"

definition main_round :: "spi_st \<Rightarrow> (usb_event option \<times> spi_st) option" where
  "main_round s =
     (if ptr_write s \<noteq> ptr_read s then do {
        row \<leftarrow> rd (commu_buf s) (ptr_read s);
        Some (dispatch row, s\<lparr>ptr_read := (ptr_read s + 1) mod 50\<rparr>)
      } else Some (None, s))"

text \<open>
  SD_ReadDisk and SD_WriteDisk ask for a sector and wait for flash_finish; ds are the bytes of the
  interrupts that arrive while they wait, and waiting longer than that is None. The buffer that
  SD_ReadDisk fills is sector_buf of the state that is returned.
\<close>

fun wait_finish :: "u8 list \<Rightarrow> spi_st \<Rightarrow> (u8 list \<times> spi_st) option" where
  "wait_finish ds s = (if flash_finish s then Some ([], s\<lparr>flash_finish := False\<rparr>) else (case ds of
     [] \<Rightarrow> None
   | d # ds' \<Rightarrow> do {
       (b, s1) \<leftarrow> SPI1_IRQHandler d s;
       (bs, s2) \<leftarrow> wait_finish ds' s1;
       Some (b # bs, s2)
     }))"

definition SD_ReadDisk :: "u8 list \<Rightarrow> u32 \<Rightarrow> u8 list \<Rightarrow> spi_st \<Rightarrow> (u8 list \<times> spi_st) option" where
  "SD_ReadDisk buf sector ds s = wait_finish ds (s\<lparr>sector_addr := sector, sector_buf := buf\<rparr>)"

definition SD_WriteDisk :: "u8 list \<Rightarrow> u32 \<Rightarrow> u8 list \<Rightarrow> spi_st \<Rightarrow> (u8 list \<times> spi_st) option" where
  "SD_WriteDisk buf sector ds s = wait_finish ds (s\<lparr>sector_addr := sector + 1000000, sector_buf := buf\<rparr>)"
section \<open>Interrupts and the main loop, interleaved\<close>

datatype spi_op = Interrupt u8 | Loop

definition opt_list :: "'a option \<Rightarrow> 'a list" where
  "opt_list x = (case x of None \<Rightarrow> [] | Some y \<Rightarrow> [y])"

definition spi_op :: "spi_op \<Rightarrow> spi_st \<Rightarrow> (usb_event list \<times> spi_st) option" where
  "spi_op x s = (case x of
     Interrupt d \<Rightarrow> do { (_, s1) \<leftarrow> SPI1_IRQHandler d s; Some ([], s1) }
   | Loop \<Rightarrow> do { (e, s1) \<leftarrow> main_round s; Some (opt_list e, s1) })"

fun spi_run :: "spi_op list \<Rightarrow> spi_st \<Rightarrow> (usb_event list \<times> spi_st) option" where
  "spi_run [] s = Some ([], s)"
| "spi_run (x # xs) s = do {
     (es, s1) \<leftarrow> spi_op x s;
     (es', s2) \<leftarrow> spi_run xs s1;
     Some (es @ es', s2)
   }"

text \<open>
  The specification: the bytes of the report that is coming in, if any, and the list of complete
  reports that main has not taken. A report that completes while 49 are waiting is lost. A sector
  command is not covered.
\<close>

type_synonym report_st = "u8 list option \<times> u8 list list"

fun report_op :: "spi_op \<Rightarrow> report_st \<Rightarrow> (usb_event list \<times> report_st) option" where
  "report_op (Interrupt d) (None, q) =
     (if d = 0x90 \<or> d = 0xb0 \<or> d = 0xc0 then None else Some ([], if d = 0x70 then Some [] else None, q))"
| "report_op (Interrupt d) (Some p, q) = Some ([],
     if length p < 8 then (Some (p @ [d]), q)
     else (None, if length q < 49 then q @ [p @ [d]] else q))"
| "report_op Loop (p, []) = Some ([], p, [])"
| "report_op Loop (p, r # q) = Some (opt_list (dispatch (r @ replicate 11 0)), p, q)"

fun report_run :: "spi_op list \<Rightarrow> report_st \<Rightarrow> (usb_event list \<times> report_st) option" where
  "report_run [] t = Some ([], t)"
| "report_run (x # xs) t = do {
     (es, t1) \<leftarrow> report_op x t;
     (es', t2) \<leftarrow> report_run xs t1;
     Some (es @ es', t2)
   }"

definition partial :: "u8 list option \<Rightarrow> u8 list" where
  "partial p = (case p of None \<Rightarrow> [] | Some bs \<Rightarrow> bs)"

lemma partial_simps [simp]: "partial None = []" "partial (Some bs) = bs"
  by (simp_all add: partial_def)

definition rows_ok :: "u8 list list \<Rightarrow> bool" where
  "rows_ok rows \<longleftrightarrow> length rows = 50 \<and> (\<forall>row \<in> set rows. length row = 20 \<and> drop 9 row = replicate 11 0)"

definition spi_rel :: "spi_st \<Rightarrow> report_st \<Rightarrow> bool" where
  "spi_rel s t \<longleftrightarrow> (case t of (p, q) \<Rightarrow>
     recv_flag s = (if p = None then 0 else 1) \<and> in_cnt s = length (partial p) \<and> in_cnt s \<le> 8 \<and>
     rows_ok (commu_buf s) \<and> ptr_read s < 50 \<and> length q < 50 \<and> ptr_write s = (ptr_read s + length q) mod 50 \<and>
     take (in_cnt s) (commu_buf s ! ptr_write s) = partial p \<and>
     (\<forall>i < length q. commu_buf s ! ((ptr_read s + i) mod 50) = q ! i @ replicate 11 0))"

lemma rel_start: "spi_rel spi_start (None, [])"
  by (simp add: spi_rel_def spi_start_def rows_ok_def)

lemma ring_full: "n < 50 \<Longrightarrow> r < 50 \<Longrightarrow> ((r + n) mod 50 + 1) mod 50 = r \<longleftrightarrow> n = (49 :: nat)"
proof -
  assume a: "n < 50" "r < (50 :: nat)"
  show "((r + n) mod 50 + 1) mod 50 = r \<longleftrightarrow> n = 49"
  proof (cases "r + n < 50")
    case True
    then show ?thesis using a by (cases "r + n = 49") auto
  next
    case False
    then have "(r + n) mod 50 = r + n - 50" using a by (simp add: mod_if)
    then show ?thesis using a False by auto
  qed
qed

text \<open>Storing one byte of a report changes the row being filled only.\<close>

lemma put_byte_rel:
  assumes "spi_rel s (Some p, q)"
  shows "\<exists>buf row. put_byte d s = Some (s\<lparr>commu_buf := buf\<rparr>) \<and> rows_ok buf \<and> buf ! ptr_write s = row \<and>
    take (length p + 1) row = p @ [d] \<and> drop 9 row = replicate 11 0 \<and>
    (\<forall>i < length q. buf ! ((ptr_read s + i) mod 50) = q ! i @ replicate 11 0)"
proof -
  let ?w = "ptr_write s" let ?row = "commu_buf s ! ?w"
  have r: "in_cnt s = length p" "length p \<le> 8" "rows_ok (commu_buf s)" "ptr_read s < 50" "length q < 50"
    "?w = (ptr_read s + length q) mod 50" "take (length p) ?row = p"
    "\<forall>i < length q. commu_buf s ! ((ptr_read s + i) mod 50) = q ! i @ replicate 11 0"
    using assms by (auto simp: spi_rel_def)
  have w: "?w < 50" using r(6) by simp
  then have row: "length ?row = 20" "drop 9 ?row = replicate 11 0" using r(3) by (simp_all add: rows_ok_def)
  let ?row' = "?row[length p := d]" let ?buf = "(commu_buf s)[?w := ?row']"
  have "put_byte d s = Some (s\<lparr>commu_buf := ?buf\<rparr>)"
    using w row r(1-3) by (simp add: put_byte_def rows_ok_def)
  moreover have row': "length ?row' = 20" "drop 9 ?row' = replicate 11 0" "take (length p + 1) ?row' = p @ [d]"
    using row r(2,7) by (simp_all add: take_Suc_conv_app_nth)
  moreover have "rows_ok ?buf" using r(3) row'(1,2) unfolding rows_ok_def by (auto dest: set_update_subset_insert [THEN subsetD])
  moreover have "?buf ! ?w = ?row'" using r(3) w by (simp add: rows_ok_def)
  moreover have "?buf ! ((ptr_read s + i) mod 50) = q ! i @ replicate 11 0" if "i < length q" for i
  proof -
    have "(ptr_read s + i) mod 50 \<noteq> ?w" using ring_index_inj [of i 50 "length q" "ptr_read s"] that r(5,6) by auto
    then show ?thesis using r(8) that by simp
  qed
  ultimately show ?thesis by blast
qed


lemma collect_rel:
  assumes "spi_rel s (Some p, q)" "report_op (Interrupt d) (Some p, q) = Some (es, t)"
  shows "\<exists>s'. spi_op (Interrupt d) s = Some (es, s') \<and> spi_rel s' t"
proof -
  obtain buf row where b: "put_byte d s = Some (s\<lparr>commu_buf := buf\<rparr>)" "rows_ok buf" "buf ! ptr_write s = row"
    "take (length p + 1) row = p @ [d]" "drop 9 row = replicate 11 0"
    "\<forall>i < length q. buf ! ((ptr_read s + i) mod 50) = q ! i @ replicate 11 0"
    using put_byte_rel [OF assms(1)] by blast
  have r: "recv_flag s = 1" "in_cnt s = length p" "length p \<le> 8" "ptr_read s < 50" "length q < 50"
    "ptr_write s = (ptr_read s + length q) mod 50"
    using assms(1) by (auto simp: spi_rel_def)
  show ?thesis
  proof (cases "length p < 8")
    case True
    then have t: "es = []" "t = (Some (p @ [d]), q)" using assms(2) by auto
    have "spi_op (Interrupt d) s = Some ([], s\<lparr>commu_buf := buf, in_cnt := length p + 1, next_data := 0\<rparr>)"
      using True r(1,2) b(1) by (simp add: spi_op_def SPI1_IRQHandler_def data_process_def process_in_def)
    moreover have "spi_rel (s\<lparr>commu_buf := buf, in_cnt := length p + 1, next_data := 0\<rparr>) (Some (p @ [d]), q)"
      using True r b(2-4,6) by (simp add: spi_rel_def)
    ultimately show ?thesis using t by blast
  next
    case False
    then have p8: "length p = 8" using r(3) by simp
    then have t: "es = []" "t = (None, if length q < 49 then q @ [p @ [d]] else q)" using assms(2) by auto
    have row: "row = (p @ [d]) @ replicate 11 0" using b(4,5) p8 append_take_drop_id [of 9 row] by simp
    have full: "(ptr_write s + 1) mod 50 = ptr_read s \<longleftrightarrow> length q = 49" unfolding r(6) by (rule ring_full [OF r(5,4)])
    let ?s = "s\<lparr>commu_buf := buf, in_cnt := 0, recv_flag := 0, next_data := 0\<rparr>"
    show ?thesis
    proof (cases "length q < 49")
      case True
      then have "spi_op (Interrupt d) s = Some ([], ?s\<lparr>ptr_write := (ptr_write s + 1) mod 50\<rparr>)"
        using p8 full r(1,2) b(1) by (simp add: spi_op_def SPI1_IRQHandler_def data_process_def process_in_def Let_def)
      moreover have "buf ! ((ptr_read s + i) mod 50) = (q @ [p @ [d]]) ! i @ replicate 11 0" if "i < Suc (length q)" for i
        using that b(3,6) row r(6) by (cases "i < length q") (auto simp: nth_append less_Suc_eq)
      then have "spi_rel (?s\<lparr>ptr_write := (ptr_write s + 1) mod 50\<rparr>) (None, q @ [p @ [d]])"
        using True r(4,6) b(2) by (simp add: spi_rel_def mod_Suc_eq)
      ultimately show ?thesis using t True by auto
    next
      case f: False
      then have "spi_op (Interrupt d) s = Some ([], ?s)"
        using p8 full r(1,2,5) b(1) by (simp add: spi_op_def SPI1_IRQHandler_def data_process_def process_in_def Let_def)
      moreover have "spi_rel ?s (None, q)" using r(4-6) b(2,6) by (simp add: spi_rel_def)
      ultimately show ?thesis using t f by auto
    qed
  qed
qed

lemma loop_rel:
  assumes "spi_rel s (p, q)" "report_op Loop (p, q) = Some (es, t)"
  shows "\<exists>s'. spi_op Loop s = Some (es, s') \<and> spi_rel s' t"
proof (cases q)
  case Nil
  then have "spi_op Loop s = Some ([], s)" "es = []" "t = (p, q)"
    using assms by (auto simp: spi_rel_def spi_op_def main_round_def opt_list_def)
  then show ?thesis using assms(1) by blast
next
  case (Cons r q')
  then have t: "es = opt_list (dispatch (r @ replicate 11 0))" "t = (p, q')" using assms(2) by auto
  have x: "rows_ok (commu_buf s)" "ptr_read s < 50" "length q < 50" "ptr_write s = (ptr_read s + length q) mod 50"
    "\<forall>i < length q. commu_buf s ! ((ptr_read s + i) mod 50) = q ! i @ replicate 11 0"
    using assms(1) by (auto simp: spi_rel_def)
  have ne: "ptr_write s \<noteq> ptr_read s"
    using ring_index_inj [of "length q" 50 0 "ptr_read s"] x(2-4) Cons by auto
  have hd: "commu_buf s ! ptr_read s = r @ replicate 11 0" using x(2,5) Cons by (metis add_0_right length_greater_0_conv list.simps(3) mod_less nth_Cons_0)
  let ?s = "s\<lparr>ptr_read := (ptr_read s + 1) mod 50\<rparr>"
  have "spi_op Loop s = Some (es, ?s)" using ne x(1,2) t(1) hd by (simp add: spi_op_def main_round_def rows_ok_def)
  moreover have "commu_buf s ! (((ptr_read s + 1) mod 50 + i) mod 50) = q' ! i @ replicate 11 0" if "i < length q'" for i
    using x(5) [rule_format, of "Suc i"] that Cons by (simp add: mod_simps)
  moreover have "ptr_write s = ((ptr_read s + 1) mod 50 + length q') mod 50" using x(4) Cons by (simp add: mod_simps)
  ultimately have "spi_op Loop s = Some (es, ?s)" "spi_rel ?s (p, q')"
    using assms(1) Cons by (auto simp: spi_rel_def)
  then show ?thesis using t(2) by blast
qed

lemma idle_rel:
  assumes "spi_rel s (None, q)" "report_op (Interrupt d) (None, q) = Some (es, t)"
  shows "\<exists>s'. spi_op (Interrupt d) s = Some (es, s') \<and> spi_rel s' t"
  using assms by (auto simp: spi_rel_def spi_op_def SPI1_IRQHandler_def data_process_def split: if_splits)

lemma spi_op_rel:
  assumes "spi_rel s t" "report_op x t = Some (es, t')"
  shows "\<exists>s'. spi_op x s = Some (es, s') \<and> spi_rel s' t'"
  using assms loop_rel idle_rel collect_rel by (cases t; cases x; cases "fst t") auto

lemma spi_run_rel:
  "spi_rel s t \<Longrightarrow> report_run xs t = Some (es, t') \<Longrightarrow> \<exists>s'. spi_run xs s = Some (es, s') \<and> spi_rel s' t'"
proof (induction xs arbitrary: s t es)
  case Nil
  then show ?case by simp
next
  case (Cons x xs)
  from Cons.prems(2) obtain e1 t1 e2 where o: "report_op x t = Some (e1, t1)" "report_run xs t1 = Some (e2, t')" "es = e1 @ e2"
    by (auto split: bind_splits)
  from spi_op_rel [OF Cons.prems(1) o(1)] obtain s1 where s1: "spi_op x s = Some (e1, s1)" "spi_rel s1 t1" by blast
  from Cons.IH [OF s1(2) o(2)] o(3) s1(1) show ?case by auto
qed

section \<open>Sectors\<close>

definition spi_idle :: "spi_st \<Rightarrow> bool" where
  "spi_idle s \<longleftrightarrow> recv_flag s = 0 \<and> addr_cnt s = 0 \<and> in512_cnt s = 0 \<and> out512_cnt s = 0 \<and> \<not> flash_finish s"

lemma in512_step:
  assumes "recv_flag s = 3" "in512_cnt s < length (sector_buf s)"
  shows "SPI1_IRQHandler d s = Some (next_data s,
    let s1 = s\<lparr>sector_buf := (sector_buf s)[in512_cnt s := d], next_data := 0\<rparr> in
    if 511 \<le> in512_cnt s then s1\<lparr>in512_cnt := 0, recv_flag := 0, flash_finish := True\<rparr>
    else s1\<lparr>in512_cnt := in512_cnt s + 1\<rparr>)"
  using assms by (simp add: SPI1_IRQHandler_def data_process_def process_in512_def Let_def)

declare wait_finish.simps [simp del]

lemma wait_step: "\<not> flash_finish s \<Longrightarrow> SPI1_IRQHandler d s = Some (b, s1) \<Longrightarrow>
  wait_finish (d # ds) s = do { (bs, s2) \<leftarrow> wait_finish ds s1; Some (b # bs, s2) }"
  by (subst wait_finish.simps) simp

lemma wait_done: "flash_finish s \<Longrightarrow> wait_finish ds s = Some ([], s\<lparr>flash_finish := False\<rparr>)"
  by (subst wait_finish.simps) simp

lemma wait_in512:
  "recv_flag s = 3 \<Longrightarrow> \<not> flash_finish s \<Longrightarrow> in512_cnt s + length ds = 512 \<Longrightarrow> ds \<noteq> [] \<Longrightarrow> 512 \<le> length (sector_buf s) \<Longrightarrow>
   \<exists>out. length out = length ds \<and> wait_finish ds s = Some (out, s\<lparr>recv_flag := 0, in512_cnt := 0, next_data := 0,
     sector_buf := take (in512_cnt s) (sector_buf s) @ ds @ drop 512 (sector_buf s)\<rparr>)"
proof (induction ds arbitrary: s)
  case Nil
  then show ?case by simp
next
  case (Cons d ds)
  let ?k = "in512_cnt s" and ?buf = "sector_buf s"
  have k: "?k < length ?buf" "?k < 512" using Cons.prems(3,5) by simp_all
  note st = in512_step [OF Cons.prems(1) k(1), of d]
  show ?case
  proof (cases ds)
    case Nil
    then have k511: "?k = 511" using Cons.prems(3) by simp
    have "?buf[511 := d] = take 511 ?buf @ d # drop 512 ?buf" using Cons.prems(5) by (simp add: upd_conv_take_nth_drop)
    with k511 have r: "SPI1_IRQHandler d s = Some (next_data s, s\<lparr>sector_buf := take 511 ?buf @ d # drop 512 ?buf,
        next_data := 0, in512_cnt := 0, recv_flag := 0, flash_finish := True\<rparr>)" using st by simp
    have "wait_finish [d] s = Some ([next_data s], s\<lparr>sector_buf := take 511 ?buf @ d # drop 512 ?buf,
        next_data := 0, in512_cnt := 0, recv_flag := 0, flash_finish := True, flash_finish := False\<rparr>)"
      by (simp add: wait_step [OF Cons.prems(2) r] wait_done)
    then show ?thesis using Cons.prems(2) k511 Nil by (cases s) auto
  next
    case (Cons d' ds')
    then have k511: "?k < 511" using Cons.prems(3) by simp
    let ?s = "s\<lparr>sector_buf := ?buf[?k := d], next_data := 0, in512_cnt := ?k + 1\<rparr>"
    have r: "SPI1_IRQHandler d s = Some (next_data s, ?s)" using st k511 by simp
    have "\<exists>out. length out = length ds \<and> wait_finish ds ?s = Some (out, ?s\<lparr>recv_flag := 0, in512_cnt := 0, next_data := 0,
        sector_buf := take (in512_cnt ?s) (sector_buf ?s) @ ds @ drop 512 (sector_buf ?s)\<rparr>)"
      using Cons.prems Cons by (intro Cons.IH) simp_all
    then obtain out where o: "length out = length ds" "wait_finish ds ?s = Some (out, ?s\<lparr>recv_flag := 0, in512_cnt := 0, next_data := 0,
        sector_buf := take (?k + 1) (?buf[?k := d]) @ ds @ drop 512 (?buf[?k := d])\<rparr>)" by auto
    have "take (?k + 1) (?buf[?k := d]) = take ?k ?buf @ [d]" using k(1) by (simp add: take_Suc_conv_app_nth)
    moreover have "drop 512 (?buf[?k := d]) = drop 512 ?buf" using k(2) by simp
    ultimately show ?thesis using o by (intro exI [of _ "next_data s # out"]) (simp add: wait_step [OF Cons.prems(2) r])
  qed
qed

lemma addr_step:
  assumes "recv_flag s = 2"
  shows "SPI1_IRQHandler d s = Some (next_data s, if 4 \<le> addr_cnt s then s\<lparr>recv_flag := 0, addr_cnt := 0, next_data := addr_byte (sector_addr s) 3\<rparr>
    else s\<lparr>addr_cnt := addr_cnt s + 1, next_data := addr_byte (sector_addr s) (addr_cnt s)\<rparr>)"
  using assms by (simp add: SPI1_IRQHandler_def data_process_def process_addr_def)

lemma addr_first:
  assumes "recv_flag s = 0" "addr_cnt s = 0"
  shows "SPI1_IRQHandler 0x90 s = Some (next_data s, s\<lparr>recv_flag := 2, addr_cnt := 1, next_data := addr_byte (sector_addr s) 0\<rparr>)"
  using assms by (simp add: SPI1_IRQHandler_def data_process_def process_addr_def)

lemma in512_first:
  assumes "recv_flag s = 0"
  shows "SPI1_IRQHandler 0xb0 s = Some (next_data s, s\<lparr>recv_flag := 3, next_data := 0\<rparr>)"
  using assms by (simp add: SPI1_IRQHandler_def data_process_def)

lemma out512_step:
  assumes "recv_flag s = 4 \<or> recv_flag s = 0 \<and> d = 0xc0" "length (sector_buf s) = 512" "out512_cnt s \<le> 512"
  shows "SPI1_IRQHandler d s = (if out512_cnt s < 512 then Some (next_data s,
    s\<lparr>recv_flag := 4, out512_cnt := out512_cnt s + 1, next_data := sector_buf s ! out512_cnt s\<rparr>) else None)"
  using assms by (cases s) (auto simp: SPI1_IRQHandler_def data_process_def process_out512_def Let_def)

lemma transfers_out512:
  "recv_flag s = 4 \<Longrightarrow> length (sector_buf s) = 512 \<Longrightarrow> 0 < out512_cnt s \<Longrightarrow> out512_cnt s \<le> 512 \<Longrightarrow>
   next_data s = sector_buf s ! (out512_cnt s - 1) \<Longrightarrow>
   (if out512_cnt s + length ds \<le> 512 then
     \<exists>s'. spi_transfers ds s = Some (take (length ds) (drop (out512_cnt s - 1) (sector_buf s)), s') \<and>
       flash_finish s' = flash_finish s \<and> out512_cnt s' = out512_cnt s + length ds
    else spi_transfers ds s = None)"
proof (induction ds arbitrary: s)
  case Nil
  then show ?case by simp
next
  case (Cons d ds)
  let ?k = "out512_cnt s" and ?buf = "sector_buf s"
  note st = out512_step [of s d]
  show ?case
  proof (cases "?k < 512")
    case False
    then show ?thesis using Cons.prems st by simp
  next
    case True
    let ?s = "s\<lparr>recv_flag := 4, out512_cnt := ?k + 1, next_data := ?buf ! ?k\<rparr>"
    have r: "SPI1_IRQHandler d s = Some (next_data s, ?s)" using st True Cons.prems by simp
    have ih: "if ?k + 1 + length ds \<le> 512 then
       \<exists>s'. spi_transfers ds ?s = Some (take (length ds) (drop ?k ?buf), s') \<and> flash_finish s' = flash_finish s \<and> out512_cnt s' = ?k + 1 + length ds
      else spi_transfers ds ?s = None"
      using Cons.IH [of ?s] Cons.prems True by (simp cong: if_cong)
    have "drop (?k - 1) ?buf = ?buf ! (?k - 1) # drop ?k ?buf"
      using Cons_nth_drop_Suc [of "?k - 1" ?buf] Cons.prems(2,3) True by simp
    then show ?thesis using ih r Cons.prems(5) by (auto split: if_splits)
  qed
qed

section \<open>Properties\<close>

text \<open>
  Reports from the interrupt to the main loop. However the bytes
  that arrive interleave with the rounds of the main loop, from the start on, as long as no sector
  command is sent: nothing leaves the ring, and main hands on exactly the events of the
  specification, that is the complete reports in the order they came in, less the reports that
  completed while 49 others were waiting.
\<close>

theorem spi_reports_refine:
  assumes "report_run xs (None, []) = Some (es, t)"
  shows "\<exists>s. spi_run xs spi_start = Some (es, s) \<and> spi_rel s t"
  using spi_run_rel [OF rel_start assms] .

text \<open>
  A sector comes in over SPI. When the master asks for the address with
  0x90 and four more bytes and then sends 0xb0 and 512 bytes, SD_ReadDisk returns with exactly
  these bytes at the front of its buffer, the master has got the four bytes of the sector address
  with the transfers two to five, and the protocol is idle again.
\<close>

theorem spi_sector_read:
  assumes "spi_idle s" "512 \<le> length buf" "length data = 512"
  shows "\<exists>out s'. SD_ReadDisk buf sector ([0x90, x1, x2, x3, x4, 0xb0] @ data) s = Some (out, s') \<and>
    take 4 (drop 1 out) = [addr_byte sector 0, addr_byte sector 1, addr_byte sector 2, addr_byte sector 3] \<and> length out = 518 \<and>
    sector_buf s' = data @ drop 512 buf \<and> spi_idle s'"
proof -
  let ?s0 = "s\<lparr>sector_addr := sector, sector_buf := buf\<rparr>"
  let ?b = "addr_byte sector"
  note i = assms(1) [unfolded spi_idle_def]
  let ?a = "\<lambda>k b. ?s0\<lparr>recv_flag := 2, addr_cnt := k, next_data := b\<rparr>"
  have 0: "SPI1_IRQHandler 0x90 ?s0 = Some (next_data s, ?a 1 (?b 0))" using addr_first [of ?s0] i by simp
  have a: "SPI1_IRQHandler x (?a k (?b k')) = Some (?b k', ?a (k + 1) (?b k))" if "k < 4" for x k k'
    using addr_step [of "?a k (?b k')" x] that by simp
  have 1: "SPI1_IRQHandler x1 (?a 1 (?b 0)) = Some (?b 0, ?a 2 (?b 1))" using a [of 1 x1 0] by (simp add: numeral_2_eq_2)
  have 2: "SPI1_IRQHandler x2 (?a 2 (?b 1)) = Some (?b 1, ?a 3 (?b 2))" using a [of 2 x2 1] by simp
  have 3: "SPI1_IRQHandler x3 (?a 3 (?b 2)) = Some (?b 2, ?a 4 (?b 3))" using a [of 3 x3 2] by simp
  have 4: "SPI1_IRQHandler x4 (?a 4 (?b 3)) = Some (?b 3, ?s0\<lparr>recv_flag := 0, addr_cnt := 0, next_data := ?b 3\<rparr>)"
    using addr_step [of "?a 4 (?b 3)" x4] by simp
  let ?s6 = "?s0\<lparr>recv_flag := 3, addr_cnt := 0, next_data := 0\<rparr>"
  have 5: "SPI1_IRQHandler 0xb0 (?s0\<lparr>recv_flag := 0, addr_cnt := 0, next_data := ?b 3\<rparr>) = Some (?b 3, ?s6)"
    using in512_first [of "?s0\<lparr>recv_flag := 0, addr_cnt := 0, next_data := ?b 3\<rparr>"] by simp
  have "\<exists>out. length out = length data \<and> wait_finish data ?s6 = Some (out, ?s6\<lparr>recv_flag := 0, in512_cnt := 0, next_data := 0,
      sector_buf := take (in512_cnt ?s6) (sector_buf ?s6) @ data @ drop 512 (sector_buf ?s6)\<rparr>)"
    using i assms by (intro wait_in512) auto
  then obtain out where out: "length out = 512" "wait_finish data ?s6 = Some (out, ?s6\<lparr>recv_flag := 0, in512_cnt := 0, next_data := 0,
      sector_buf := data @ drop 512 buf\<rparr>)" (is "_ = Some (_, ?s')") using i assms by auto
  have nf: "\<not> flash_finish ?s0" "\<not> flash_finish (?a k b)" "\<not> flash_finish (?s0\<lparr>recv_flag := 0, addr_cnt := 0, next_data := b\<rparr>)" for k b
    using i by simp_all
  have "wait_finish ([0x90, x1, x2, x3, x4, 0xb0] @ data) ?s0 = Some ([next_data s, ?b 0, ?b 1, ?b 2, ?b 3, ?b 3] @ out, ?s')"
    using out(2) by (simp add: wait_step [OF nf(1) 0] wait_step [OF nf(2) 1] wait_step [OF nf(2) 2] wait_step [OF nf(2) 3]
      wait_step [OF nf(2) 4] wait_step [OF nf(3) 5] del: One_nat_def)
  then show ?thesis using out(1) i
    by (intro exI [of _ "[next_data s, ?b 0, ?b 1, ?b 2, ?b 3, ?b 3] @ out"] exI [of _ ?s'])
      (simp add: SD_ReadDisk_def spi_idle_def)
qed

text \<open>
  A sector that the master fetches with 0xc0. With the 512-byte buffer
  of SD_WriteDisk the master gets the bytes of the buffer as long as it clocks at most 511 more
  bytes, but the command has not finished then; one byte more reads behind the buffer, and the
  command would finish only after that, with a read in front of it.
\<close>

theorem spi_sector_write:
  assumes "spi_idle s" "length (sector_buf s) = 512"
  shows "if length ds < 512
    then \<exists>s'. spi_transfers (0xc0 # ds) s = Some (next_data s # take (length ds) (sector_buf s), s') \<and> \<not> flash_finish s'
    else spi_transfers (0xc0 # ds) s = None"
proof -
  note i = assms(1) [unfolded spi_idle_def]
  let ?s1 = "s\<lparr>recv_flag := 4, out512_cnt := 1, next_data := sector_buf s ! 0\<rparr>"
  have r: "SPI1_IRQHandler 0xc0 s = Some (next_data s, ?s1)" using out512_step [of s "0xc0"] i assms(2) by simp
  show ?thesis using transfers_out512 [of ?s1 ds] r i assms(2) by (auto split: if_splits)
qed

definition demo_ops :: "spi_op list" where
  "demo_ops = map Interrupt [0x70, 0, 0, 4, 0, 0, 0] @ [Loop] @ map Interrupt [0, 0, 92, 7, 0x70, 1] @ [Loop, Loop]"

theorem spi_reports_refine_witness:
  "\<exists>s. spi_run demo_ops spi_start = Some ([Keyborad_process ([0, 0, 4, 0, 0, 0, 0, 0, 92] @ replicate 11 0)], s) \<and> spi_rel s (Some [1], [])"
proof (rule spi_reports_refine)
  show "report_run demo_ops (None, []) = Some ([Keyborad_process ([0, 0, 4, 0, 0, 0, 0, 0, 92] @ replicate 11 0)], Some [1], [])"
    by code_simp
qed

theorem spi_sector_read_witness:
  "\<exists>out s'. SD_ReadDisk (replicate 512 0) 0x01020304 ([0x90, 0, 0, 0, 0, 0xb0] @ replicate 512 9) spi_start = Some (out, s') \<and>
    take 4 (drop 1 out) = [4, 3, 2, 1] \<and> sector_buf s' = replicate 512 9"
proof -
  have "addr_byte 0x01020304 0 = 4" "addr_byte 0x01020304 1 = 3" "addr_byte 0x01020304 2 = 2" "addr_byte 0x01020304 3 = 1"
    by code_simp+
  then show ?thesis
    using spi_sector_read [of spi_start "replicate 512 0" "replicate 512 9" "0x01020304" 0 0 0 0]
    by (auto simp: spi_idle_def spi_start_def)
qed

theorem spi_sector_write_witness:
  "\<exists>s'. spi_transfers [0xc0, 0, 0] (spi_start\<lparr>sector_buf := replicate 512 5\<rparr>) = Some ([0, 5, 5], s') \<and> \<not> flash_finish s'"
  using spi_sector_write [of "spi_start\<lparr>sector_buf := replicate 512 5\<rparr>" "[0, 0]"]
  by (simp add: spi_idle_def spi_start_def numeral_2_eq_2)

end
