(* ===== verification/Ahk_Lexer.thy ===== *)
theory Ahk_Lexer
  imports Key_Filter
begin

text \<open>
  The tokens of a hotkey line (token_ana of src/APP/ahk_analyser.c): modifiers with an optional
  side, the double colon, characters, and key names in braces. The token under construction is the
  element of the queue at index lenth; lenth is a byte and counts the finished tokens.
\<close>

section \<open>Data\<close>

datatype token_class = token_raw | token_both_dir_ctrl | token_dir_ctrl | token_colon | token_key | token_long_key

datatype token_state = ts_raw | ts_wait_ctrl_key | ts_wait_2nd_colon | ts_wait_key_value | ts_finish

record token =
  tclass :: token_class
  content :: u32
  tstate :: token_state

definition token_Init :: token where
  "token_Init = \<lparr>tclass = token_raw, content = 0, tstate = ts_raw\<rparr>"

record token_q =
  queue :: "token list"
  lenth :: u8

definition token_q_Init :: token_q where
  "token_q_Init = \<lparr>queue = replicate 1024 token_Init, lenth = 0\<rparr>"

datatype char_class = angle | ctrl_key | colon | general_key | brace

definition char_ana :: "u8 \<Rightarrow> char_class" where
  "char_ana c =
     (if c = of_char CHR ''<'' \<or> c = of_char CHR ''>'' then angle
      else if c = of_char CHR ''#'' \<or> c = of_char CHR ''!'' \<or> c = of_char CHR ''^'' \<or> c = of_char CHR ''+'' then ctrl_key
      else if c = of_char CHR '':'' then colon
      else if c = of_char CHR ''{'' \<or> c = of_char CHR ''}'' then brace
      else general_key)"

section \<open>Key names\<close>

definition general_key_value :: "u8 list" where
  "general_key_value = [0, 40, 41, 42, 43, 44, 57, 58, 59, 60, 61, 62, 63, 64, 65, 66, 67,
     68, 69, 70, 71, 72, 73, 74, 75, 76, 77, 78, 79, 80, 81, 82, 83]"

definition general_key_map :: "string list" where
  "general_key_map = ['''', ''enter'', ''esc'', ''delete'', ''tab'', ''space'', ''caps lock'', ''f1'', ''f2'',
     ''f3'', ''f4'', ''f5'', ''f6'', ''f7'', ''f8'', ''f9'', ''f10'',
     ''f11'', ''f12'', ''printscreen'', ''scroll lock'', ''pause'', ''intert'', ''home'', ''pageup'',
     ''deleteforward'', ''end'', ''pagedown'', ''right'', ''left'', ''down'', ''up'', ''num lock'']"

text \<open>
  general_key_ana: the name is copied into a buffer of 21 bytes and compared with the names in
  order. The bound of that loop is sizeof of the pointer array, 132, four times its length.
\<close>

fun general_key_scan :: "u8 list \<Rightarrow> nat list \<Rightarrow> u8 option" where
  "general_key_scan str [] = Some 0"
| "general_key_scan str (i # is) = do {
     name \<leftarrow> rd general_key_map i;
     e \<leftarrow> strcmp_eq str (cstring name);
     (if e then rd general_key_value i else general_key_scan str is) }"

definition general_key_ana :: "u8 list \<Rightarrow> nat \<Rightarrow> nat \<Rightarrow> u8 list \<Rightarrow> u8 option" where
  "general_key_ana read_buf pos cnt str0 = do {
     str \<leftarrow> forM [0..<cnt] (\<lambda>i s. do { c \<leftarrow> rd read_buf (pos + i); wr s i c }) str0;
     str' \<leftarrow> wr str cnt 0;
     general_key_scan str' [0..<132] }"

section \<open>token_ana\<close>

record ana_st =
  tq :: token_q
  general_key_cnt :: nat
  general_key_pos :: nat

text \<open>Finishing the token at index k: it gets its class and content, and lenth is increased.\<close>

definition finish_token :: "nat \<Rightarrow> token_class \<Rightarrow> u32 \<Rightarrow> token_q \<Rightarrow> token_q option" where
  "finish_token k cl v q = do {
     qs \<leftarrow> wr (queue q) k \<lparr>tclass = cl, content = v, tstate = ts_finish\<rparr>;
     Some (q\<lparr>queue := qs, lenth := lenth q + 1\<rparr>) }"

definition set_token :: "nat \<Rightarrow> token \<Rightarrow> ana_st \<Rightarrow> ana_st option" where
  "set_token k t st = do { qs \<leftarrow> wr (queue (tq st)) k t; Some (st\<lparr>tq := (tq st)\<lparr>queue := qs\<rparr>\<rparr>) }"

text \<open>
  One character. Inl is the error code the function returns, Inr the state after it; str0 is the
  content of the uninitialised name buffer.
\<close>

definition token_step :: "u8 list \<Rightarrow> u8 list \<Rightarrow> nat \<Rightarrow> ana_st \<Rightarrow> (nat + ana_st) option" where
  "token_step str0 read_buf i st = do {
     c \<leftarrow> rd read_buf i;
     let k = unat (lenth (tq st));
     t \<leftarrow> rd (queue (tq st)) k;
     let go = (\<lambda>r. map_option (\<lambda>q. Inr (st\<lparr>tq := q\<rparr>)) r);
     (case tstate t of
        ts_raw \<Rightarrow> (case char_ana c of
            angle \<Rightarrow> map_option Inr (set_token k (t\<lparr>tstate := ts_wait_ctrl_key,
              content := (if c = of_char CHR ''<'' then content t OR 128 else content t)\<rparr>) st)
          | ctrl_key \<Rightarrow> go (finish_token k token_both_dir_ctrl (ucast c) (tq st))
          | colon \<Rightarrow> map_option Inr (set_token k (t\<lparr>tstate := ts_wait_2nd_colon\<rparr>) st)
          | general_key \<Rightarrow> go (finish_token k token_key (ucast c) (tq st))
          | brace \<Rightarrow> map_option Inr (set_token k (t\<lparr>tstate := ts_wait_key_value\<rparr>) st))
      | ts_wait_ctrl_key \<Rightarrow>
          if char_ana c = ctrl_key then go (finish_token k token_dir_ctrl (content t OR ucast c) (tq st))
          else Some (Inl 2)
      | ts_wait_2nd_colon \<Rightarrow>
          if char_ana c = colon then go (finish_token k token_colon (ucast c) (tq st)) else Some (Inl 3)
      | ts_wait_key_value \<Rightarrow>
          if char_ana c = general_key then
            (let st1 = (if general_key_cnt st = 0 then st\<lparr>general_key_pos := i\<rparr> else st) in
             if general_key_cnt st < 20 then Some (Inr (st1\<lparr>general_key_cnt := general_key_cnt st + 1\<rparr>))
             else Some (Inl 4))
          else if char_ana c = brace then do {
            v \<leftarrow> general_key_ana read_buf (general_key_pos st) (general_key_cnt st) str0;
            (if v = 0 then Some (Inl 5)
             else map_option (\<lambda>q. Inr (st\<lparr>tq := q, general_key_cnt := 0, general_key_pos := 0\<rparr>))
               (finish_token k token_long_key (ucast v) (tq st))) }
          else Some (Inl 6)
      | ts_finish \<Rightarrow> Some (Inr st)) }"

fun token_loop :: "u8 list \<Rightarrow> u8 list \<Rightarrow> nat list \<Rightarrow> ana_st \<Rightarrow> (nat + ana_st) option" where
  "token_loop str0 buf [] st = Some (Inr st)"
| "token_loop str0 buf (i # is) st = do {
     r \<leftarrow> token_step str0 buf i st;
     (case r of Inl e \<Rightarrow> Some (Inl e) | Inr st' \<Rightarrow> token_loop str0 buf is st') }"

definition ana_start :: ana_st where
  "ana_start = \<lparr>tq = token_q_Init, general_key_cnt = 0, general_key_pos = 0\<rparr>"

text \<open>The answer is the error code, or the queue when the code is 0.\<close>

definition token_ana :: "u8 list \<Rightarrow> u8 list \<Rightarrow> nat \<Rightarrow> nat \<Rightarrow> (nat + token_q) option" where
  "token_ana str0 read_buf p0 p1 = do {
     r \<leftarrow> token_loop str0 read_buf [p0..<p1] ana_start;
     (case r of Inl e \<Rightarrow> Some (Inl e)
      | Inr st \<Rightarrow> do {
          t \<leftarrow> rd (queue (tq st)) (unat (lenth (tq st)));
          Some (if tstate t = ts_raw then Inr (tq st) else Inl 7) }) }"

section \<open>Written tokens\<close>

datatype side = BothSides | LeftSide | RightSide

datatype item = Mod side u8 | Colons | Char u8 | Name nat

fun item_text :: "item \<Rightarrow> u8 list" where
  "item_text (Mod BothSides c) = [c]"
| "item_text (Mod LeftSide c) = [of_char CHR ''<'', c]"
| "item_text (Mod RightSide c) = [of_char CHR ''>'', c]"
| "item_text Colons = bytes ''::''"
| "item_text (Char c) = [c]"
| "item_text (Name i) = bytes ''{'' @ bytes (general_key_map ! i) @ bytes ''}''"

fun item_token :: "item \<Rightarrow> token" where
  "item_token (Mod BothSides c) = \<lparr>tclass = token_both_dir_ctrl, content = ucast c, tstate = ts_finish\<rparr>"
| "item_token (Mod LeftSide c) = \<lparr>tclass = token_dir_ctrl, content = 128 OR ucast c, tstate = ts_finish\<rparr>"
| "item_token (Mod RightSide c) = \<lparr>tclass = token_dir_ctrl, content = ucast c, tstate = ts_finish\<rparr>"
| "item_token Colons = \<lparr>tclass = token_colon, content = 58, tstate = ts_finish\<rparr>"
| "item_token (Char c) = \<lparr>tclass = token_key, content = ucast c, tstate = ts_finish\<rparr>"
| "item_token (Name i) = \<lparr>tclass = token_long_key, content = ucast (general_key_value ! i), tstate = ts_finish\<rparr>"

fun item_valid :: "item \<Rightarrow> bool" where
  "item_valid (Mod s c) = mod_symbol c"
| "item_valid Colons = True"
| "item_valid (Char c) = (char_ana c = general_key)"
| "item_valid (Name i) = (1 \<le> i \<and> i < 33)"

definition items_text :: "item list \<Rightarrow> u8 list" where
  "items_text is = concat (map item_text is)"


section \<open>Looking up a name\<close>

lemma key_names_chars: "list_all (\<lambda>s. list_all (\<lambda>c. c \<noteq> 0 \<and> char_ana c = general_key) (bytes s)) general_key_map"
  unfolding general_key_map_def char_ana_def by simp

lemma key_names_length: "list_all (\<lambda>s. length s \<le> 20) general_key_map"
  unfolding general_key_map_def by simp

lemma key_names_distinct: "distinct general_key_map"
  by code_simp

lemma key_names_ok:
  "length general_key_map = 33" "length general_key_value = 33" "list_all (\<lambda>v. v \<noteq> 0) (tl general_key_value)"
  by (simp_all add: general_key_map_def general_key_value_def)

lemma key_name:
  assumes "i < 33"
  shows "0 \<notin> set (bytes (general_key_map ! i))" "\<forall>c \<in> set (bytes (general_key_map ! i)). char_ana c = general_key"
    "length (general_key_map ! i) \<le> 20"
proof -
  have "general_key_map ! i \<in> set general_key_map" using assms key_names_ok(1) by simp
  then show "0 \<notin> set (bytes (general_key_map ! i))" "\<forall>c \<in> set (bytes (general_key_map ! i)). char_ana c = general_key"
    "length (general_key_map ! i) \<le> 20"
    using key_names_chars key_names_length by (fastforce simp: list_all_iff)+
qed

lemma key_value_nonzero: "1 \<le> i \<Longrightarrow> i < 33 \<Longrightarrow> general_key_value ! i \<noteq> 0"
proof -
  assume "1 \<le> i" "i < 33"
  then have i: "general_key_value ! i = tl general_key_value ! (i - 1)" "i - 1 < length (tl general_key_value)"
    using key_names_ok(2) by (auto simp: nth_tl)
  then have "general_key_value ! i \<in> set (tl general_key_value)" by (metis nth_mem)
  then show ?thesis using key_names_ok(3) by (auto simp: list_all_iff)
qed

lemma general_key_scan_name:
  assumes "i < 33"
  shows "j \<le> i \<Longrightarrow> general_key_scan (bytes (general_key_map ! i) @ 0 # x) [j..<132] = Some (general_key_value ! i)"
proof (induction "i - j" arbitrary: j)
  case 0
  then have "j = i" by simp
  then show ?case using assms key_name(1) [OF assms]
    by (simp add: upt_conv_Cons cstring_def strcmp_eq_terminated key_names_ok(1,2))
next
  case (Suc d)
  then have "general_key_map ! j \<noteq> general_key_map ! i"
    using assms key_names_ok(1) key_names_distinct by (metis Suc_neq_Zero diff_self_eq_0 le_neq_implies_less nth_eq_iff_index_eq order_less_trans)
  then have "general_key_scan (bytes (general_key_map ! i) @ 0 # x) [j..<132]
      = general_key_scan (bytes (general_key_map ! i) @ 0 # x) [Suc j..<132]"
    using assms Suc.prems key_name(1) [OF assms] key_name(1) [of j]
    by (simp add: upt_conv_Cons cstring_def strcmp_eq_terminated key_names_ok(1) bytes_inj)
  moreover have "d = i - Suc j" "Suc j \<le> i" using Suc.hyps(2) by simp_all
  ultimately show ?case using Suc.hyps(1) by simp
qed

lemma general_key_ana_name:
  assumes "i < 33" "at buf p (bytes (general_key_map ! i))" "length str0 = 21"
  shows "general_key_ana buf p (length (general_key_map ! i)) str0 = Some (general_key_value ! i)"
proof -
  let ?n = "bytes (general_key_map ! i)"
  have l: "length ?n \<le> 20" using key_name(3) [OF assms(1)] by simp
  have "forM [0..<length ?n] (\<lambda>k s. do { c \<leftarrow> rd buf (p + k); wr s k c }) str0
      = forM [0..<length ?n] (\<lambda>k s. wr s (0 + k) (?n ! k)) str0"
    using assms(2) by (intro forM_cong) (auto simp: at_def)
  also have "\<dots> = Some (overlay str0 0 ?n)" using l assms(3) by (intro forM_fill) simp
  finally have f: "forM [0..<length ?n] (\<lambda>k s. do { c \<leftarrow> rd buf (p + k); wr s k c }) str0 = Some (overlay str0 0 ?n)" .
  have "(overlay str0 0 ?n)[length ?n := 0] = ?n @ 0 # drop (Suc (length ?n)) str0"
    using l assms(3) by (simp add: overlay_def list_update_append Cons_nth_drop_Suc [symmetric])
  with f l assms general_key_scan_name [OF assms(1), of 0] show ?thesis
    by (simp add: general_key_ana_def)
qed

section \<open>The lexer reads what was written\<close>

definition q_holds :: "token list \<Rightarrow> token_q \<Rightarrow> bool" where
  "q_holds ts q \<longleftrightarrow> length ts < 256 \<and> unat (lenth q) = length ts \<and> queue q = ts @ replicate (1024 - length ts) token_Init"

definition ana_clean :: "token list \<Rightarrow> ana_st \<Rightarrow> bool" where
  "ana_clean ts st \<longleftrightarrow> q_holds ts (tq st) \<and> general_key_cnt st = 0"

text \<open>The queue while the next token is under construction.\<close>

definition q_partial :: "token list \<Rightarrow> token \<Rightarrow> token_q \<Rightarrow> bool" where
  "q_partial ts t q \<longleftrightarrow> length ts < 255 \<and> unat (lenth q) = length ts \<and>
     queue q = ts @ t # replicate (1023 - length ts) token_Init"

lemma q_holds_partial: "q_holds ts q \<Longrightarrow> length ts < 255 \<Longrightarrow> q_partial ts token_Init q"
  by (simp add: q_holds_def q_partial_def flip: replicate_Suc)

lemma q_partial_rd: "q_partial ts t q \<Longrightarrow> rd (queue q) (unat (lenth q)) = Some t"
  by (simp add: q_partial_def rd_def nth_append)

lemma q_partial_set:
  "q_partial ts t (tq st) \<Longrightarrow> \<exists>st'. set_token (unat (lenth (tq st))) t' st = Some st' \<and> q_partial ts t' (tq st') \<and>
     general_key_cnt st' = general_key_cnt st \<and> general_key_pos st' = general_key_pos st"
  by (auto simp: q_partial_def set_token_def wr_def list_update_append)

lemma q_partial_finish:
  assumes "q_partial ts t q"
  shows "\<exists>q'. finish_token (unat (lenth q)) cl v q = Some q' \<and> q_holds (ts @ [\<lparr>tclass = cl, content = v, tstate = ts_finish\<rparr>]) q'"
proof -
  have "unat (lenth q + 1) = Suc (unat (lenth q))"
    using assms by (simp add: q_partial_def unat_word_ariths)
  with assms show ?thesis by (auto simp: q_partial_def q_holds_def finish_token_def wr_def list_update_append)
qed


lemma token_loop_append:
  "token_loop str0 buf (xs @ ys) st = do { r \<leftarrow> token_loop str0 buf xs st;
     (case r of Inl e \<Rightarrow> Some (Inl e) | Inr st' \<Rightarrow> token_loop str0 buf ys st') }"
  by (induction xs arbitrary: st) (auto split: Option.bind_splits sum.split)

text \<open>A character that finishes the token, and one that only changes its state.\<close>

lemma step_finish:
  assumes "q_partial ts t (tq st)" "general_key_cnt st = 0" "rd buf p = Some c"
    and "tstate t = ts_raw \<and> char_ana c = ctrl_key \<and> cl = token_both_dir_ctrl \<and> v = ucast c \<or>
      tstate t = ts_raw \<and> char_ana c = general_key \<and> cl = token_key \<and> v = ucast c \<or>
      tstate t = ts_wait_ctrl_key \<and> char_ana c = ctrl_key \<and> cl = token_dir_ctrl \<and> v = content t OR ucast c \<or>
      tstate t = ts_wait_2nd_colon \<and> char_ana c = colon \<and> cl = token_colon \<and> v = ucast c"
  shows "\<exists>st'. token_step str0 buf p st = Some (Inr st') \<and>
    ana_clean (ts @ [\<lparr>tclass = cl, content = v, tstate = ts_finish\<rparr>]) st'"
proof -
  obtain q where "finish_token (unat (lenth (tq st))) cl v (tq st) = Some q"
    "q_holds (ts @ [\<lparr>tclass = cl, content = v, tstate = ts_finish\<rparr>]) q"
    using q_partial_finish [OF assms(1)] by blast
  with assms q_partial_rd [OF assms(1)] show ?thesis
    by (intro exI [of _ "st\<lparr>tq := q\<rparr>"]) (auto simp: token_step_def ana_clean_def)
qed

lemma step_state:
  assumes "q_partial ts token_Init (tq st)" "rd buf p = Some c"
    and "char_ana c = angle \<and> t' = token_Init\<lparr>tstate := ts_wait_ctrl_key, content := (if c = of_char CHR ''<'' then 128 else 0)\<rparr> \<or>
      char_ana c = colon \<and> t' = token_Init\<lparr>tstate := ts_wait_2nd_colon\<rparr> \<or>
      char_ana c = brace \<and> t' = token_Init\<lparr>tstate := ts_wait_key_value\<rparr>"
  shows "\<exists>st'. token_step str0 buf p st = Some (Inr st') \<and> q_partial ts t' (tq st') \<and>
    general_key_cnt st' = general_key_cnt st \<and> general_key_pos st' = general_key_pos st"
proof -
  obtain st' where st': "set_token (unat (lenth (tq st))) t' st = Some st'" "q_partial ts t' (tq st')"
    "general_key_cnt st' = general_key_cnt st" "general_key_pos st' = general_key_pos st"
    using q_partial_set [OF assms(1)] by blast
  have "tstate token_Init = ts_raw" "content token_Init = 0" by (simp_all add: token_Init_def)
  with st' assms q_partial_rd [OF assms(1)] show ?thesis
    by (intro exI [of _ st']) (auto simp: token_step_def)
qed

lemma name_loop:
  assumes "q_partial ts t (tq st)" "tstate t = ts_wait_key_value" "at buf (b + general_key_cnt st) cs"
    and "\<forall>c \<in> set cs. char_ana c = general_key" "general_key_cnt st + length cs \<le> 20"
    and "general_key_cnt st = 0 \<or> general_key_pos st = b"
  shows "\<exists>st'. token_loop str0 buf [b + general_key_cnt st..<b + general_key_cnt st + length cs] st = Some (Inr st') \<and>
    tq st' = tq st \<and> general_key_cnt st' = general_key_cnt st + length cs \<and> (cs \<noteq> [] \<longrightarrow> general_key_pos st' = b)"
  using assms
proof (induction cs arbitrary: st)
  case Nil
  then show ?case by simp
next
  case (Cons c cs)
  let ?n = "general_key_cnt st"
  let ?st1 = "st\<lparr>general_key_pos := b, general_key_cnt := Suc ?n\<rparr>"
  have "token_step str0 buf (b + ?n) st = Some (Inr ?st1)"
    using Cons.prems q_partial_rd [OF Cons.prems(1)] by (auto simp: token_step_def Let_def)
  moreover have "\<exists>st'. token_loop str0 buf [b + Suc ?n..<b + Suc ?n + length cs] ?st1 = Some (Inr st') \<and>
      tq st' = tq st \<and> general_key_cnt st' = Suc ?n + length cs \<and> (cs \<noteq> [] \<longrightarrow> general_key_pos st' = b)"
    using Cons.prems Cons.IH [of ?st1] by simp
  then obtain st' where st': "token_loop str0 buf [b + Suc ?n..<b + Suc ?n + length cs] ?st1 = Some (Inr st')"
      "tq st' = tq st" "general_key_cnt st' = Suc ?n + length cs" "cs \<noteq> [] \<longrightarrow> general_key_pos st' = b" by blast
  moreover have "cs = [] \<Longrightarrow> st' = ?st1" using st'(1) by simp
  moreover have "[b + ?n..<b + ?n + length (c # cs)] = (b + ?n) # [b + Suc ?n..<b + Suc ?n + length cs]"
    by (subst upt_conv_Cons) simp_all
  ultimately show ?case by (intro exI [of _ st']) (cases cs; simp)
qed

lemma mod_symbol_class: "mod_symbol c \<Longrightarrow> char_ana c = ctrl_key"
  by (auto simp: mod_symbol_def char_ana_def)

lemma token_loop_name:
  assumes clean: "ana_clean ts st" "length ts < 255" and i: "1 \<le> i" "i < 33"
    and tx: "at buf p (item_text (Name i))" and str: "length str0 = 21"
  shows "\<exists>st'. token_loop str0 buf [p..<p + length (item_text (Name i))] st = Some (Inr st') \<and>
    ana_clean (ts @ [item_token (Name i)]) st'"
proof -
  let ?n = "bytes (general_key_map ! i)" let ?len = "length (general_key_map ! i)"
  let ?t = "token_Init\<lparr>tstate := ts_wait_key_value\<rparr>"
  have q0: "q_partial ts token_Init (tq st)" and c0: "general_key_cnt st = 0"
    using clean q_holds_partial by (auto simp: ana_clean_def)
  have t: "rd buf p = Some (of_char CHR ''{'')" "at buf (Suc p) ?n" "rd buf (Suc p + ?len) = Some (of_char CHR ''}'')"
    using tx by simp_all
  obtain st1 where st1: "token_step str0 buf p st = Some (Inr st1)" "q_partial ts ?t (tq st1)" "general_key_cnt st1 = 0"
    using step_state [OF q0 t(1), of ?t str0] c0 by (auto simp: char_ana_def)
  have ne: "?n \<noteq> []"
    using i key_names_ok(1) key_names_distinct nth_eq_iff_index_eq [OF key_names_distinct, of 0 i]
    by (auto simp: general_key_map_def bytes_def)
  obtain st2 where st2: "token_loop str0 buf [Suc p..<Suc p + ?len] st1 = Some (Inr st2)" "tq st2 = tq st1"
    "general_key_cnt st2 = ?len" "general_key_pos st2 = Suc p"
    using name_loop [OF st1(2), of buf "Suc p" ?n str0] st1(3) t(2) key_name [OF i(2)] ne by auto
  have v: "general_key_ana buf (Suc p) ?len str0 = Some (general_key_value ! i)"
    by (rule general_key_ana_name [OF i(2) t(2) str])
  obtain q where q: "finish_token (unat (lenth (tq st2))) token_long_key (ucast (general_key_value ! i)) (tq st2) = Some q"
    "q_holds (ts @ [item_token (Name i)]) q"
    using q_partial_finish [of ts ?t "tq st2" token_long_key "ucast (general_key_value ! i)"] st1(2) st2(2) by auto
  let ?st3 = "st2\<lparr>tq := q, general_key_cnt := 0, general_key_pos := 0\<rparr>"
  have "char_ana (of_char CHR ''}'') = brace" by (simp add: char_ana_def)
  then have s3: "token_step str0 buf (Suc p + ?len) st2 = Some (Inr ?st3)"
    using t(3) q_partial_rd [OF st1(2)] st2 v q(1) key_value_nonzero [OF i] by (simp add: token_step_def)
  have "[p..<p + length (item_text (Name i))] = p # [Suc p..<Suc p + ?len] @ [Suc p + ?len]"
    by (subst upt_conv_Cons) simp_all
  then have "token_loop str0 buf [p..<p + length (item_text (Name i))] st = Some (Inr ?st3)"
    using st1(1) st2(1) s3 by (simp add: token_loop_append)
  then show ?thesis using q(2) by (auto simp: ana_clean_def)
qed

lemma token_loop_item:
  assumes clean: "ana_clean ts st" "length ts < 255" and v: "item_valid it"
    and tx: "at buf p (item_text it)" and str: "length str0 = 21"
  shows "\<exists>st'. token_loop str0 buf [p..<p + length (item_text it)] st = Some (Inr st') \<and>
    ana_clean (ts @ [item_token it]) st'"
proof -
  have q0: "q_partial ts token_Init (tq st)" and c0: "general_key_cnt st = 0"
    using clean q_holds_partial by (auto simp: ana_clean_def)
  have raw: "tstate token_Init = ts_raw" by (simp add: token_Init_def)
  consider (Name) i where "it = Name i" | (Char) c where "it = Char c" | (Both) c where "it = Mod BothSides c"
    | (Two) c1 c2 t' cl where "item_text it = [c1, c2]" "item_token it = \<lparr>tclass = cl, content = content t' OR ucast c2, tstate = ts_finish\<rparr>"
        "char_ana c1 = angle \<and> t' = token_Init\<lparr>tstate := ts_wait_ctrl_key, content := (if c1 = of_char CHR ''<'' then 128 else 0)\<rparr>
          \<and> char_ana c2 = ctrl_key \<and> cl = token_dir_ctrl \<or>
         char_ana c1 = colon \<and> t' = token_Init\<lparr>tstate := ts_wait_2nd_colon\<rparr> \<and> char_ana c2 = colon \<and> cl = token_colon"
  proof (cases it)
    case (Mod s c)
    then show ?thesis using v that(3) that(4) mod_symbol_class [of c]
      by (cases s) (auto simp: char_ana_def token_Init_def)
  next
    case Colons
    then show ?thesis using that(4) [of 58 58 token_colon "token_Init\<lparr>tstate := ts_wait_2nd_colon\<rparr>"]
      by (auto simp: char_ana_def token_Init_def)
  qed (use that in auto)
  then show ?thesis
  proof cases
    case Name
    then show ?thesis using token_loop_name [OF clean _ _ _ str, of i buf p] v tx by simp
  next
    case Char
    then show ?thesis using step_finish [OF q0 c0, of buf p c token_key "ucast c" str0] v tx raw by (auto simp: upt_conv_Cons)
  next
    case Both
    then show ?thesis using step_finish [OF q0 c0, of buf p c token_both_dir_ctrl "ucast c" str0] v tx raw mod_symbol_class [of c]
      by (auto simp: upt_conv_Cons)
  next
    case Two
    then have t: "rd buf p = Some c1" "rd buf (Suc p) = Some c2" using tx by simp_all
    obtain st1 where st1: "token_step str0 buf p st = Some (Inr st1)" "q_partial ts t' (tq st1)" "general_key_cnt st1 = 0"
      using step_state [OF q0 t(1), of t' str0] Two(3) c0 by auto
    obtain st2 where "token_step str0 buf (Suc p) st1 = Some (Inr st2)" "ana_clean (ts @ [item_token it]) st2"
      using step_finish [OF st1(2,3) t(2), of cl "content t' OR ucast c2" str0] Two(2,3) by (auto simp: token_Init_def)
    then show ?thesis using st1(1) Two(1) by (auto simp: upt_conv_Cons)
  qed
qed


lemma token_loop_items:
  assumes "length str0 = 21" "ana_clean ts st" "length ts + length is < 256" "\<forall>it \<in> set is. item_valid it"
    and "at buf p (items_text is)"
  shows "\<exists>st'. token_loop str0 buf [p..<p + length (items_text is)] st = Some (Inr st') \<and>
    ana_clean (ts @ map item_token is) st'"
  using assms(2-)
proof (induction "is" arbitrary: ts st p)
  case Nil
  then show ?case by (simp add: items_text_def)
next
  case (Cons it "is")
  let ?n = "length (item_text it)"
  have t: "items_text (it # is) = item_text it @ items_text is" by (simp add: items_text_def)
  obtain st1 where st1: "token_loop str0 buf [p..<p + ?n] st = Some (Inr st1)" "ana_clean (ts @ [item_token it]) st1"
    using token_loop_item [OF Cons.prems(1) _ _ _ assms(1), of it buf p] Cons.prems t by auto
  obtain st2 where "token_loop str0 buf [p + ?n..<p + ?n + length (items_text is)] st1 = Some (Inr st2)"
    "ana_clean ((ts @ [item_token it]) @ map item_token is) st2"
    using Cons.IH [OF st1(2), of "p + ?n"] Cons.prems t by auto
  moreover have "[p..<p + length (items_text (it # is))] = [p..<p + ?n] @ [p + ?n..<p + ?n + length (items_text is)]"
    unfolding t by (metis add.assoc le_add1 length_append upt_add_eq_append)
  ultimately show ?case using st1(1) by (simp add: token_loop_append)
qed

lemma token_ana_items:
  assumes "length str0 = 21" "length is < 256" "\<forall>it \<in> set is. item_valid it" "at buf p (items_text is)"
  shows "\<exists>q. token_ana str0 buf p (p + length (items_text is)) = Some (Inr q) \<and> q_holds (map item_token is) q"
proof -
  have "ana_clean [] ana_start" by (simp add: ana_clean_def ana_start_def token_q_Init_def q_holds_def)
  then obtain st where st: "token_loop str0 buf [p..<p + length (items_text is)] ana_start = Some (Inr st)"
    "ana_clean (map item_token is) st"
    using token_loop_items [OF assms(1), of "[]" ana_start "is" buf p] assms by auto
  then have q: "q_holds (map item_token is) (tq st)" by (simp add: ana_clean_def)
  then have "rd (queue (tq st)) (unat (lenth (tq st))) = Some token_Init"
    using assms(2) by (simp add: q_holds_def rd_def nth_append)
  with st q show ?thesis by (auto simp: token_ana_def token_Init_def)
qed

section \<open>Properties\<close>

text \<open>
  Property C7 (token_ana_roundtrip): the lexer reads back what is written. For every list of at most
  255 items (modifiers with or without a side, double colons, plain characters, names in braces),
  token_ana on their text, anywhere in the file buffer, answers success with exactly the tokens of
  these items, in order, whatever the name buffer held before.
\<close>

theorem token_ana_roundtrip:
  assumes "length str0 = 21" "length is < 256" "\<forall>it \<in> set is. item_valid it"
  shows "\<exists>q. token_ana str0 (pre @ items_text is @ post) (length pre) (length pre + length (items_text is)) = Some (Inr q) \<and>
    unat (lenth q) = length is \<and> take (length is) (queue q) = map item_token is"
proof -
  have "at (pre @ items_text is @ post) (length pre) (items_text is)"
    by (simp add: at_def rd_def nth_append)
  from token_ana_items [OF assms this] show ?thesis by (auto simp: q_holds_def)
qed

definition demo_items :: "item list" where
  "demo_items = [Mod LeftSide 33, Mod BothSides 94, Char 107, Colons, Char 97, Name 4]"

lemma demo_items_text: "items_text demo_items = bytes ''<!^k::a{tab}''"
  by (simp add: demo_items_def items_text_def general_key_map_def)

lemma demo_items_valid: "\<forall>it \<in> set demo_items. item_valid it" "length demo_items = 6"
  by (simp_all add: demo_items_def mod_symbol_def char_ana_def)

theorem token_ana_roundtrip_witness:
  "\<exists>q. token_ana (replicate 21 0) (bytes ''<!^k::a{tab}'') 0 12 = Some (Inr q) \<and> unat (lenth q) = 6"
proof -
  have "length (items_text demo_items) = 12" unfolding demo_items_text by simp
  with token_ana_roundtrip [of "replicate 21 0" demo_items "[]" "[]"] demo_items_valid
  have "\<exists>q. token_ana (replicate 21 0) (items_text demo_items) 0 12 = Some (Inr q) \<and> unat (lenth q) = 6" by auto
  then show ?thesis by (simp only: demo_items_text)
qed

end
