(* ===== verification/Ahk_Mode.thy ===== *)
theory Ahk_Mode
  imports Ahk_Lexer Hotkey_Pool
begin

text \<open>
  The hotkey script (mode_line_process and key_mode_process of src/APP/ahk_analyser.c): a line is
  modifiers, a key, a double colon and the keys to type. The block under construction is a static
  variable, so a line can leave it unfinished for the next one.
\<close>

section \<open>Data\<close>

datatype block_state = block_raw | contrl_key_gotton | full_quick_key_gotton | colon_gotton

record block_info =
  bfilter :: ctrl_filter
  bstate :: block_state

definition block_Init :: block_info where
  "block_Init = \<lparr>bfilter = filter_Init, bstate = block_raw\<rparr>"

record ahk_st =
  block :: block_info
  line_cnt :: nat
  ahk_pool :: cap_pool

definition token2usb :: "token \<Rightarrow> u16 option" where
  "token2usb t = (if tclass t = token_key then char2usb (unat (content t)) else Some (ucast (content t)))"

section \<open>One line\<close>

definition add_mask :: "u8 \<Rightarrow> ctrl_filter \<Rightarrow> ctrl_filter option" where
  "add_mask m f = do { ms \<leftarrow> wr (control_filter f) (control_filter_cnt f) m;
     Some (f\<lparr>control_filter := ms, control_filter_cnt := control_filter_cnt f + 1\<rparr>) }"

text \<open>How a round of the token loop ends: go on, leave the loop, or return the error code 1.\<close>

datatype mode_res = Next ahk_st | End ahk_st | Return1 ahk_st

definition is_key_token :: "token \<Rightarrow> bool" where
  "is_key_token t \<longleftrightarrow> tclass t = token_key \<or> tclass t = token_long_key"

text \<open>The states block_raw and contrl_key_gotton: block_raw falls through after block_Init.\<close>

definition mode_quick_key :: "token \<Rightarrow> block_info \<Rightarrow> block_info option" where
  "mode_quick_key t b =
     (if tclass t = token_both_dir_ctrl then do {
        let m = control_key_decode (ucast (content t));
        f \<leftarrow> add_mask (m OR push_bit 4 m) (bfilter b);
        Some \<lparr>bfilter = f, bstate = contrl_key_gotton\<rparr> }
      else if tclass t = token_dir_ctrl then do {
        let m = control_key_decode (ucast (content t AND 127));
        f \<leftarrow> add_mask (if content t AND 128 \<noteq> 0 then m else push_bit 4 m) (bfilter b);
        Some \<lparr>bfilter = f, bstate = contrl_key_gotton\<rparr> }
      else if bstate b = block_raw then Some b
      else if is_key_token t then do {
        u \<leftarrow> token2usb t;
        Some \<lparr>bfilter = (bfilter b)\<lparr>filter_key := ucast u\<rparr>, bstate = full_quick_key_gotton\<rparr> }
      else Some b)"

text \<open>
  The state colon_gotton at token i: all remaining tokens must be keys, and their codes become the
  string of a new hotkey.
\<close>

definition mode_action :: "token list \<Rightarrow> nat \<Rightarrow> nat \<Rightarrow> ahk_st \<Rightarrow> mode_res option" where
  "mode_action q n i st =
     (if n \<le> length q then
       if list_all is_key_token (drop i (take n q)) then do {
         codes \<leftarrow> those (map token2usb (drop i (take n q)));
         pool' \<leftarrow> key_cap_add (cap_zero\<lparr>cap_filter := bfilter (block st), key_exe := press_string_fn,
             cap_string := codes, string_lenth := n - i\<rparr>) (ahk_pool st);
         Some (End (st\<lparr>ahk_pool := pool', block := (block st)\<lparr>bstate := block_raw\<rparr>\<rparr>)) }
       else Some (Return1 st)
      else None)"

definition mode_step :: "token list \<Rightarrow> nat \<Rightarrow> nat \<Rightarrow> ahk_st \<Rightarrow> mode_res option" where
  "mode_step q n i st = do {
     t \<leftarrow> rd q i;
     (case bstate (block st) of
        block_raw \<Rightarrow> do { b \<leftarrow> mode_quick_key t block_Init; Some (Next (st\<lparr>block := b\<rparr>)) }
      | contrl_key_gotton \<Rightarrow> do { b \<leftarrow> mode_quick_key t (block st); Some (Next (st\<lparr>block := b\<rparr>)) }
      | full_quick_key_gotton \<Rightarrow> Some (Next (if tclass t \<noteq> token_colon then st
          else st\<lparr>block := (block st)\<lparr>bstate := colon_gotton\<rparr>\<rparr>))
      | colon_gotton \<Rightarrow> mode_action q n i st) }"

fun mode_loop :: "token list \<Rightarrow> nat \<Rightarrow> nat list \<Rightarrow> ahk_st \<Rightarrow> mode_res option" where
  "mode_loop q n [] st = Some (End st)"
| "mode_loop q n (i # is) st = do {
     r \<leftarrow> mode_step q n i st;
     (case r of Next st' \<Rightarrow> mode_loop q n is st' | End st' \<Rightarrow> Some (End st') | Return1 st' \<Rightarrow> Some (Return1 st')) }"

text \<open>The answer is the return code; str0 is the uninitialised name buffer of general_key_ana.\<close>

definition mode_line_process :: "u8 list \<Rightarrow> u8 list \<Rightarrow> nat \<Rightarrow> nat \<Rightarrow> ahk_st \<Rightarrow> (nat \<times> ahk_st) option" where
  "mode_line_process str0 read_buf p0 p1 st = do {
     c \<leftarrow> rd read_buf p0;
     (if c = of_char CHR '';'' then Some (0, st\<lparr>line_cnt := line_cnt st + 1\<rparr>)
      else do {
        r \<leftarrow> token_ana str0 read_buf p0 p1;
        (case r of
           Inl e \<Rightarrow> Some (1, st)
         | Inr q \<Rightarrow> do {
             m \<leftarrow> mode_loop (queue q) (unat (lenth q)) [0..<unat (lenth q)] st;
             (case m of
                Return1 st' \<Rightarrow> Some (1, st')
              | Next st' \<Rightarrow> Some (0, st'\<lparr>line_cnt := line_cnt st' + 1\<rparr>)
              | End st' \<Rightarrow> Some (0, st'\<lparr>line_cnt := line_cnt st' + 1\<rparr>)) }) }) }"

section \<open>The file\<close>

definition to_lower :: "u8 \<Rightarrow> u8" where
  "to_lower c = (if 65 \<le> c \<and> c \<le> 90 then c + 32 else c)"

definition kept :: "u8 \<Rightarrow> bool" where
  "kept c \<longleftrightarrow> c \<noteq> 13 \<and> c \<noteq> 32 \<and> c \<noteq> 9"

text \<open>The first pass drops blanks and carriage returns and lowers letters, in place.\<close>

definition mode_strip :: "u8 list \<Rightarrow> nat \<Rightarrow> (u8 list \<times> nat) option" where
  "mode_strip read_buf sz = forM [0..<sz] (\<lambda>i (b, w). do {
     c \<leftarrow> rd b i;
     (if kept c then do { b' \<leftarrow> wr b w (to_lower c); Some (b', w + 1) } else Some (b, w)) }) (read_buf, 0)"

record lines_st =
  read_state :: nat
  line_ptr0 :: nat
  lines_ahk :: ahk_st

text \<open>
  The second pass, at index i of the stripped text of length w: a line starts at the first
  character that is not a newline and ends at the next newline.
\<close>

definition mode_char :: "u8 list \<Rightarrow> u8 list \<Rightarrow> nat \<Rightarrow> nat \<Rightarrow> lines_st \<Rightarrow> lines_st option" where
  "mode_char str0 b w i s =
     (if i = w then Some s
      else if read_state s = 0 then do {
        c \<leftarrow> rd b i;
        Some (if c \<noteq> 10 then s\<lparr>line_ptr0 := i, read_state := 1\<rparr> else s) }
      else do {
        c \<leftarrow> rd b i;
        (if c = 10 then do {
           (_, st) \<leftarrow> mode_line_process str0 b (line_ptr0 s) i (lines_ahk s);
           Some (s\<lparr>read_state := 0, lines_ahk := st\<rparr>) }
         else Some s) })"

text \<open>It always answers 0; an unfinished last line is only reported.\<close>

definition key_mode_process :: "u8 list \<Rightarrow> u8 list \<Rightarrow> nat \<Rightarrow> ahk_st \<Rightarrow> (nat \<times> u8 list \<times> ahk_st) option" where
  "key_mode_process str0 read_buf sz st = do {
     (b, w) \<leftarrow> mode_strip read_buf sz;
     s \<leftarrow> forM [0..<w + 1] (mode_char str0 b w) \<lparr>read_state = 0, line_ptr0 = 0, lines_ahk = st\<rparr>;
     Some (0, b, lines_ahk s) }"

section \<open>Lines\<close>

text \<open>A hotkey line: modifiers, a key, and the keys to type.\<close>

record hotkey_line =
  l_mods :: "(side \<times> u8) list"
  l_key :: item
  l_keys :: "item list"

definition line_items :: "hotkey_line \<Rightarrow> item list" where
  "line_items l = map (\<lambda>(s, c). Mod s c) (l_mods l) @ [l_key l, Colons] @ l_keys l"

fun side_dir :: "side \<Rightarrow> u8" where
  "side_dir BothSides = 0"
| "side_dir LeftSide = 1"
| "side_dir RightSide = 2"

fun key_item :: "item \<Rightarrow> bool" where
  "key_item (Char c) = (char_ana c = general_key \<and> c < 128)"
| "key_item (Name i) = (1 \<le> i \<and> i < 33)"
| "key_item _ = False"

definition item_code :: "item \<Rightarrow> u16" where
  "item_code it = the (token2usb (item_token it))"

definition line_ok :: "hotkey_line \<Rightarrow> bool" where
  "line_ok l \<longleftrightarrow> l_mods l \<noteq> [] \<and> length (l_mods l) \<le> 7 \<and> (\<forall>(s, c) \<in> set (l_mods l). mod_symbol c) \<and>
     key_item (l_key l) \<and> l_keys l \<noteq> [] \<and> (\<forall>k \<in> set (l_keys l). key_item k) \<and> length (line_items l) < 256"

definition line_masks :: "hotkey_line \<Rightarrow> u8 list" where
  "line_masks l = map (\<lambda>(s, c). mod_mask (side_dir s, c)) (l_mods l)"

text \<open>The hotkey the line asks for.\<close>

definition line_cap :: "hotkey_line \<Rightarrow> cap" where
  "line_cap l = cap_zero\<lparr>
     cap_filter := \<lparr>control_filter = line_masks l @ replicate (8 - length (l_mods l)) 0,
       control_filter_cnt = length (l_mods l), filter_key = ucast (item_code (l_key l))\<rparr>,
     key_exe := press_string_fn, cap_string := map item_code (l_keys l), string_lenth := length (l_keys l)\<rparr>"


lemma key_item_token:
  assumes "key_item it"
  shows "is_key_token (item_token it)" "token2usb (item_token it) = Some (item_code it)" "item_valid it"
proof -
  show "is_key_token (item_token it)" "item_valid it"
    using assms by (cases it; simp add: is_key_token_def)+
  show "token2usb (item_token it) = Some (item_code it)"
  proof (cases it)
    case (Char c)
    then have "unat c < 128" using assms by (simp add: word_less_nat_alt)
    then show ?thesis using Char by (simp add: item_code_def token2usb_def char2usb_def)
  qed (use assms in \<open>auto simp: item_code_def token2usb_def\<close>)
qed

lemma those_codes: "\<forall>k \<in> set ks. key_item k \<Longrightarrow>
  those (map token2usb (map item_token ks)) = Some (map item_code ks)"
  by (induction ks) (auto simp: key_item_token(2))

text \<open>The block after the modifiers with masks ms.\<close>

definition mod_block :: "u8 list \<Rightarrow> block_info" where
  "mod_block ms = \<lparr>bfilter = \<lparr>control_filter = ms @ replicate (8 - length ms) 0, control_filter_cnt = length ms,
     filter_key = 0\<rparr>, bstate = (if ms = [] then block_raw else contrl_key_gotton)\<rparr>"

lemma mod_block_Nil: "mod_block [] = block_Init"
  by (simp add: mod_block_def block_Init_def filter_Init_def)

lemma mode_quick_mod:
  assumes "mod_symbol c" "length ms < 8"
  shows "mode_quick_key (item_token (Mod s c)) (mod_block ms) = Some (mod_block (ms @ [mod_mask (side_dir s, c)]))"
proof -
  obtain k where k: "8 - length ms = Suc k" "8 - Suc (length ms) = k"
    using assms(2) by (cases "8 - length ms") auto
  have upd: "(ms @ replicate (8 - length ms) (0 :: u8))[length ms := m] = (ms @ [m]) @ replicate (8 - length (ms @ [m])) 0" for m
    using k by (simp add: list_update_append)
  have add: "add_mask m (bfilter (mod_block ms)) = Some (bfilter (mod_block (ms @ [m])))" for m
    using assms(2) by (simp add: add_mask_def mod_block_def upd del: append_assoc)
  have mb: "\<lparr>bfilter = bfilter (mod_block (ms @ [m])), bstate = contrl_key_gotton\<rparr> = mod_block (ms @ [m])" for m
    by (simp add: mod_block_def)
  show ?thesis
    using assms(1) by (cases s) (auto simp: mod_symbol_def mode_quick_key_def add mb mod_mask_def dir_mask_def
        control_key_decode_def Let_def)
qed

lemma mode_loop_next:
  "i < n \<Longrightarrow> mode_step q n i st = Some (Next st') \<Longrightarrow> mode_loop q n [i..<n] st = mode_loop q n [Suc i..<n] st'"
  by (simp add: upt_conv_Cons)

text \<open>The state in which the masks ms have been read; at the start of a line the old filter does not matter.\<close>

definition reads_mods :: "u8 list \<Rightarrow> ahk_st \<Rightarrow> bool" where
  "reads_mods ms st \<longleftrightarrow> (if ms = [] then bstate (block st) = block_raw else block st = mod_block ms)"

lemma mode_step_mod:
  assumes "reads_mods ms st" "rd q i = Some (item_token (Mod s c))" "mod_symbol c" "length ms < 8"
  shows "mode_step q n i st = Some (Next (st\<lparr>block := mod_block (ms @ [mod_mask (side_dir s, c)])\<rparr>))"
proof (cases "ms = []")
  case True
  then show ?thesis
    using assms mode_quick_mod [OF assms(3), of "[]" s] by (simp add: mode_step_def reads_mods_def mod_block_Nil)
next
  case False
  then have "bstate (block st) = contrl_key_gotton" "block st = mod_block ms"
    using assms(1) by (simp_all add: reads_mods_def mod_block_def)
  then show ?thesis using assms mode_quick_mod [OF assms(3,4), of s] by (simp add: mode_step_def)
qed

lemma mode_loop_mods:
  assumes "reads_mods ms st" "at q i (map (\<lambda>(s, c). item_token (Mod s c)) mods)" "\<forall>(s, c) \<in> set mods. mod_symbol c"
    and "length ms + length mods \<le> 8" "i + length mods \<le> n" "mods \<noteq> []"
  shows "mode_loop q n [i..<n] st = mode_loop q n [i + length mods..<n]
     (st\<lparr>block := mod_block (ms @ map (\<lambda>(s, c). mod_mask (side_dir s, c)) mods)\<rparr>)"
  using assms
proof (induction mods arbitrary: ms st i)
  case Nil
  then show ?case by simp
next
  case (Cons m mods)
  obtain s c where m: "m = (s, c)" by fastforce
  let ?ms = "ms @ [mod_mask (side_dir s, c)]" let ?st1 = "st\<lparr>block := mod_block ?ms\<rparr>"
  have 1: "mode_loop q n [i..<n] st = mode_loop q n [Suc i..<n] ?st1"
    using Cons.prems m by (intro mode_loop_next mode_step_mod) auto
  show ?case
  proof (cases "mods = []")
    case True
    then show ?thesis using 1 m by simp
  next
    case False
    have "reads_mods ?ms ?st1" by (simp add: reads_mods_def)
    then show ?thesis using 1 m Cons.IH [of ?ms ?st1 "Suc i"] Cons.prems False by simp
  qed
qed

text \<open>From the modifiers on: the key and the colons; then the action.\<close>

definition head_ok :: "hotkey_line \<Rightarrow> bool" where
  "head_ok l \<longleftrightarrow> l_mods l \<noteq> [] \<and> length (l_mods l) \<le> 7 \<and> (\<forall>(s, c) \<in> set (l_mods l). mod_symbol c) \<and>
     key_item (l_key l)"

definition head_block :: "hotkey_line \<Rightarrow> block_info" where
  "head_block l = \<lparr>bfilter = (bfilter (mod_block (line_masks l)))\<lparr>filter_key := ucast (item_code (l_key l))\<rparr>,
     bstate = colon_gotton\<rparr>"

lemma queue_items:
  assumes "take n q = map item_token (line_items l)" "n = length (line_items l)" "n \<le> length q" "i < n"
  shows "rd q i = Some (item_token (line_items l ! i))"
  using assms by (metis le_trans less_imp_le_nat nth_map nth_take order_less_le_trans rd_in)

lemma mode_loop_head:
  assumes ok: "head_ok l" and raw: "bstate (block st) = block_raw"
    and q: "take n q = map item_token (line_items l)" "n = length (line_items l)" "n \<le> length q"
  shows "mode_loop q n [0..<n] st = mode_loop q n [length (l_mods l) + 2..<n] (st\<lparr>block := head_block l\<rparr>)"
proof -
  let ?m = "length (l_mods l)" let ?ms = "line_masks l"
  have len: "n = ?m + 2 + length (l_keys l)" "0 < ?m" "?m \<le> 7" using ok q(2) by (simp_all add: line_items_def head_ok_def)
  note nth = queue_items [OF q]
  have tk: "at q 0 (map (\<lambda>(s, c). item_token (Mod s c)) (l_mods l))"
    using nth len by (auto simp: at_def line_items_def nth_append split: prod.splits)
  have "mode_loop q n [0..<n] st = mode_loop q n [?m..<n] (st\<lparr>block := mod_block ?ms\<rparr>)"
    using mode_loop_mods [OF _ tk, of "[]" st n] ok raw len by (auto simp: head_ok_def reads_mods_def line_masks_def)
  moreover
  let ?b1 = "\<lparr>bfilter = (bfilter (mod_block ?ms))\<lparr>filter_key := ucast (item_code (l_key l))\<rparr>, bstate = full_quick_key_gotton\<rparr>"
  have key: "key_item (l_key l)" using ok by (simp add: head_ok_def)
  have t1: "rd q ?m = Some (item_token (l_key l))" using nth [of ?m] len by (simp add: line_items_def nth_append)
  have nm: "tclass (item_token (l_key l)) \<noteq> token_both_dir_ctrl" "tclass (item_token (l_key l)) \<noteq> token_dir_ctrl"
    using key by (cases "l_key l"; simp)+
  have "mode_step q n ?m (st\<lparr>block := mod_block ?ms\<rparr>) = Some (Next (st\<lparr>block := ?b1\<rparr>))"
    using t1 key_item_token [OF key] nm len by (simp add: mode_step_def mod_block_def line_masks_def mode_quick_key_def)
  then have "mode_loop q n [?m..<n] (st\<lparr>block := mod_block ?ms\<rparr>) = mode_loop q n [Suc ?m..<n] (st\<lparr>block := ?b1\<rparr>)"
    using len by (intro mode_loop_next) simp_all
  moreover
  have "rd q (Suc ?m) = Some (item_token Colons)" using nth [of "Suc ?m"] len by (simp add: line_items_def nth_append)
  then have "mode_step q n (Suc ?m) (st\<lparr>block := ?b1\<rparr>) = Some (Next (st\<lparr>block := head_block l\<rparr>))"
    by (simp add: mode_step_def head_block_def)
  then have "mode_loop q n [Suc ?m..<n] (st\<lparr>block := ?b1\<rparr>) = mode_loop q n [?m + 2..<n] (st\<lparr>block := head_block l\<rparr>)"
    using len by (subst mode_loop_next) simp_all
  ultimately show ?thesis by simp
qed

lemma line_head_ok: "line_ok l \<Longrightarrow> head_ok l"
  by (simp add: line_ok_def head_ok_def)

lemma mode_loop_line:
  assumes ok: "line_ok l" and raw: "bstate (block st) = block_raw"
    and q: "take n q = map item_token (line_items l)" "n = length (line_items l)" "n \<le> length q"
    and add: "key_cap_add (line_cap l) (ahk_pool st) = Some pool'"
  shows "\<exists>st'. mode_loop q n [0..<n] st = Some (End st') \<and> ahk_pool st' = pool' \<and>
    bstate (block st') = block_raw \<and> line_cnt st' = line_cnt st"
proof -
  let ?m = "length (l_mods l)" let ?b2 = "head_block l"
  have len: "n = ?m + 2 + length (l_keys l)" "0 < length (l_keys l)"
    using ok q(2) by (simp_all add: line_items_def line_ok_def)
  have dr: "drop (?m + 2) (take n q) = map item_token (l_keys l)" by (simp add: q(1) line_items_def drop_map)
  have keys: "\<forall>k \<in> set (l_keys l). key_item k" using ok by (simp add: line_ok_def)
  have cap: "cap_zero\<lparr>cap_filter := bfilter ?b2, key_exe := press_string_fn, cap_string := map item_code (l_keys l),
      string_lenth := n - (?m + 2)\<rparr> = line_cap l"
    using len by (simp add: line_cap_def head_block_def mod_block_def line_masks_def)
  have t3: "rd q (?m + 2) = Some (item_token (line_items l ! (?m + 2)))" by (rule queue_items [OF q]) (use len in simp)
  have "mode_step q n (?m + 2) (st\<lparr>block := ?b2\<rparr>)
      = Some (End (st\<lparr>ahk_pool := pool', block := ?b2\<lparr>bstate := block_raw\<rparr>\<rparr>))"
    using t3 q(3) dr keys those_codes [OF keys] cap add
    by (simp add: mode_step_def mode_action_def list_all_iff key_item_token(1) head_block_def)
  then have "mode_loop q n [?m + 2..<n] (st\<lparr>block := ?b2\<rparr>) = Some (End (st\<lparr>ahk_pool := pool', block := ?b2\<lparr>bstate := block_raw\<rparr>\<rparr>))"
    using len by (subst upt_conv_Cons) simp_all
  then show ?thesis using mode_loop_head [OF line_head_ok [OF ok] raw q] by simp
qed

lemma line_text_start:
  assumes "l_mods l \<noteq> []" "\<forall>(s, c) \<in> set (l_mods l). mod_symbol c" "at b p (items_text (line_items l))"
  shows "\<exists>x. rd b p = Some x \<and> x \<noteq> of_char CHR '';''"
proof -
  obtain s c ms where m: "l_mods l = (s, c) # ms" "mod_symbol c" using assms(1,2) by (cases "l_mods l") auto
  then have "hd (items_text (line_items l)) \<noteq> of_char CHR '';''" "items_text (line_items l) \<noteq> []"
    by (cases s; auto simp: line_items_def items_text_def mod_symbol_def)+
  then show ?thesis using assms(3) by (cases "items_text (line_items l)") auto
qed

section \<open>The first pass\<close>

definition strip :: "u8 list \<Rightarrow> u8 list" where
  "strip xs = map to_lower (filter kept xs)"

lemma length_strip: "length (strip xs) \<le> length xs"
  by (simp add: strip_def)

lemma mode_strip_spec:
  "sz \<le> length buf \<Longrightarrow>
   mode_strip buf sz = Some (overlay buf 0 (strip (take sz buf)), length (strip (take sz buf)))"
  by (simp add: mode_strip_def strip_def strip_pass)

section \<open>The second pass\<close>

lemma mode_line_hotkey:
  assumes "length str0 = 21" "line_ok l" "bstate (block st) = block_raw" "pool_wf (ahk_pool st)"
    and "at b p (items_text (line_items l))"
  shows "\<exists>st'. mode_line_process str0 b p (p + length (items_text (line_items l))) st = Some (0, st') \<and>
     bstate (block st') = block_raw \<and> line_cnt st' = line_cnt st + 1 \<and> pool_wf (ahk_pool st') \<and>
     hotkeys (ahk_pool st') = hotkeys (ahk_pool st) @ take (199 - length (hotkeys (ahk_pool st))) [line_cap l]"
proof -
  let ?is = "line_items l" let ?n = "length (line_items l)"
  obtain p' where p': "key_cap_add (line_cap l) (ahk_pool st) = Some p'" "pool_wf p'"
    "hotkeys p' = hotkeys (ahk_pool st) @ map cap_body (take (199 - length (hotkeys (ahk_pool st))) [line_cap l])"
    using add_caps_list [OF assms(4), of "[line_cap l]"] by (auto simp: add_caps_def)
  have body: "cap_body (line_cap l) = line_cap l" by (simp add: cap_body_def line_cap_def cap_zero_def)
  have valid: "\<forall>it \<in> set ?is. item_valid it"
    using assms(2) key_item_token(3) by (auto simp: line_items_def line_ok_def)
  obtain q where q: "token_ana str0 b p (p + length (items_text ?is)) = Some (Inr q)" "q_holds (map item_token ?is) q"
    using token_ana_items [OF assms(1) _ valid assms(5)] assms(2) by (auto simp: line_ok_def)
  then have n: "unat (lenth q) = ?n" "take ?n (queue q) = map item_token ?is" "?n \<le> length (queue q)"
    by (auto simp: q_holds_def)
  obtain st' where st': "mode_loop (queue q) ?n [0..<?n] st = Some (End st')" "ahk_pool st' = p'"
    "bstate (block st') = block_raw" "line_cnt st' = line_cnt st"
    using mode_loop_line [OF assms(2,3) n(2) _ n(3) p'(1)] by blast
  have "\<exists>x. rd b p = Some x \<and> x \<noteq> of_char CHR '';''"
    using line_text_start [OF _ _ assms(5)] assms(2) by (simp add: line_ok_def)
  with q(1) n(1) st' p' body show ?thesis by (auto simp: mode_line_process_def take_map [symmetric] split: if_splits)
qed

datatype script_line = Hotkey hotkey_line | Comment "u8 list" | Blank

fun script_text :: "script_line \<Rightarrow> u8 list" where
  "script_text (Hotkey l) = items_text (line_items l)"
| "script_text (Comment cs) = of_char CHR '';'' # cs"
| "script_text Blank = []"

fun script_ok :: "script_line \<Rightarrow> bool" where
  "script_ok (Hotkey l) = (line_ok l \<and> 10 \<notin> set (items_text (line_items l)))"
| "script_ok (Comment cs) = (10 \<notin> set cs)"
| "script_ok Blank = True"

fun script_caps :: "script_line list \<Rightarrow> cap list" where
  "script_caps [] = []"
| "script_caps (Hotkey l # ls) = line_cap l # script_caps ls"
| "script_caps (Comment cs # ls) = script_caps ls"
| "script_caps (Blank # ls) = script_caps ls"

text \<open>Inside a line nothing happens up to the newline, which hands the line over.\<close>

lemma mode_char_inside:
  "at b i cs \<Longrightarrow> 10 \<notin> set cs \<Longrightarrow> read_state s = 1 \<Longrightarrow> i + length cs \<le> w \<Longrightarrow>
   forM [i..<i + length cs] (mode_char str0 b w) s = Some s"
proof (induction cs arbitrary: i)
  case (Cons c cs)
  then have "mode_char str0 b w i s = Some s" by (auto simp: mode_char_def)
  moreover have "forM [Suc i..<Suc i + length cs] (mode_char str0 b w) s = Some s"
    using Cons by (intro Cons.IH) auto
  ultimately show ?case by (subst forM_upt_first) simp_all
qed simp

lemma mode_char_line:
  assumes "at b i (cs @ [10])" "10 \<notin> set cs" "cs \<noteq> []" "read_state s = 0" "i + length cs < w"
    and "mode_line_process str0 b i (i + length cs) (lines_ahk s) = Some (r, st')"
  shows "forM [i..<i + length cs + 1] (mode_char str0 b w) s = Some (s\<lparr>line_ptr0 := i, read_state := 0, lines_ahk := st'\<rparr>)"
proof -
  obtain c cs' where cs: "cs = c # cs'" using assms(3) by (cases cs) auto
  let ?s1 = "s\<lparr>line_ptr0 := i, read_state := 1\<rparr>"
  have 1: "mode_char str0 b w i s = Some ?s1" using assms cs by (auto simp: mode_char_def)
  have 2: "forM [Suc i..<Suc i + length cs'] (mode_char str0 b w) ?s1 = Some ?s1"
    using assms cs by (intro mode_char_inside) auto
  have 3: "mode_char str0 b w (Suc i + length cs') ?s1 = Some (s\<lparr>line_ptr0 := i, read_state := 0, lines_ahk := st'\<rparr>)"
    using assms cs by (simp add: mode_char_def)
  have "forM [i..<i + length cs + 1] (mode_char str0 b w) s = forM [Suc i..<Suc (Suc i + length cs')] (mode_char str0 b w) ?s1"
    using 1 cs by (subst forM_upt_first) simp_all
  also have "\<dots> = forM [Suc i + length cs'..<Suc (Suc i + length cs')] (mode_char str0 b w) ?s1"
    by (subst forM_upt_split [of _ "Suc i + length cs'"]) (simp_all only: 2 bind.simps le_add1 le_SucI order_refl)
  finally show ?thesis using 3 by simp
qed

definition ahk_ready :: "ahk_st \<Rightarrow> bool" where
  "ahk_ready st \<longleftrightarrow> bstate (block st) = block_raw \<and> pool_wf (ahk_pool st)"

lemma mode_script_line:
  assumes "length str0 = 21" "script_ok l" "ahk_ready (lines_ahk s)" "read_state s = 0"
    and "at b i (script_text l @ [10])" "i + length (script_text l) < w"
  shows "\<exists>s'. forM [i..<i + length (script_text l) + 1] (mode_char str0 b w) s = Some s' \<and> read_state s' = 0 \<and>
    ahk_ready (lines_ahk s') \<and> hotkeys (ahk_pool (lines_ahk s')) = hotkeys (ahk_pool (lines_ahk s)) @
      take (199 - length (hotkeys (ahk_pool (lines_ahk s)))) (script_caps [l])"
proof (cases l)
  case (Hotkey h)
  then obtain st' where "mode_line_process str0 b i (i + length (script_text l)) (lines_ahk s) = Some (0, st')"
     "ahk_ready st'" "hotkeys (ahk_pool st') = hotkeys (ahk_pool (lines_ahk s)) @
      take (199 - length (hotkeys (ahk_pool (lines_ahk s)))) [line_cap h]"
    using mode_line_hotkey [OF assms(1), of h "lines_ahk s" b i] assms by (auto simp: ahk_ready_def)
  moreover have "script_text l \<noteq> []"
    using assms(2) Hotkey by (cases "l_mods h") (auto simp: line_ok_def line_items_def items_text_def intro: side.exhaust)
  ultimately show ?thesis
    using mode_char_line [OF assms(5) _ _ assms(4,6)] assms(2) Hotkey by simp
next
  case (Comment cs)
  then have "mode_line_process str0 b i (i + length (script_text l)) (lines_ahk s)
      = Some (0, (lines_ahk s)\<lparr>line_cnt := line_cnt (lines_ahk s) + 1\<rparr>)"
    using assms by (simp add: mode_line_process_def)
  then show ?thesis
    using mode_char_line [OF assms(5) _ _ assms(4,6)] assms(2,3) Comment by (simp add: ahk_ready_def)
next
  case Blank
  then show ?thesis using assms by (auto simp: mode_char_def)
qed

definition script_file :: "script_line list \<Rightarrow> u8 list" where
  "script_file ls = concat (map (\<lambda>l. script_text l @ [10]) ls)"

lemma mode_script:
  assumes "length str0 = 21" "\<forall>l \<in> set ls. script_ok l" "ahk_ready (lines_ahk s)" "read_state s = 0"
    and "at b i (script_file ls)" "i + length (script_file ls) \<le> w"
  shows "\<exists>s'. forM [i..<i + length (script_file ls)] (mode_char str0 b w) s = Some s' \<and>
    ahk_ready (lines_ahk s') \<and> hotkeys (ahk_pool (lines_ahk s')) = hotkeys (ahk_pool (lines_ahk s)) @
      take (199 - length (hotkeys (ahk_pool (lines_ahk s)))) (script_caps ls)"
  using assms(2-)
proof (induction ls arbitrary: s i)
  case Nil
  then show ?case by (simp add: script_file_def)
next
  case (Cons l ls)
  let ?n = "length (script_text l) + 1"
  have t: "script_file (l # ls) = (script_text l @ [10]) @ script_file ls" by (simp add: script_file_def)
  obtain s1 where s1: "forM [i..<i + ?n] (mode_char str0 b w) s = Some s1" "read_state s1 = 0" "ahk_ready (lines_ahk s1)"
    "hotkeys (ahk_pool (lines_ahk s1)) = hotkeys (ahk_pool (lines_ahk s)) @
      take (199 - length (hotkeys (ahk_pool (lines_ahk s)))) (script_caps [l])"
    using mode_script_line [OF assms(1), of l s b i w] Cons.prems t by auto
  obtain s2 where s2: "forM [i + ?n..<i + ?n + length (script_file ls)] (mode_char str0 b w) s1 = Some s2"
    "ahk_ready (lines_ahk s2)" "hotkeys (ahk_pool (lines_ahk s2)) = hotkeys (ahk_pool (lines_ahk s1)) @
      take (199 - length (hotkeys (ahk_pool (lines_ahk s1)))) (script_caps ls)"
    using Cons.IH [OF _ s1(3,2), of "i + ?n"] Cons.prems t by auto
  have len: "i + length (script_file (l # ls)) = i + ?n + length (script_file ls)" unfolding t by simp
  have "forM [i..<i + length (script_file (l # ls))] (mode_char str0 b w) s = Some s2"
    unfolding len by (subst forM_upt_split [of _ "i + ?n"]) (simp_all only: s1(1) s2(1) bind.simps le_add1)
  moreover have "hotkeys (ahk_pool (lines_ahk s2)) = hotkeys (ahk_pool (lines_ahk s)) @
      take (199 - length (hotkeys (ahk_pool (lines_ahk s)))) (script_caps (l # ls))"
    using s2(3) s1(4) by (cases l) (auto simp: take_Cons' numeral_eq_Suc)
  ultimately show ?case using s2(2) by blast
qed

section \<open>Properties\<close>

lemma key_mode_process_script:
  assumes "length str0 = 21" "sz \<le> length buf" "strip (take sz buf) = script_file ls" "\<forall>l \<in> set ls. script_ok l"
    and "ahk_ready st"
  shows "\<exists>b st'. key_mode_process str0 buf sz st = Some (0, b, st') \<and> ahk_ready st' \<and>
     hotkeys (ahk_pool st') = hotkeys (ahk_pool st) @ take (199 - length (hotkeys (ahk_pool st))) (script_caps ls)"
proof -
  let ?t = "script_file ls" let ?b = "overlay buf 0 ?t" let ?w = "length ?t"
  let ?s0 = "\<lparr>read_state = 0, line_ptr0 = 0, lines_ahk = st\<rparr>"
  have w: "?w \<le> length buf" using length_strip [of "take sz buf"] assms(2,3) by simp
  then have "at ?b 0 ?t" by (simp add: at_def rd_def overlay_nth)
  then obtain s where s: "forM [0..<?w] (mode_char str0 ?b ?w) ?s0 = Some s" "ahk_ready (lines_ahk s)"
    "hotkeys (ahk_pool (lines_ahk s)) = hotkeys (ahk_pool st) @ take (199 - length (hotkeys (ahk_pool st))) (script_caps ls)"
    using mode_script [OF assms(1,4), of ?s0 ?b 0 ?w] assms(5) by auto
  have "forM [0..<?w + 1] (mode_char str0 ?b ?w) ?s0 = Some s" using s(1) by (simp add: forM_append mode_char_def)
  then show ?thesis using s mode_strip_spec [OF assms(2)] assms(3) by (simp add: key_mode_process_def)
qed

text \<open>
  Property C6 (ahk_script_registers): reading a hotkey script. If the file, with blanks and carriage
  returns dropped and letters lowered, is a sequence of newline-terminated hotkey lines, comments
  and empty lines, then key_mode_process succeeds without leaving any array and registers exactly
  the hotkeys of the lines, in order, each with the masks of its modifiers, its key and the codes
  of the keys to type, up to the 199 places of the pool.
\<close>

theorem ahk_script_registers:
  assumes "length str0 = 21" "sz \<le> length buf" "strip (take sz buf) = script_file ls" "\<forall>l \<in> set ls. script_ok l"
    and "ahk_ready st"
  shows "\<exists>b st'. key_mode_process str0 buf sz st = Some (0, b, st') \<and> ahk_ready st' \<and>
     hotkeys (ahk_pool st') = hotkeys (ahk_pool st) @ take (199 - length (hotkeys (ahk_pool st))) (script_caps ls)"
  by (rule key_mode_process_script [OF assms])


definition demo_line :: hotkey_line where
  "demo_line = \<lparr>l_mods = [(BothSides, 94), (LeftSide, 33)], l_key = Char 107, l_keys = [Char 104, Char 105, Name 1]\<rparr>"

lemma demo_line_text: "items_text (line_items demo_line) = bytes ''^<!k::hi{enter}''"
  by (simp add: demo_line_def line_items_def items_text_def general_key_map_def)

lemma demo_line_ok: "line_ok demo_line"
  by (simp add: demo_line_def line_ok_def line_items_def mod_symbol_def char_ana_def)

lemma ahk_start_ready:
  "\<exists>p. pool_wf p \<and> hotkeys p = [] \<and> ahk_ready \<lparr>block = block_Init, line_cnt = 0, ahk_pool = p\<rparr>"
  using pool_wf_init by (auto simp: ahk_ready_def block_Init_def)

theorem ahk_script_registers_witness:
  "\<exists>p b st'. key_mode_process (replicate 21 0) (bytes ''^<! K::Hi{Enter}'' @ [10] @ bytes '';x'' @ [10] @ replicate 50 7) 20
      \<lparr>block = block_Init, line_cnt = 0, ahk_pool = p\<rparr> = Some (0, b, st') \<and> hotkeys (ahk_pool st') = [line_cap demo_line]"
proof -
  obtain p where p: "hotkeys p = []" "ahk_ready \<lparr>block = block_Init, line_cnt = 0, ahk_pool = p\<rparr>"
    using ahk_start_ready by blast
  let ?buf = "bytes ''^<! K::Hi{Enter}'' @ [10] @ bytes '';x'' @ [10] @ replicate 50 7"
  have "script_file [Hotkey demo_line, Comment (bytes ''x'')] = bytes ''^<!k::hi{enter}'' @ [10] @ bytes '';x'' @ [10]"
    by (simp only: script_file_def script_text.simps demo_line_text list.map concat.simps) simp
  then have "strip (take 20 ?buf) = script_file [Hotkey demo_line, Comment (bytes ''x'')]"
    by (simp add: strip_def kept_def to_lower_def)
  moreover have "\<forall>l \<in> set [Hotkey demo_line, Comment (bytes ''x'')]. script_ok l"
    using demo_line_ok by (simp add: demo_line_text)
  ultimately show ?thesis
    using ahk_script_registers [of "replicate 21 0" 20 ?buf "[Hotkey demo_line, Comment (bytes ''x'')]",
        OF _ _ _ _ p(2)] p(1) by fastforce
qed

lemma mode_line_waiting:
  assumes "length str0 = 21" "line_ok l" "bstate (block st) = colon_gotton" "at b p (items_text (line_items l))"
  shows "mode_line_process str0 b p (p + length (items_text (line_items l))) st = Some (1, st)"
proof -
  let ?is = "line_items l" let ?n = "length (line_items l)"
  have valid: "\<forall>it \<in> set ?is. item_valid it"
    using assms(2) key_item_token(3) by (auto simp: line_items_def line_ok_def)
  obtain q where q: "token_ana str0 b p (p + length (items_text ?is)) = Some (Inr q)" "q_holds (map item_token ?is) q"
    using token_ana_items [OF assms(1) _ valid assms(4)] assms(2) by (auto simp: line_ok_def)
  obtain s c ms where m: "l_mods l = (s, c) # ms" "mod_symbol c"
    using assms(2) by (cases "l_mods l") (auto simp: line_ok_def)
  have n: "unat (lenth q) = ?n" "take ?n (queue q) = item_token (Mod s c) # map item_token (tl ?is)" "0 < ?n" "?n \<le> length (queue q)"
    using q(2) m by (auto simp: q_holds_def line_items_def)
  then have "queue q \<noteq> []" by auto
  then obtain t where t: "rd (queue q) 0 = Some t" by (simp add: rd_def)
  have "\<not> is_key_token (item_token (Mod s c))" by (cases s) (simp_all add: is_key_token_def)
  then have "mode_loop (queue q) ?n [0..<?n] st = Some (Return1 st)"
    using n t assms(3) by (simp add: upt_conv_Cons mode_step_def mode_action_def)
  moreover have "\<exists>x. rd b p = Some x \<and> x \<noteq> of_char CHR '';''"
    using line_text_start [OF _ _ assms(4)] assms(2) by (simp add: line_ok_def)
  ultimately show ?thesis using q(1) n(1) by (auto simp: mode_line_process_def)
qed

lemma mode_line_unfinished:
  assumes "length str0 = 21" "head_ok l" "l_keys l = []" "bstate (block st) = block_raw" "at b p (items_text (line_items l))"
  shows "mode_line_process str0 b p (p + length (items_text (line_items l))) st
    = Some (0, st\<lparr>block := head_block l, line_cnt := line_cnt st + 1\<rparr>)"
proof -
  let ?is = "line_items l" let ?n = "length (line_items l)"
  have n: "?n = length (l_mods l) + 2" using assms(3) by (simp add: line_items_def)
  then have "?n < 256" using assms(2) by (simp add: head_ok_def)
  moreover have "\<forall>it \<in> set ?is. item_valid it"
    using assms(2,3) key_item_token(3) by (auto simp: line_items_def head_ok_def)
  ultimately obtain q where q: "token_ana str0 b p (p + length (items_text ?is)) = Some (Inr q)" "q_holds (map item_token ?is) q"
    using token_ana_items [OF assms(1) _ _ assms(5)] by blast
  then have u: "unat (lenth q) = ?n" "take ?n (queue q) = map item_token ?is" "?n \<le> length (queue q)"
    by (auto simp: q_holds_def)
  have "mode_loop (queue q) ?n [0..<?n] st = Some (End (st\<lparr>block := head_block l\<rparr>))"
    using mode_loop_head [OF assms(2,4) u(2) refl u(3)] n by simp
  then show ?thesis
    using q(1) u(1) line_text_start [OF _ _ assms(5)] assms(2) by (auto simp: mode_line_process_def head_ok_def)
qed

text \<open>
  Property C31 (ahk_unfinished_line): a hotkey line without keys to type (nothing behind its double
  colon) is accepted but leaves the static block waiting for its action; from then on every
  well-formed hotkey line is refused with code 1 and registers nothing, and the block still waits.
\<close>

theorem ahk_unfinished_line:
  assumes "length str0 = 21" "line_ok l1" "line_ok l2" "bstate (block st) = block_raw"
    and "b1 = items_text (line_items (l1\<lparr>l_keys := []\<rparr>))" "b2 = items_text (line_items l2)"
  shows "\<exists>st'. mode_line_process str0 b1 0 (length b1) st = Some (0, st') \<and> ahk_pool st' = ahk_pool st \<and>
     mode_line_process str0 b2 0 (length b2) st' = Some (1, st')"
proof -
  let ?st' = "st\<lparr>block := head_block (l1\<lparr>l_keys := []\<rparr>), line_cnt := line_cnt st + 1\<rparr>"
  have "head_ok (l1\<lparr>l_keys := []\<rparr>)" using line_head_ok [OF assms(2)] by (simp add: head_ok_def)
  then have "mode_line_process str0 b1 0 (length b1) st = Some (0, ?st')"
    using mode_line_unfinished [OF assms(1) _ _ assms(4), of "l1\<lparr>l_keys := []\<rparr>" b1 0] assms(5) by (simp add: at_self)
  moreover have "mode_line_process str0 b2 0 (length b2) ?st' = Some (1, ?st')"
    using mode_line_waiting [OF assms(1,3), of ?st' b2 0] assms(6) by (simp add: at_self head_block_def)
  ultimately show ?thesis by (intro exI [of _ ?st']) simp
qed

theorem ahk_unfinished_line_witness:
  "\<exists>st'. mode_line_process (replicate 21 0) (bytes ''^<!k::'') 0 6 \<lparr>block = block_Init, line_cnt = 0, ahk_pool = cap_pool_start\<rparr>
      = Some (0, st') \<and> mode_line_process (replicate 21 0) (bytes ''^<!k::hi{enter}'') 0 15 st' = Some (1, st')"
proof -
  have 1: "bytes ''^<!k::'' = items_text (line_items (demo_line\<lparr>l_keys := []\<rparr>))"
    by (simp add: demo_line_def line_items_def items_text_def)
  show ?thesis
    using ahk_unfinished_line [OF _ demo_line_ok demo_line_ok _ 1 demo_line_text [symmetric], of "replicate 21 0"
        "\<lparr>block = block_Init, line_cnt = 0, ahk_pool = cap_pool_start\<rparr>"]
    by (auto simp: block_Init_def numeral_eq_Suc)
qed

end
