(* ===== verification/Script_Run.thy ===== *)
theory Script_Run
  imports Key_Handler Ahk_Mode Disk_Link
begin

text \<open>
  The way of a hotkey from the script file to the keyboard controller: start-up of the keyboard
  thread, a key report, the reports it types, and the packets the keyboard controller receives for
  them. It composes Ahk_Mode, Hotkey_Pool, Key_Handler, Press_String, Link_Frame and Disk_Link.
\<close>

section \<open>Start-up and output\<close>

text \<open>
  Start-up of the keyboard thread with the script service only (init thread and rt_thread_entry_app
  of src/APP/app_interface.c): the pool is set up, the script of sz bytes is read, the thread's own
  hotkeys are registered.
\<close>

definition app_boot :: "u8 list \<Rightarrow> u8 list \<Rightarrow> nat \<Rightarrow> app_st option" where
  "app_boot str0 buf sz = do {
     (p, _) \<leftarrow> key_cap_Init cap_pool_start;
     (_, _, st) \<leftarrow> key_mode_process str0 buf sz \<lparr>block = block_Init, line_cnt = 0, ahk_pool = p\<rparr>;
     app_register (app_start (ahk_pool st))
   }"

text \<open>The bytes rt_thread_entry_key_sm has sent when it has handled the given reports.\<close>

definition sm_line :: "u8 list list \<Rightarrow> u8 list option" where
  "sm_line rs = forM rs (\<lambda>r out. do { f \<leftarrow> key_sm_round r; Some (out @ f) }) []"

text \<open>The hotkey lines of a script, and when a line answers to the modifier byte m and the key k.\<close>

fun hotkey_lines :: "script_line list \<Rightarrow> hotkey_line list" where
  "hotkey_lines [] = []"
| "hotkey_lines (Hotkey l # ls) = l # hotkey_lines ls"
| "hotkey_lines (Comment cs # ls) = hotkey_lines ls"
| "hotkey_lines (Blank # ls) = hotkey_lines ls"

definition line_accepts :: "u8 \<Rightarrow> u8 \<Rightarrow> hotkey_line \<Rightarrow> bool" where
  "line_accepts m k l \<longleftrightarrow> (\<forall>x \<in> set (line_masks l). m AND x \<noteq> 0) \<and> m AND NOT (or_all (line_masks l)) = 0 \<and>
     k = ucast (item_code (l_key l))"

lemma script_caps_lines: "script_caps ls = map line_cap (hotkey_lines ls)"
  by (induction ls rule: hotkey_lines.induct) simp_all

lemma hotkey_lines_ok: "\<forall>l \<in> set ls. script_ok l \<Longrightarrow> \<forall>l \<in> set (hotkey_lines ls). Ahk_Mode.line_ok l"
  by (induction ls rule: hotkey_lines.induct) auto

lemma line_cap_wf: "Ahk_Mode.line_ok l \<Longrightarrow> filter_wf (cap_filter (line_cap l)) \<and> masks (cap_filter (line_cap l)) = line_masks l"
  by (simp add: line_cap_def filter_wf_def masks_def line_masks_def Ahk_Mode.line_ok_def)

lemma line_cap_matches:
  assumes "Ahk_Mode.line_ok l" "distinct (map snd (l_mods l))"
  shows "cap_matches m k (line_cap l) = line_accepts m k l"
proof -
  let ?mods = "map (\<lambda>(s, c). (side_dir s, c)) (l_mods l)"
  have eq: "map mod_mask ?mods = line_masks l" by (simp add: line_masks_def split_def)
  have ok: "\<forall>m \<in> set ?mods. mod_ok m"
  proof -
    have "side_dir s \<in> {0, 1, 2}" for s by (cases s) simp_all
    then show ?thesis using assms(1) by (fastforce simp: mod_ok_def Ahk_Mode.line_ok_def)
  qed
  have "map snd ?mods = map snd (l_mods l)" by (simp add: split_def)
  then have "disjoint_masks (line_masks l)" using mod_masks_disjoint [OF ok] assms(2) unfolding eq by metis
  then show ?thesis
    using line_cap_wf [OF assms(1)] control_key_filt_masks [of "cap_filter (line_cap l)" m] filt_masks_spec [of "line_masks l" m]
    by (simp add: cap_matches_def line_accepts_def) (simp add: line_cap_def)
qed

lemma plain_chars: "list_all (\<lambda>c. plain_code (item_code (Char (of_nat c)))) [0..<128]"
  by code_simp

lemma plain_names: "list_all (\<lambda>i. plain_code (item_code (Name i))) [0..<33]"
  by code_simp

lemma plain_item: "key_item it \<Longrightarrow> plain_code (item_code it)"
proof (cases it)
  case (Char c)
  assume "key_item it"
  then have "unat c < 128" using Char by (simp add: word_less_nat_alt)
  then show ?thesis using Char bspec [OF plain_chars [unfolded list_all_iff], of "unat c"] by simp
next
  case (Name i)
  assume "key_item it"
  then show ?thesis using Name plain_names by (simp add: list_all_iff)
qed simp_all

lemma app_caps_ok: "case app_caps of None \<Rightarrow> False
  | Some cs \<Rightarrow> list_all (\<lambda>c. filter_wf (cap_filter c) \<and> key_exe c \<noteq> press_string_fn) cs"
  by code_simp

text \<open>Start-up ends in a well-formed state whose hotkeys begin with those of the script.\<close>

lemma app_boot_hotkeys:
  assumes "length str0 = 21" "sz \<le> length buf" "strip (take sz buf) = script_file ls" "\<forall>l \<in> set ls. script_ok l"
    and "length (hotkey_lines ls) \<le> 199"
  shows "\<exists>p cs. app_boot str0 buf sz = Some (app_start p) \<and> app_wf (app_start p) \<and>
    hotkeys p = map line_cap (hotkey_lines ls) @ cs"
proof -
  obtain p0 where p0: "key_cap_Init cap_pool_start = Some (p0, [-1])" "pool_wf p0" "hotkeys p0 = []" using pool_wf_init by blast
  let ?st = "\<lparr>block = block_Init, line_cnt = 0, ahk_pool = p0\<rparr>"
  have "ahk_ready ?st" using p0(2) by (simp add: ahk_ready_def block_Init_def)
  then obtain b st where st: "key_mode_process str0 buf sz ?st = Some (0, b, st)" "ahk_ready st"
    "hotkeys (ahk_pool st) = map line_cap (hotkey_lines ls)"
    using key_mode_process_script [OF assms(1-4), of ?st] p0(3) assms(5) by (auto simp: script_caps_lines)
  obtain cs where cs: "app_caps = Some cs" "\<forall>c \<in> set cs. filter_wf (cap_filter c) \<and> key_exe c \<noteq> press_string_fn"
    using app_caps_ok by (auto simp: list_all_iff split: option.splits)
  have "pool_wf (ahk_pool st)" using st(2) by (simp add: ahk_ready_def)
  then obtain p where p: "add_caps cs (ahk_pool st) = Some p" "pool_wf p"
    "hotkeys p = hotkeys (ahk_pool st) @ map cap_body (take (199 - length (hotkeys (ahk_pool st))) cs)"
    using add_caps_list by blast
  have "filter_wf (cap_filter c) \<and> (key_exe c = press_string_fn \<longrightarrow> string_lenth c = length (cap_string c) \<and> (\<forall>u \<in> set (cap_string c). plain_code u))"
    if "c \<in> set (hotkeys p)" for c
  proof -
    consider (script) l where "l \<in> set (hotkey_lines ls)" "c = line_cap l" | (own) d where "d \<in> set cs" "c = cap_body d"
      using \<open>c \<in> set (hotkeys p)\<close> p(3) st(3) in_set_takeD [of _ _ cs] by auto
    then show ?thesis
    proof cases
      case script
      then have ok: "Ahk_Mode.line_ok l" using hotkey_lines_ok [OF assms(4)] by blast
      then have "\<forall>k \<in> set (l_keys l). plain_code (item_code k)" using plain_item by (simp add: Ahk_Mode.line_ok_def)
      then show ?thesis using line_cap_wf [OF ok] script(2) by (simp add: line_cap_def)
    next
      case own
      then show ?thesis using cs(2) by simp
    qed
  qed
  then have "app_wf (app_start p)" using p(2) by (simp add: app_wf_def app_start_def kbd_start_def)
  moreover have "app_boot str0 buf sz = Some (app_start p)"
    using p0(1) st(1) p(1) unfolding app_boot_def app_register_def cs(1) by (simp add: app_start_def)
  ultimately show ?thesis using p(3) st(3) by auto
qed

text \<open>A report loses its flag byte on the way to the keyboard controller; it decodes to the same.\<close>

lemma KEYBRD_Decode_take: "8 \<le> length r \<Longrightarrow> KEYBRD_Decode (take 8 r) st = KEYBRD_Decode r st"
proof -
  assume r: "8 \<le> length r"
  then have t: "rd (take 8 r) i = rd r i" if "i < 8" for i using that by (simp add: rd_def)
  have "forM [2..<8] (\<lambda>ix e. do { k \<leftarrow> rd (take 8 r) ix; Some (e \<or> k = 1 \<or> k = 2 \<or> k = 3) }) False
      = forM [2..<8] (\<lambda>ix e. do { k \<leftarrow> rd r ix; Some (e \<or> k = 1 \<or> k = 2 \<or> k = 3) }) False"
    by (rule forM_cong) (auto simp: t)
  moreover have "forM [2..<8] (\<lambda>ix (ks, n, new). do {
            k \<leftarrow> rd (take 8 r) ix;
            (if k \<noteq> 0 then do {
               ks' \<leftarrow> wr ks n k;
               Some (ks', n + 1, if k \<in> set (take (nbr_keys_last st) (keys_last st)) then new else new @ [k]) }
             else Some (ks, n, new)) }) (keys st, 0, [])
      = forM [2..<8] (\<lambda>ix (ks, n, new). do {
            k \<leftarrow> rd r ix;
            (if k \<noteq> 0 then do {
               ks' \<leftarrow> wr ks n k;
               Some (ks', n + 1, if k \<in> set (take (nbr_keys_last st) (keys_last st)) then new else new @ [k]) }
             else Some (ks, n, new)) }) (keys st, 0, [])"
    by (rule forM_cong) (auto simp: t)
  ultimately show ?thesis unfolding KEYBRD_Decode_def by (simp only: t)
qed

lemma decode_reports_take: "\<forall>r \<in> set rs. 8 \<le> length r \<Longrightarrow> decode_reports (map (take 8) rs) st = decode_reports rs st"
  by (induction rs arbitrary: st) (simp_all add: KEYBRD_Decode_take)

lemma sm_line_wire:
  assumes "\<forall>r \<in> set rs. 8 \<le> length r"
  shows "sm_line rs = Some (wire HEAD_MASTER_RECV (map (\<lambda>r. Packet (commu_code KEYBOARD_SM) (take 8 r)) rs))"
proof -
  have "forM rs (\<lambda>r out. do { f \<leftarrow> key_sm_round r; Some (out @ f) }) acc
      = Some (acc @ wire HEAD_MASTER_RECV (map (\<lambda>r. Packet (commu_code KEYBOARD_SM) (take 8 r)) rs))" for acc
    using assms
  proof (induction rs arbitrary: acc)
    case (Cons r rs)
    then show ?case using commu_send_bytes_frame [of 8 r] by (simp add: key_sm_round_def)
  qed simp
  then show ?thesis by (simp add: sm_line_def)
qed

lemma packets_payload: "map (drop 3) (packets (map (\<lambda>r. Packet ty (f r)) rs)) = map f rs"
  by (induction rs) simp_all

lemma key_process_id: "key_process [0, 1, 2, 3, 4, 5, 6, 7] k = Some k"
proof -
  let ?t = "[0, 1, 2, 3, 4, 5, 6, 7] :: u8 list"
  have t: "unat (?t ! i) = i" if "i < 8" for i
  proof -
    have "?t = map of_nat [0..<8]" by (simp add: upt_rec)
    then have "?t ! i = of_nat i" using that by simp
    then show ?thesis using that by (simp add: unat_of_nat)
  qed
  obtain r where r: "key_process ?t k = Some r" using key_process_total [of ?t] by auto
  then have "bit r j \<longleftrightarrow> j < 8 \<and> (\<exists>i < 8. bit k i \<and> unat (?t ! i) = j)" for j
    using key_process_fold [of ?t 8 k r j] by (simp add: key_process_def)
  then have "bit r j \<longleftrightarrow> bit k j" if "j < 8" for j using t that by metis
  then have "r = k" by (intro bit_word_eqI) simp
  then show ?thesis using r by simp
qed

lemma find_first: "find P xs = Some x \<Longrightarrow> find P (xs @ ys) = Some x"
  by (induction xs) auto

lemma char_code: "key_item (Char (of_nat c)) \<Longrightarrow> c < 128 \<Longrightarrow> char2usb c = Some (item_code (Char (of_nat c)))"
  using key_item_token(2) [of "Char (of_nat c)"] by (simp add: token2usb_def unat_of_nat)

section \<open>Property\<close>


definition hi_line :: hotkey_line where
  "hi_line = \<lparr>l_mods = [(BothSides, 94)], l_key = Char 97, l_keys = [Char 104, Char 105]\<rparr>"

lemma hi_line_text: "items_text (line_items hi_line) = bytes ''^a::hi''"
  by (simp add: hi_line_def line_items_def items_text_def)

lemma hi_line_ok: "Ahk_Mode.line_ok hi_line"
  by (simp add: hi_line_def Ahk_Mode.line_ok_def line_items_def mod_symbol_def char_ana_def)

lemma hi_line_accepts: "line_accepts 1 4 hi_line"
  by code_simp


end
